(* ===== verification/Prelude.thy ===== *)
theory Prelude
  imports Main "HOL-Library.Word" "HOL-Library.Monad_Syntax"
begin

text \<open>
  Shared vocabulary of the development: the C integer types as words, byte strings, the
  little-endian loads and stores of the target (x86-64), bounds-checked memory access, and the
  collections of simplification rules the component theories use.

  A C expression whose evaluation is undefined (an access outside an object, a dereference of a
  null or dangling pointer) is the value \<open>None\<close> of an \<open>option\<close>; the return codes of
  the functions (\<open>-1\<close>, \<open>0\<close>, \<open>1\<close>) are ordinary values.
\<close>

unbundle bit_operations_syntax

named_theorems mem_simps \<open>bounds-checked reads and writes\<close>
named_theorems codec_simps \<open>sizes and round trips of the struct codecs\<close>
named_theorems wsum_simps \<open>sums of 16 bit words\<close>

section \<open>C integer types\<close>

type_synonym u8 = "8 word"
type_synonym u16 = "16 word"
type_synonym u32 = "32 word"
type_synonym u64 = "64 word"
type_synonym bytes = "u8 list"
type_synonym in_addr_t = u32

text \<open>
  \<open>lest < sizeof(T)\<close> compares an \<open>int\<close> with a \<open>size_t\<close>: the \<open>int\<close> is converted to 64 bits
  unsigned first, so a negative value is a huge one.
\<close>

definition lt_sizeof :: "int \<Rightarrow> nat \<Rightarrow> bool" where
  "lt_sizeof lest n \<longleftrightarrow> (word_of_int lest :: u64) < of_nat n"

text \<open>Conversion of a \<open>size_t\<close> value to \<open>int\<close> (32 bits, two's complement).\<close>

definition int_of_size_t :: "u64 \<Rightarrow> int" where
  "int_of_size_t w = sint (ucast w :: u32)"

text \<open>\<^verbatim>\<open>ihl * 4 - sizeof(struct iphdr)\<close>, computed as a \<open>size_t\<close> and stored in an \<open>int\<close>\<close>

definition option_len :: "4 word \<Rightarrow> int" where
  "option_len ihl = int_of_size_t (of_nat (unat ihl * 4) - 20)"

lemma lt_sizeof_nonneg [simp]:
  assumes "0 \<le> lest" and "lest < 2 ^ 31" and "n < 2 ^ 31"
  shows "lt_sizeof lest n \<longleftrightarrow> lest < int n"
proof -
  have "uint (word_of_int lest :: u64) = lest"
    using assms by (simp add: uint_word_of_int)
  moreover have "uint (of_nat n :: u64) = int n"
    using assms by (simp add: uint_nat unat_of_nat)
  ultimately show ?thesis by (simp add: lt_sizeof_def word_less_def)
qed

lemma lt_sizeof_neg:
  assumes "lest < 0" and "- (2 ^ 31) \<le> lest" and "n < 2 ^ 31"
  shows "\<not> lt_sizeof lest n"
proof -
  have "uint (word_of_int lest :: u64) = lest mod 2 ^ 64"
    by (simp add: uint_word_of_int)
  also have "\<dots> = (lest + 2 ^ 64) mod 2 ^ 64" by simp
  also have "\<dots> = lest + 2 ^ 64"
    by (rule mod_pos_pos_trivial) (use assms in simp_all)
  finally have "uint (word_of_int lest :: u64) = lest + 2 ^ 64" .
  moreover have "uint (of_nat n :: u64) = int n"
    using assms by (simp add: uint_nat unat_of_nat)
  ultimately show ?thesis using assms by (simp add: lt_sizeof_def word_less_def)
qed

lemma option_len_eq: "option_len ihl = 4 * int (unat ihl) - 20"
proof -
  have "\<forall>n \<in> set [0..<16]. int_of_size_t (of_nat (n * 4) - 20) = 4 * int n - 20"
    by (simp add: int_of_size_t_def upt_rec)
  moreover have "unat ihl \<in> set [0..<16]" using unsigned_less [of ihl] by simp
  ultimately show ?thesis unfolding option_len_def by blast
qed

lemma option_len_bounds: "- 20 \<le> option_len ihl" "option_len ihl \<le> 40"
proof -
  have "unat ihl < 16" using unsigned_less [of ihl] by simp
  then have "int (unat ihl) < 16" by linarith
  then show "- 20 \<le> option_len ihl" "option_len ihl \<le> 40"
    unfolding option_len_eq by linarith+
qed

section \<open>Little-endian loads and stores\<close>

definition le16 :: "u8 \<Rightarrow> u8 \<Rightarrow> u16" where
  "le16 b0 b1 = push_bit 8 (ucast b1) OR ucast b0"

definition bytes16 :: "u16 \<Rightarrow> bytes" where
  "bytes16 w = [ucast w, ucast (drop_bit 8 w)]"

definition le32 :: "u8 \<Rightarrow> u8 \<Rightarrow> u8 \<Rightarrow> u8 \<Rightarrow> u32" where
  "le32 b0 b1 b2 b3 =
     push_bit 24 (ucast b3) OR push_bit 16 (ucast b2) OR push_bit 8 (ucast b1) OR ucast b0"

definition bytes32 :: "u32 \<Rightarrow> bytes" where
  "bytes32 w = [ucast w, ucast (drop_bit 8 w), ucast (drop_bit 16 w), ucast (drop_bit 24 w)]"

text \<open>\<open>htons\<close> and \<open>ntohs\<close> swap the two bytes of a 16 bit value on the target.\<close>

definition htons :: "u16 \<Rightarrow> u16" where
  "htons w = push_bit 8 w OR drop_bit 8 w"

abbreviation ntohs :: "u16 \<Rightarrow> u16" where
  "ntohs \<equiv> htons"

lemma length_bytes16 [simp]: "length (bytes16 w) = 2"
  by (simp add: bytes16_def)

lemma length_bytes32 [simp]: "length (bytes32 w) = 4"
  by (simp add: bytes32_def)

lemma le16_bytes16 [simp]: "le16 (ucast w) (ucast (drop_bit 8 w)) = w"
  unfolding le16_def by (rule bit_word_eqI) (auto simp: bit_simps)

lemma bit_u8_high [simp]: "8 \<le> n \<Longrightarrow> \<not> bit (b :: u8) n"
  using bit_imp_le_length [of b n] by auto

lemma bit_u16_high [simp]: "16 \<le> n \<Longrightarrow> \<not> bit (w :: u16) n"
  using bit_imp_le_length [of w n] by auto

lemma unat_u8_less [simp]: "unat (b :: u8) < 256"
  using unsigned_less [of b] by simp

lemma unat_u16_less [simp]: "unat (w :: u16) < 65536"
  using unsigned_less [of w] by simp

lemma le32_bytes32 [simp]:
  "le32 (ucast w) (ucast (drop_bit 8 w)) (ucast (drop_bit 16 w)) (ucast (drop_bit 24 w)) = w"
  (is "?l = w")
proof (rule bit_word_eqI)
  fix n assume "n < LENGTH(32)"
  then consider "n < 8" | "8 \<le> n" "n < 16" | "16 \<le> n" "n < 24" | "24 \<le> n" "n < 32"
    by fastforce
  then show "bit ?l n = bit w n"
    by cases (auto simp: le32_def bit_simps)
qed

lemma bytes16_le16 [simp]: "bytes16 (le16 b0 b1) = [b0, b1]"
  unfolding bytes16_def le16_def
  by (auto intro!: bit_word_eqI simp: bit_simps)

lemma bytes32_le32 [simp]: "bytes32 (le32 b0 b1 b2 b3) = [b0, b1, b2, b3]"
  unfolding bytes32_def le32_def
  by (auto intro!: bit_word_eqI simp: bit_simps dest: bit_imp_le_length)

lemma htons_htons [simp]: "htons (htons w) = w"
  unfolding htons_def by (rule bit_word_eqI) (auto simp: bit_simps)

lemma unat_le16: "unat (le16 b0 b1) = unat b0 + 256 * unat b1"
proof -
  have b: "unat b0 < 256" "unat b1 < 256" by simp_all
  have "le16 b0 b1 = push_bit 8 (ucast b1) + ucast b0"
    unfolding le16_def
    by (rule disjunctive_add_eq_or [symmetric])
      (rule bit_word_eqI, auto simp: bit_simps)
  moreover have "unat (push_bit 8 (ucast b1 :: u16)) = unat b1 * 256 mod 65536"
    using b(2) by (simp add: unsigned_push_bit_eq push_bit_nat_def take_bit_nat_def
        unsigned_ucast_eq del: unat_u8_less)
  moreover have "unat (ucast b0 :: u16) = unat b0"
    using b(1) by (simp add: unsigned_ucast_eq take_bit_nat_def del: unat_u8_less)
  ultimately show ?thesis
    using b by (simp add: unat_word_ariths del: unat_u8_less)
qed

section \<open>Word arithmetic used by the checksum\<close>

lemma mask16: "(0xFFFF::u32) = mask 16" by (simp add: mask_eq_exp_minus_1)

lemma unat_and_FFFF: "unat (s AND 0xFFFF) = unat s mod 65536" for s :: u32
  by (simp add: mask16 take_bit_nat_def unsigned_take_bit_eq flip: take_bit_eq_mask)

lemma unat_drop16: "unat (drop_bit 16 s) = unat s div 65536" for s :: u32
  by (simp add: drop_bit_eq_div unat_div)

lemma unat_u32_less: "unat (s :: u32) < 4294967296"
  using unsigned_less [of s, where ?'a = nat] by simp

lemma unat_fold_step:
  "unat ((s AND 0xFFFF) + drop_bit 16 s) = unat s mod 65536 + unat s div 65536"
  for s :: u32
  using unat_u32_less [of s] by (simp add: unat_word_ariths unat_and_FFFF unat_drop16)

lemma top_bit: "s AND 0x80000000 \<noteq> 0 \<longleftrightarrow> 2147483648 \<le> unat s" for s :: u32
proof -
  have p: "(0x80000000::u32) = 2 ^ 31" by simp
  have "s AND 0x80000000 \<noteq> 0 \<longleftrightarrow> bit s 31"
    unfolding p by (simp only: and_exp_eq_0_iff_not_bit not_not)
  moreover have "bit s 31 \<longleftrightarrow> odd (unat s div 2147483648)"
  proof -
    have "bit s 31 = bit (unat s) 31" by (simp add: bit_unsigned_iff)
    also have "\<dots> = odd (unat s div 2 ^ 31)" by (rule bit_iff_odd)
    also have "(2 :: nat) ^ 31 = 2147483648" by simp
    finally show ?thesis .
  qed
  moreover have "unat s div 2147483648 < 2"
    using unat_u32_less [of s] by (simp add: less_mult_imp_div_less)
  then have "odd (unat s div 2147483648) \<longleftrightarrow> 0 < unat s div 2147483648"
    by (auto simp: less_2_cases_iff)
  moreover have "0 < unat s div 2147483648 \<longleftrightarrow> 2147483648 \<le> unat s"
    by (simp add: div_greater_zero_iff)
  ultimately show ?thesis by (simp only:)
qed

lemma unat_NOT16: "unat (NOT w) = 65535 - unat w" for w :: u16
proof -
  have "NOT w = 65535 - w" by (simp add: not_eq_complement)
  moreover have "w \<le> 65535" using unat_u16_less [of w] by (simp add: word_le_nat_alt del: unat_u16_less)
  ultimately show ?thesis by (simp add: unat_sub)
qed

section \<open>Memory objects\<close>

text \<open>
  An object of \<open>n\<close> bytes is a list of length \<open>n\<close>. A pointer into it is an offset; \<open>mread\<close> and
  \<open>mwrite\<close> are \<open>memcpy\<close> out of and into it, undefined outside its bounds.
\<close>

definition mread :: "bytes \<Rightarrow> nat \<Rightarrow> nat \<Rightarrow> bytes option" where
  "mread m off n = (if off + n \<le> length m then Some (take n (drop off m)) else None)"

definition mwrite :: "bytes \<Rightarrow> nat \<Rightarrow> bytes \<Rightarrow> bytes option" where
  "mwrite m off bs =
     (if off + length bs \<le> length m
      then Some (take off m @ bs @ drop (off + length bs) m) else None)"

lemma mread_Some [mem_simps]: "off + n \<le> length m \<Longrightarrow> mread m off n = Some (take n (drop off m))"
  by (simp add: mread_def)

lemma mread_SomeD: "mread m off n = Some bs \<Longrightarrow> off + n \<le> length m \<and> bs = take n (drop off m)"
  by (simp add: mread_def split: if_splits)

lemma mread_length: "mread m off n = Some bs \<Longrightarrow> length bs = n"
  by (auto dest: mread_SomeD)

lemma mread_None [mem_simps]: "\<not> off + n \<le> length m \<Longrightarrow> mread m off n = None"
  by (simp add: mread_def)

lemma mwrite_Some [mem_simps]:
  "off + length bs \<le> length m \<Longrightarrow>
   mwrite m off bs = Some (take off m @ bs @ drop (off + length bs) m)"
  by (simp add: mwrite_def)

lemma mwrite_length: "mwrite m off bs = Some m' \<Longrightarrow> length m' = length m"
  by (auto simp: mwrite_def split: if_splits)

lemma mread_mwrite_same:
  "mwrite m off bs = Some m' \<Longrightarrow> mread m' off (length bs) = Some bs"
  by (auto simp: mwrite_def mread_def split: if_splits)

lemma mread_mwrite_before:
  "mwrite m off bs = Some m' \<Longrightarrow> a + n \<le> off \<Longrightarrow> mread m' a n = mread m a n"
  by (auto simp: mwrite_def mread_def drop_take min_def split: if_splits)

lemma mread_mwrite_after:
  "mwrite m off bs = Some m' \<Longrightarrow> off + length bs \<le> a \<Longrightarrow> mread m' a n = mread m a n"
  by (auto simp: mwrite_def mread_def split: if_splits)

end
