(* ===== verification/DList.thy ===== *)
theory DList
  imports Prelude
begin

text \<open>
  The heap and the doubly linked queues of \<open>router/sendBuf.c\<close> and \<open>router/ip2mac.c\<close>. Both
  files keep a \<open>top\<close>/\<open>bottom\<close> pair and nodes with \<open>next\<close> and \<open>before\<close> pointers, and link and
  unlink them with the same statements; these statements are modelled once, over any record that
  extends the two link fields. A pointer is an address or \<open>None\<close> (\<open>NULL\<close>); a dereference of
  \<open>NULL\<close> or of a freed address is undefined, so \<open>None\<close>.

  The locales \<open>fifo\<close> and \<open>fifo_clear\<close> are the contract of such a queue towards its clients: the
  order of the elements, and that an operation on one queue of a heap leaves the others alone.
\<close>

section \<open>The heap\<close>

record 'a heap =
  cells :: "nat \<rightharpoonup> 'a"
  brk :: nat

definition heap_ok :: "'a heap \<Rightarrow> bool" where
  "heap_ok h \<longleftrightarrow> (\<forall>p \<in> dom (cells h). p < brk h)"

text \<open>A successful \<open>malloc\<close> of an object initialised to \<open>n\<close>: an address never used before.\<close>

definition halloc :: "'a \<Rightarrow> 'a heap \<Rightarrow> nat \<times> 'a heap" where
  "halloc n h = (brk h, h\<lparr>cells := (cells h)(brk h \<mapsto> n), brk := Suc (brk h)\<rparr>)"

text \<open>\<open>free(p)\<close>: undefined unless \<open>p\<close> is allocated.\<close>

definition hfree :: "nat \<Rightarrow> 'a heap \<Rightarrow> 'a heap option" where
  "hfree p h = (case cells h p of
     None \<Rightarrow> None
   | Some _ \<Rightarrow> Some (h\<lparr>cells := (cells h)(p := None)\<rparr>))"

text \<open>\<open>*p = f(*p)\<close>\<close>

definition hupd :: "nat \<Rightarrow> ('a \<Rightarrow> 'a) \<Rightarrow> 'a heap \<Rightarrow> 'a heap option" where
  "hupd p f h = (case cells h p of
     None \<Rightarrow> None
   | Some n \<Rightarrow> Some (h\<lparr>cells := (cells h)(p \<mapsto> f n)\<rparr>))"

lemma hupd_Some [mem_simps]:
  "cells h p = Some n \<Longrightarrow> hupd p f h = Some (h\<lparr>cells := (cells h)(p \<mapsto> f n)\<rparr>)"
  by (simp add: hupd_def)

lemma hfree_Some [mem_simps]:
  "cells h p = Some n \<Longrightarrow> hfree p h = Some (h\<lparr>cells := (cells h)(p := None)\<rparr>)"
  by (simp add: hfree_def)

section \<open>Linking and unlinking\<close>

record dlnode =
  d_next :: "nat option"
  d_before :: "nat option"

record dlq =
  q_top :: "nat option"
  q_bottom :: "nat option"

text \<open>
  \<^verbatim>\<open>if (bottom == NULL) { top = bottom = d; }
  else { bottom->next = d; d->before = bottom; bottom = d; }\<close>
\<close>

definition dl_append ::
  "nat \<Rightarrow> 'a dlnode_scheme heap \<Rightarrow> 'b dlq_scheme \<Rightarrow> ('a dlnode_scheme heap \<times> 'b dlq_scheme) option"
  where
  "dl_append d h q = (case q_bottom q of
     None \<Rightarrow> Some (h, q\<lparr>q_top := Some d, q_bottom := Some d\<rparr>)
   | Some b \<Rightarrow> do {
       h \<leftarrow> hupd b (\<lambda>n. n\<lparr>d_next := Some d\<rparr>) h;
       h \<leftarrow> hupd d (\<lambda>n. n\<lparr>d_before := Some b\<rparr>) h;
       Some (h, q\<lparr>q_bottom := Some d\<rparr>)
     })"

text \<open>
  \<^verbatim>\<open>d = top; top = d->next;
  if (top == NULL) { bottom = NULL; } else { top->before = NULL; }\<close>
\<close>

definition dl_pop ::
  "'a dlnode_scheme heap \<Rightarrow> 'b dlq_scheme \<Rightarrow> (nat \<times> 'a dlnode_scheme heap \<times> 'b dlq_scheme) option"
  where
  "dl_pop h q = do {
     d \<leftarrow> q_top q;
     n \<leftarrow> cells h d;
     (case d_next n of
        None \<Rightarrow> Some (d, h, q\<lparr>q_top := None, q_bottom := None\<rparr>)
      | Some t \<Rightarrow> do {
          h \<leftarrow> hupd t (\<lambda>n. n\<lparr>d_before := None\<rparr>) h;
          Some (d, h, q\<lparr>q_top := Some t\<rparr>)
        })
   }"

section \<open>Well-formed queues\<close>

definition hd_opt :: "nat list \<Rightarrow> nat option" where
  "hd_opt ps = (case ps of [] \<Rightarrow> None | p # _ \<Rightarrow> Some p)"

definition last_opt :: "nat list \<Rightarrow> nat option" where
  "last_opt ps = (if ps = [] then None else Some (last ps))"

lemma hd_opt_simps [simp]: "hd_opt [] = None" "hd_opt (p # ps) = Some p"
  by (simp_all add: hd_opt_def)

lemma last_opt_simps [simp]: "last_opt [] = None" "last_opt (ps @ [p]) = Some p"
  by (simp_all add: last_opt_def)

lemma hd_opt_None_iff [simp]: "hd_opt ps = None \<longleftrightarrow> ps = []"
  by (cases ps) simp_all

lemma last_opt_None_iff [simp]: "last_opt ps = None \<longleftrightarrow> ps = []"
  by (simp add: last_opt_def)

lemma hd_opt_append: "hd_opt (ps @ qs) = (if ps = [] then hd_opt qs else hd_opt ps)"
  by (cases ps) simp_all

text \<open>\<open>linked h b ps\<close>: the nodes \<open>ps\<close> are allocated and linked in both directions, after \<open>b\<close>.\<close>

fun linked :: "'a dlnode_scheme heap \<Rightarrow> nat option \<Rightarrow> nat list \<Rightarrow> bool" where
  "linked h b [] \<longleftrightarrow> True"
| "linked h b (p # ps) \<longleftrightarrow>
     (\<exists>n. cells h p = Some n \<and> d_before n = b \<and> d_next n = hd_opt ps) \<and> linked h (Some p) ps"

definition bare :: "'a dlnode_scheme \<Rightarrow> 'a dlnode_scheme" where
  "bare n = n\<lparr>d_next := None, d_before := None\<rparr>"

text \<open>
  \<open>dlrep h q ps xs\<close>: \<open>q\<close> is the queue with the nodes \<open>ps\<close> and the elements \<open>xs\<close>, an element
  being a node without its links.
\<close>

definition dlrep ::
  "'a dlnode_scheme heap \<Rightarrow> 'b dlq_scheme \<Rightarrow> nat list \<Rightarrow> 'a dlnode_scheme list \<Rightarrow> bool" where
  "dlrep h q ps xs \<longleftrightarrow> heap_ok h \<and> q_top q = hd_opt ps \<and> q_bottom q = last_opt ps \<and>
     distinct ps \<and> linked h None ps \<and> map (\<lambda>p. map_option bare (cells h p)) ps = map Some xs"

lemma bare_simps [simp]:
  "bare (n\<lparr>d_next := a\<rparr>) = bare n" "bare (n\<lparr>d_before := b\<rparr>) = bare n"
  "bare (bare n) = bare n"
  by (simp_all add: bare_def)

lemma linked_frame:
  "\<forall>p \<in> set ps. cells h' p = cells h p \<Longrightarrow> linked h' b ps = linked h b ps"
  by (induction ps arbitrary: b) auto

lemma dlrep_frame:
  assumes "dlrep h q ps xs" and "heap_ok h'" and "\<forall>p \<in> set ps. cells h' p = cells h p"
  shows "dlrep h' q ps xs"
proof -
  have "map (\<lambda>p. map_option bare (cells h' p)) ps = map (\<lambda>p. map_option bare (cells h p)) ps"
    using assms(3) by (intro map_cong) auto
  with assms linked_frame [OF assms(3)] show ?thesis by (simp add: dlrep_def)
qed

lemma dlrep_allocated: "dlrep h q ps xs \<Longrightarrow> p \<in> set ps \<Longrightarrow> \<exists>n. cells h p = Some n"
proof -
  have "linked h b ps \<Longrightarrow> p \<in> set ps \<Longrightarrow> \<exists>n. cells h p = Some n" for b
    by (induction ps arbitrary: b) auto
  then show "dlrep h q ps xs \<Longrightarrow> p \<in> set ps \<Longrightarrow> \<exists>n. cells h p = Some n"
    by (auto simp: dlrep_def)
qed

lemma dlrep_below_brk: "dlrep h q ps xs \<Longrightarrow> p \<in> set ps \<Longrightarrow> p < brk h"
  by (frule (1) dlrep_allocated) (auto simp: dlrep_def heap_ok_def)

lemma dlrep_Nil: "dlrep h q [] xs \<longleftrightarrow> heap_ok h \<and> q_top q = None \<and> q_bottom q = None \<and> xs = []"
  by (auto simp: dlrep_def)

lemma dlrep_length: "dlrep h q ps xs \<Longrightarrow> length ps = length xs"
  by (auto simp: dlrep_def dest: map_eq_imp_length_eq)

lemma dlrep_top_None: "dlrep h q ps xs \<Longrightarrow> q_top q = None \<longleftrightarrow> xs = []"
  by (frule dlrep_length) (auto simp: dlrep_def)

lemma dlrep_more:
  "dlrep h q ps xs \<Longrightarrow> q_top r = q_top q \<Longrightarrow> q_bottom r = q_bottom q \<Longrightarrow> dlrep h r ps xs"
  for q :: "'b dlq_scheme" and r :: "'c dlq_scheme"
  by (simp add: dlrep_def)

section \<open>Appending\<close>

lemma heap_ok_hupd: "heap_ok h \<Longrightarrow> hupd p f h = Some h' \<Longrightarrow> heap_ok h'"
  by (auto simp: heap_ok_def hupd_def split: option.splits if_splits)

lemma heap_ok_halloc: "heap_ok h \<Longrightarrow> halloc n h = (p, h') \<Longrightarrow> heap_ok h'"
  by (auto simp: heap_ok_def halloc_def dom_def less_Suc_eq)

lemma heap_ok_hfree: "heap_ok h \<Longrightarrow> hfree p h = Some h' \<Longrightarrow> heap_ok h'"
  by (auto simp: heap_ok_def hfree_def dom_def split: option.splits if_splits)

lemma halloc_fresh: "heap_ok h \<Longrightarrow> cells h (brk h) = None"
  by (auto simp: heap_ok_def dom_def)

lemma linked_snoc:
  assumes "linked h b ps" and "ps \<noteq> []" and "distinct ps" and "d \<notin> set ps"
    and "cells h (last ps) = Some m"
    and "\<forall>p \<in> set ps - {last ps}. cells h' p = cells h p"
    and "cells h' (last ps) = Some (m\<lparr>d_next := Some d\<rparr>)"
    and "cells h' d = Some n" and "d_next n = None" and "d_before n = Some (last ps)"
  shows "linked h' b (ps @ [d])"
  using assms
proof (induction ps arbitrary: b)
  case (Cons p ps)
  show ?case
  proof (cases "ps = []")
    case True
    with Cons.prems show ?thesis by auto
  next
    case False
    with Cons.prems have "linked h' (Some p) (ps @ [d])" by (intro Cons.IH) auto
    moreover have "p \<noteq> last ps" using Cons.prems(3) False by auto
    with Cons.prems(6) False have "cells h' p = cells h p" by simp
    ultimately show ?thesis using Cons.prems(1) False by (auto simp: hd_opt_append)
  qed
qed simp

lemma linked_last:
  "linked h b ps \<Longrightarrow> ps \<noteq> [] \<Longrightarrow> \<exists>m. cells h (last ps) = Some m"
  by (induction ps arbitrary: b) auto

lemma dl_append_rep:
  assumes q: "dlrep h q ps xs" and d: "cells h d = Some n" "d \<notin> set ps"
    and n: "d_next n = None" "d_before n = None"
  shows "\<exists>h'. dl_append d h q =
      Some (h', q\<lparr>q_top := hd_opt (ps @ [d]), q_bottom := Some d\<rparr>) \<and>
    dlrep h' (q\<lparr>q_top := hd_opt (ps @ [d]), q_bottom := Some d\<rparr>) (ps @ [d]) (xs @ [bare n]) \<and>
    brk h' = brk h \<and> (\<forall>p. p \<notin> set (ps @ [d]) \<longrightarrow> cells h' p = cells h p)"
proof (cases "ps = []")
  case True
  with q n d show ?thesis by (auto simp: dlrep_def dl_append_def last_opt_def)
next
  case False
  let ?b = "last ps"
  from q have rep: "heap_ok h" "q_top q = hd_opt ps" "q_bottom q = Some ?b" "distinct ps"
    "linked h None ps" "map (\<lambda>p. map_option bare (cells h p)) ps = map Some xs"
    using False by (simp_all add: dlrep_def last_opt_def)
  obtain m where m: "cells h ?b = Some m" using linked_last [OF rep(5) False] by blast
  have b: "?b \<in> set ps" "?b \<noteq> d" using False d(2) by auto
  define h' where "h' = h\<lparr>cells := (cells h)(?b \<mapsto> m\<lparr>d_next := Some d\<rparr>,
    d \<mapsto> n\<lparr>d_before := Some ?b\<rparr>)\<rparr>"
  have "dl_append d h q = Some (h', q\<lparr>q_bottom := Some d\<rparr>)"
    using b m d rep(3) by (simp add: dl_append_def hupd_def h'_def)
  moreover have "q\<lparr>q_bottom := Some d\<rparr> = q\<lparr>q_top := hd_opt (ps @ [d]), q_bottom := Some d\<rparr>"
    using rep(2) False by (simp add: hd_opt_append)
  moreover have "heap_ok h'" using rep(1) m d by (auto simp: heap_ok_def h'_def)
  moreover have "linked h' None (ps @ [d])"
    using rep(5) False rep(4) d(2) m
    by (rule linked_snoc [where n = "n\<lparr>d_before := Some ?b\<rparr>"])
      (use b n d(2) in \<open>auto simp: h'_def\<close>)
  moreover have "map (\<lambda>p. map_option bare (cells h' p)) ps = map Some xs"
    unfolding rep(6) [symmetric] using m d(2) by (auto simp: h'_def)
  ultimately show ?thesis
    using rep(4) d(2) b by (auto simp: dlrep_def h'_def)
qed

section \<open>Popping\<close>

lemma dl_pop_rep:
  assumes q: "dlrep h q (p # ps) (x # xs)"
  shows "\<exists>h' n. dl_pop h q = Some (p, h', q\<lparr>q_top := hd_opt ps, q_bottom := last_opt ps\<rparr>) \<and>
    dlrep h' (q\<lparr>q_top := hd_opt ps, q_bottom := last_opt ps\<rparr>) ps xs \<and> brk h' = brk h \<and>
    cells h' p = Some n \<and> bare n = x \<and> (\<forall>r. r \<notin> set ps \<longrightarrow> cells h' r = cells h r)"
proof -
  from q obtain n where rep: "heap_ok h" "q_top q = Some p" "q_bottom q = Some (last (p # ps))"
    "distinct (p # ps)" "cells h p = Some n" "d_next n = hd_opt ps" "linked h (Some p) ps"
    "bare n = x" "map (\<lambda>p. map_option bare (cells h p)) ps = map Some xs"
    by (auto simp: dlrep_def last_opt_def)
  show ?thesis
  proof (cases ps)
    case Nil
    with rep show ?thesis by (auto simp: dl_pop_def dlrep_def)
  next
    case (Cons t ts)
    with rep(7) obtain m where m: "cells h t = Some m" "d_next m = hd_opt ts" "linked h (Some t) ts"
      by auto
    define h' where "h' = h\<lparr>cells := (cells h)(t \<mapsto> m\<lparr>d_before := None\<rparr>)\<rparr>"
    have t: "t \<noteq> p" "t \<notin> set ts" using rep(4) Cons by auto
    have "linked h' (Some t) ts"
      using m(3) t by (subst linked_frame [of _ h' h]) (auto simp: h'_def)
    then have "linked h' None ps" using m(2) Cons by (simp add: h'_def)
    moreover have "map (\<lambda>p. map_option bare (cells h' p)) ps = map Some xs"
      unfolding rep(9) [symmetric] using m(1) by (auto simp: h'_def)
    moreover have "heap_ok h'" using rep(1) m(1) by (auto simp: heap_ok_def h'_def)
    ultimately have D: "dlrep h' (q\<lparr>q_top := hd_opt ps, q_bottom := last_opt ps\<rparr>) ps xs"
      using rep(4) by (simp add: dlrep_def)
    have "dl_pop h q = Some (p, h', q\<lparr>q_top := Some t\<rparr>)"
      using rep(2,5,6) m(1) Cons by (simp add: dl_pop_def hupd_def h'_def)
    moreover have "q\<lparr>q_top := Some t\<rparr> = q\<lparr>q_top := hd_opt ps, q_bottom := last_opt ps\<rparr>"
      using rep(3) Cons by (simp add: last_opt_def)
    moreover have "brk h' = brk h" "cells h' p = Some n"
      "\<forall>r. r \<notin> set ps \<longrightarrow> cells h' r = cells h r"
      using t(1) rep(5) Cons by (auto simp: h'_def)
    ultimately show ?thesis using D rep(8) by metis
  qed
qed

section \<open>The contract of a queue\<close>

text \<open>
  \<open>rep h q ps xs\<close>: in the heap \<open>h\<close> the handle \<open>q\<close> is a queue with footprint \<open>ps\<close> and elements
  \<open>xs\<close>. \<open>admits h q x\<close>: the queue accepts \<open>x\<close>. \<open>others h q ps h'\<close> is the frame condition: every
  queue with a footprint disjoint from \<open>ps\<close> is still there.
\<close>

definition others ::
  "('h \<Rightarrow> 'q \<Rightarrow> nat list \<Rightarrow> 'a list \<Rightarrow> bool) \<Rightarrow> 'h \<Rightarrow> nat list \<Rightarrow> 'h \<Rightarrow> nat list \<Rightarrow> bool" where
  "others rep h ps h' ps' \<longleftrightarrow>
     (\<forall>r rs ys. rep h r rs ys \<longrightarrow> set rs \<inter> set ps = {} \<longrightarrow> rep h' r rs ys \<and> set rs \<inter> set ps' = {})"

text \<open>A family of queues in one heap, with pairwise disjoint footprints.\<close>

definition family ::
  "('h \<Rightarrow> 'q \<Rightarrow> nat list \<Rightarrow> 'a list \<Rightarrow> bool) \<Rightarrow> 'h \<Rightarrow> 'k set \<Rightarrow> ('k \<Rightarrow> 'q) \<Rightarrow>
   ('k \<Rightarrow> nat list) \<Rightarrow> ('k \<Rightarrow> 'a list) \<Rightarrow> bool" where
  "family rep h K q P X \<longleftrightarrow> (\<forall>k \<in> K. rep h (q k) (P k) (X k)) \<and>
     (\<forall>k \<in> K. \<forall>l \<in> K. k \<noteq> l \<longrightarrow> set (P k) \<inter> set (P l) = {})"

lemma family_update:
  assumes fam: "family rep h K q P X" and k: "k \<in> K"
    and new: "rep h' q' ps' xs'" and frame: "others rep h (P k) h' ps'"
  shows "family rep h' K (q(k := q')) (P(k := ps')) (X(k := xs'))"
proof -
  have o: "rep h' (q l) (P l) (X l) \<and> set (P l) \<inter> set ps' = {}" if "l \<in> K" "l \<noteq> k" for l
    using fam frame k that unfolding family_def others_def by (metis Int_commute)
  show ?thesis
    unfolding family_def
  proof (intro conjI ballI impI)
    fix l assume "l \<in> K"
    then show "rep h' ((q(k := q')) l) ((P(k := ps')) l) ((X(k := xs')) l)"
      using o new by (cases "l = k") auto
  next
    fix l m assume "l \<in> K" "m \<in> K" "l \<noteq> m"
    then show "set ((P(k := ps')) l) \<inter> set ((P(k := ps')) m) = {}"
      using fam o unfolding family_def by (auto simp: Int_commute)
  qed
qed

text \<open>Putting a list of elements into a queue, and taking \<open>n\<close> elements out of it\<close>

fun enq_all :: "('a \<Rightarrow> 'h \<Rightarrow> 'q \<Rightarrow> ('h \<times> 'q) option) \<Rightarrow> 'a list \<Rightarrow> 'h \<Rightarrow> 'q \<Rightarrow> ('h \<times> 'q) option"
  where
  "enq_all f [] h q = Some (h, q)"
| "enq_all f (x # xs) h q = do { (h, q) \<leftarrow> f x h q; enq_all f xs h q }"

fun deq_all :: "('h \<Rightarrow> 'q \<Rightarrow> ('a option \<times> 'h \<times> 'q) option) \<Rightarrow> nat \<Rightarrow> 'h \<Rightarrow> 'q \<Rightarrow> ('a list \<times> 'h \<times> 'q) option"
  where
  "deq_all g 0 h q = Some ([], h, q)"
| "deq_all g (Suc n) h q = do {
     (x, h, q) \<leftarrow> g h q;
     x \<leftarrow> x;
     (xs, h, q) \<leftarrow> deq_all g n h q;
     Some (x # xs, h, q)
   }"

locale fifo =
  fixes rep :: "'h \<Rightarrow> 'q \<Rightarrow> nat list \<Rightarrow> 'a list \<Rightarrow> bool"
    and admits :: "'h \<Rightarrow> 'q \<Rightarrow> 'a \<Rightarrow> bool"
    and enq :: "'a \<Rightarrow> 'h \<Rightarrow> 'q \<Rightarrow> ('h \<times> 'q) option"
    and deq :: "'h \<Rightarrow> 'q \<Rightarrow> ('a option \<times> 'h \<times> 'q) option"
  assumes enq: "rep h q ps xs \<Longrightarrow> admits h q x \<Longrightarrow>
      \<exists>h' q' ps'. enq x h q = Some (h', q') \<and> rep h' q' ps' (xs @ [x]) \<and> others rep h ps h' ps'"
    and deq_Nil: "rep h q ps [] \<Longrightarrow> deq h q = Some (None, h, q)"
    and deq_Cons: "rep h q ps (x # xs) \<Longrightarrow>
      \<exists>h' q' ps'. deq h q = Some (Some x, h', q') \<and> rep h' q' ps' xs \<and> others rep h ps h' ps'"
begin

text \<open>An operation on one queue of a family leaves the elements of the other queues alone.\<close>

lemma family_enq:
  assumes "family rep h K q P X" and "k \<in> K" and "admits h (q k) x"
  shows "\<exists>h' q' ps'. enq x h (q k) = Some (h', q') \<and>
    family rep h' K (q(k := q')) (P(k := ps')) (X(k := X k @ [x]))"
proof -
  have "rep h (q k) (P k) (X k)" using assms by (simp add: family_def)
  from enq [OF this assms(3)] obtain h' q' ps' where
    "enq x h (q k) = Some (h', q')" "rep h' q' ps' (X k @ [x])" "others rep h (P k) h' ps'"
    by blast
  with family_update [OF assms(1,2)] show ?thesis by blast
qed

lemma family_deq:
  assumes "family rep h K q P X" and "k \<in> K" and "X k = x # xs"
  shows "\<exists>h' q' ps'. deq h (q k) = Some (Some x, h', q') \<and>
    family rep h' K (q(k := q')) (P(k := ps')) (X(k := xs))"
proof -
  have "rep h (q k) (P k) (x # xs)" using assms by (auto simp: family_def)
  from deq_Cons [OF this] obtain h' q' ps' where
    "deq h (q k) = Some (Some x, h', q')" "rep h' q' ps' xs" "others rep h (P k) h' ps'"
    by blast
  with family_update [OF assms(1,2)] show ?thesis by blast
qed

text \<open>First in, first out: what is put into an empty queue comes out next.\<close>

lemma enq_deq:
  assumes "rep h q ps []" and "admits h q x"
  shows "\<exists>h' q' h'' q'' ps'. enq x h q = Some (h', q') \<and>
    deq h' q' = Some (Some x, h'', q'') \<and> rep h'' q'' ps' []"
proof -
  from enq [OF assms] obtain h' q' ps' where
    e: "enq x h q = Some (h', q')" "rep h' q' ps' [x]" by auto
  from deq_Cons [OF e(2)] show ?thesis using e(1) by blast
qed

text \<open>Any number of elements comes out in the order of insertion.\<close>

lemma deq_all_rep:
  "rep h q ps xs \<Longrightarrow> \<exists>h' q' ps'. deq_all deq (length xs) h q = Some (xs, h', q') \<and> rep h' q' ps' []"
proof (induction xs arbitrary: h q ps)
  case (Cons x xs)
  obtain h1 q1 ps1 where d: "deq h q = Some (Some x, h1, q1)" "rep h1 q1 ps1 xs"
    using deq_Cons [OF Cons.prems] by blast
  from Cons.IH [OF d(2)] d(1) show ?case by auto
qed auto

end

locale fifo_clear = fifo +
  fixes clear :: "'h \<Rightarrow> 'q \<Rightarrow> ('h \<times> 'q) option"
  assumes clear: "rep h q ps xs \<Longrightarrow>
      \<exists>h' q'. clear h q = Some (h', q') \<and> rep h' q' [] [] \<and> others rep h ps h' []"
begin

lemma family_clear:
  assumes "family rep h K q P X" and "k \<in> K"
  shows "\<exists>h' q'. clear h (q k) = Some (h', q') \<and>
    family rep h' K (q(k := q')) (P(k := [])) (X(k := []))"
proof -
  have "rep h (q k) (P k) (X k)" using assms by (simp add: family_def)
  from clear [OF this] obtain h' q' where
    "clear h (q k) = Some (h', q')" "rep h' q' [] []" "others rep h (P k) h' []"
    by blast
  with family_update [OF assms] show ?thesis by blast
qed

end

end
