(* ===== verification/SendBuf.thy ===== *)
theory SendBuf
  imports DList
begin

text \<open>
  \<open>router/sendBuf.c\<close>: the frames that wait for a MAC address, one \<open>SEND_DATA\<close> queue per entry
  of the IP-to-MAC table, and \<open>AppendSendData\<close>, \<open>GetSendData\<close> and \<open>FreeSendData\<close> on it.
  The outcome of \<open>malloc\<close>, \<open>pthread_mutex_lock\<close> and \<open>time\<close> is an argument (\<open>send_env\<close> or the
  lock status), so that every early return of the code is a branch here. The block a node's
  \<open>data\<close> points to is owned by that node: it is the value \<open>Some bytes\<close> while allocated and
  \<open>None\<close> once freed.
\<close>

section \<open>Data\<close>

record DATA_BUF = dlnode +
  d_t :: int
  d_size :: int
  d_data :: "bytes option"

record SEND_DATA = dlq +
  dno :: u64
  inBucketSize :: u64

definition MAX_BUCKET_SIZE :: u64 where
  "MAX_BUCKET_SIZE = 1024 * 1024"

record send_env =
  e_malloc_node :: bool
  e_malloc_data :: bool
  e_lock :: int
  e_time :: int

definition send_ok :: "int \<Rightarrow> send_env" where
  "send_ok t = \<lparr>e_malloc_node = True, e_malloc_data = True, e_lock = 0, e_time = t\<rparr>"

section \<open>The code\<close>

definition AppendSendData ::
  "send_env \<Rightarrow> DATA_BUF heap \<Rightarrow> SEND_DATA \<Rightarrow> bytes \<Rightarrow> int \<Rightarrow> (int \<times> DATA_BUF heap \<times> SEND_DATA) option"
  where
  "AppendSendData e h sd data size' =
     (if inBucketSize sd > MAX_BUCKET_SIZE then Some (-1, h, sd)
      else if \<not> e_malloc_node e then Some (-1, h, sd)
      else if \<not> e_malloc_data e then Some (-1, h, sd)
      else if size' < 0 then None
      else do {
        block \<leftarrow> mread data 0 (nat size');
        let (d, h) = halloc \<lparr>d_next = None, d_before = None, d_t = e_time e, d_size = size',
                             d_data = Some block\<rparr> h;
        if e_lock e \<noteq> 0 then do {
          h \<leftarrow> hfree d h;
          Some (-1, h, sd)
        } else do {
          (h, sd) \<leftarrow> dl_append d h sd;
          Some (0, h, sd\<lparr>dno := dno sd + 1,
                          inBucketSize := inBucketSize sd + word_of_int size'\<rparr>)
        }
      })"

text \<open>The return code \<open>-1\<close> is \<open>None\<close> in the first component, \<open>0\<close> is \<open>Some (*size, *data)\<close>.\<close>

definition GetSendData ::
  "int \<Rightarrow> DATA_BUF heap \<Rightarrow> SEND_DATA \<Rightarrow> ((int \<times> bytes option) option \<times> DATA_BUF heap \<times> SEND_DATA) option"
  where
  "GetSendData lock h sd =
     (if q_top sd = None then Some (None, h, sd)
      else if lock \<noteq> 0 then Some (None, h, sd)
      else do {
        (d, h, sd) \<leftarrow> dl_pop h sd;
        n \<leftarrow> cells h d;
        let sd = sd\<lparr>dno := dno sd - 1,
                    inBucketSize := inBucketSize sd - word_of_int (d_size n)\<rparr>;
        h \<leftarrow> hfree d h;
        Some (Some (d_size n, d_data n), h, sd)
      })"

text \<open>\<^verbatim>\<open>for (ptr = sd->top; ptr != NULL; ptr = ptr->next) { free(ptr->data); }\<close>\<close>

partial_function (option) free_loop :: "nat option \<Rightarrow> DATA_BUF heap \<Rightarrow> DATA_BUF heap option" where
  "free_loop ptr h = (case ptr of
     None \<Rightarrow> Some h
   | Some p \<Rightarrow> do {
       n \<leftarrow> cells h p;
       block \<leftarrow> d_data n;
       h \<leftarrow> hupd p (\<lambda>n. n\<lparr>d_data := None\<rparr>) h;
       free_loop (d_next n) h
     })"

definition FreeSendData ::
  "int \<Rightarrow> DATA_BUF heap \<Rightarrow> SEND_DATA \<Rightarrow> (int \<times> DATA_BUF heap \<times> SEND_DATA) option" where
  "FreeSendData lock h sd =
     (if q_top sd = None then Some (0, h, sd)
      else if lock \<noteq> 0 then Some (-1, h, sd)
      else do {
        h \<leftarrow> free_loop (q_top sd) h;
        Some (0, h, sd\<lparr>q_top := None, q_bottom := None\<rparr>)
      })"

section \<open>A queue of frames\<close>

text \<open>
  What the queue means to its clients: the list of the frames, each of them a live block of the
  size the node says, at most the 2048 bytes the router reads at once.
\<close>

definition frame_ok :: "bytes \<Rightarrow> bool" where
  "frame_ok f \<longleftrightarrow> 0 < length f \<and> length f \<le> 2048"

definition buf_of :: "int \<Rightarrow> bytes \<Rightarrow> DATA_BUF" where
  "buf_of t f = \<lparr>d_next = None, d_before = None, d_t = t, d_size = int (length f), d_data = Some f\<rparr>"

definition is_buf :: "DATA_BUF \<Rightarrow> bytes \<Rightarrow> bool" where
  "is_buf x f \<longleftrightarrow> frame_ok f \<and> d_size x = int (length f) \<and> d_data x = Some f"

definition sdrep :: "DATA_BUF heap \<Rightarrow> SEND_DATA \<Rightarrow> nat list \<Rightarrow> bytes list \<Rightarrow> bool" where
  "sdrep h sd ps fs \<longleftrightarrow> (\<exists>xs. dlrep h sd ps xs \<and> list_all2 is_buf xs fs)"

text \<open>The counters agree with the queue, and the queue holds at most the bucket and one frame.\<close>

definition sd_counts :: "SEND_DATA \<Rightarrow> bytes list \<Rightarrow> bool" where
  "sd_counts sd fs \<longleftrightarrow> unat (dno sd) = length fs \<and>
     unat (inBucketSize sd) = sum_list (map length fs) \<and>
     sum_list (map length fs) \<le> 1024 * 1024 + 2048 \<and> (\<forall>f \<in> set fs. 0 < length f)"

text \<open>\<open>memset(&sd, 0, sizeof(SEND_DATA))\<close>\<close>

definition sd_empty :: SEND_DATA where
  "sd_empty = \<lparr>q_top = None, q_bottom = None, dno = 0, inBucketSize = 0\<rparr>"

lemma sdrep_heap_ok: "sdrep h sd ps fs \<Longrightarrow> heap_ok h"
  by (auto simp: sdrep_def dlrep_def)

lemma sdrep_empty [simp]: "sdrep h sd_empty [] [] \<longleftrightarrow> heap_ok h"
  by (simp add: sdrep_def dlrep_Nil sd_empty_def)

lemma sdrep_Nil: "sdrep h sd [] fs \<longleftrightarrow> heap_ok h \<and> q_top sd = None \<and> q_bottom sd = None \<and> fs = []"
  by (auto simp: sdrep_def dlrep_Nil)

lemma sd_counts_empty [simp]: "sd_counts sd_empty []"
  by (simp add: sd_counts_def sd_empty_def)

lemma sdrep_top_None: "sdrep h sd ps fs \<Longrightarrow> q_top sd = None \<longleftrightarrow> fs = []"
  by (auto simp: sdrep_def dlrep_top_None)

lemma sdrep_more:
  "sdrep h sd ps fs \<Longrightarrow> q_top sd' = q_top sd \<Longrightarrow> q_bottom sd' = q_bottom sd \<Longrightarrow> sdrep h sd' ps fs"
  unfolding sdrep_def by (blast intro: dlrep_more)

lemma sdrep_length: "sdrep h sd ps fs \<Longrightarrow> length ps = length fs"
  by (metis dlrep_length list_all2_lengthD sdrep_def)

lemma sdrep_frame_ok: "sdrep h sd ps fs \<Longrightarrow> f \<in> set fs \<Longrightarrow> frame_ok f"
  by (auto simp: sdrep_def is_buf_def list_all2_conv_all_nth in_set_conv_nth)

lemma sdrep_below_brk: "sdrep h sd ps fs \<Longrightarrow> p \<in> set ps \<Longrightarrow> p < brk h"
  by (auto simp: sdrep_def dest: dlrep_below_brk)

text \<open>The frame condition, from cells that do not change outside the footprint.\<close>

lemma sdrep_others:
  assumes "heap_ok h'" and "\<forall>p. p \<notin> set ps \<and> p < brk h \<longrightarrow> cells h' p = cells h p"
    and "set ps' \<subseteq> set ps \<union> {brk h..}"
  shows "others sdrep h ps h' ps'"
  unfolding others_def
proof (intro allI impI)
  fix r rs ys assume r: "sdrep h r rs ys" and d: "set rs \<inter> set ps = {}"
  then obtain xs where xs: "dlrep h r rs xs" "list_all2 is_buf xs ys" by (auto simp: sdrep_def)
  have b: "p < brk h" if "p \<in> set rs" for p using r that by (rule sdrep_below_brk)
  then have "dlrep h' r rs xs"
    using dlrep_frame [OF xs(1) assms(1)] assms(2) d by blast
  moreover have "set rs \<inter> set ps' = {}" using assms(3) d b by force
  ultimately show "sdrep h' r rs ys \<and> set rs \<inter> set ps' = {}"
    using xs(2) by (auto simp: sdrep_def)
qed

section \<open>AppendSendData\<close>

definition append_succeeds :: "send_env \<Rightarrow> SEND_DATA \<Rightarrow> bool" where
  "append_succeeds e sd \<longleftrightarrow> inBucketSize sd \<le> MAX_BUCKET_SIZE \<and>
     e_malloc_node e \<and> e_malloc_data e \<and> e_lock e = 0"

lemma AppendSendData_ok:
  assumes rep: "sdrep h sd ps fs" and n: "0 < k" "k \<le> 2048" "k \<le> length data"
    and e: "append_succeeds e sd"
  shows "\<exists>h' sd'. AppendSendData e h sd data (int k) = Some (0, h', sd') \<and>
    sdrep h' sd' (ps @ [brk h]) (fs @ [take k data]) \<and> others sdrep h ps h' (ps @ [brk h]) \<and>
    dno sd' = dno sd + 1 \<and> inBucketSize sd' = inBucketSize sd + of_nat k"
proof -
  obtain xs where xs: "dlrep h sd ps xs" "list_all2 is_buf xs fs"
    using rep by (auto simp: sdrep_def)
  let ?d = "brk h"
  let ?n = "\<lparr>d_next = None, d_before = None, d_t = e_time e, d_size = int k,
    d_data = Some (take k data)\<rparr>"
  obtain h1 where h1: "halloc ?n h = (?d, h1)" by (simp add: halloc_def)
  have fresh: "?d \<notin> set ps" using dlrep_below_brk [OF xs(1)] by blast
  have c1: "cells h1 ?d = Some ?n" "brk h1 = Suc ?d" "\<forall>p. p \<noteq> ?d \<longrightarrow> cells h1 p = cells h p"
    using h1 by (auto simp: halloc_def)
  have "heap_ok h1" using xs(1) heap_ok_halloc [OF _ h1] by (simp add: dlrep_def)
  moreover have "\<forall>p \<in> set ps. cells h1 p = cells h p" using c1(3) fresh by metis
  ultimately have r1: "dlrep h1 sd ps xs" by (rule dlrep_frame [OF xs(1)])
  let ?q = "sd\<lparr>q_top := hd_opt (ps @ [?d]), q_bottom := Some ?d\<rparr>"
  obtain h2 where h2: "dl_append ?d h1 sd = Some (h2, ?q)"
    "dlrep h2 ?q (ps @ [?d]) (xs @ [bare ?n])"
    "\<forall>p. p \<notin> set (ps @ [?d]) \<longrightarrow> cells h2 p = cells h1 p"
    using dl_append_rep [OF r1 c1(1) fresh] by auto
  let ?sd = "?q\<lparr>dno := dno sd + 1, inBucketSize := inBucketSize sd + of_nat k\<rparr>"
  have "AppendSendData e h sd data (int k) = Some (0, h2, ?sd)"
    using e n h1 h2(1)
    by (simp add: AppendSendData_def append_succeeds_def mem_simps not_less)
  moreover have "is_buf (bare ?n) (take k data)"
    using n by (simp add: is_buf_def bare_def frame_ok_def)
  then have "sdrep h2 ?q (ps @ [?d]) (fs @ [take k data])"
    using h2(2) xs(2) by (auto simp: sdrep_def list_all2_appendI)
  then have "sdrep h2 ?sd (ps @ [?d]) (fs @ [take k data])" by (rule sdrep_more) simp_all
  moreover have "heap_ok h2" using h2(2) by (simp add: dlrep_def)
  then have "others sdrep h ps h2 (ps @ [?d])"
    by (rule sdrep_others) (use h2(3) c1(3) in auto)
  ultimately show ?thesis by auto
qed

lemma AppendSendData_fails:
  assumes rep: "sdrep h sd ps fs" and n: "k \<le> length data"
    and e: "\<not> append_succeeds e sd"
  shows "\<exists>h'. AppendSendData e h sd data (int k) = Some (-1, h', sd) \<and>
    sdrep h' sd ps fs \<and> others sdrep h ps h' ps"
proof -
  have h: "heap_ok h" using rep by (rule sdrep_heap_ok)
  have "\<exists>h'. AppendSendData e h sd data (int k) = Some (-1, h', sd) \<and> heap_ok h' \<and>
      (\<forall>p. cells h' p = cells h p)"
    using e n h halloc_fresh [OF h]
    by (auto simp: AppendSendData_def append_succeeds_def mem_simps halloc_def heap_ok_def
        less_Suc_eq)
  then obtain h' where h': "AppendSendData e h sd data (int k) = Some (-1, h', sd)"
    "heap_ok h'" "\<forall>p. cells h' p = cells h p"
    by blast
  have "sdrep h' sd ps fs"
    using rep h'(2,3) unfolding sdrep_def by (blast intro: dlrep_frame)
  moreover have "others sdrep h ps h' ps"
    using h'(2) by (rule sdrep_others) (use h'(3) in auto)
  ultimately show ?thesis using h'(1) by blast
qed

lemma length_le_sum_length: "\<forall>f \<in> set fs. 0 < length f \<Longrightarrow> length fs \<le> sum_list (map length fs)"
proof (induction fs)
  case (Cons f fs)
  then have "Suc 0 \<le> length f" "length fs \<le> sum_list (map length fs)"
    by (simp_all add: Suc_le_eq)
  then show ?case by simp
qed simp

lemma sd_counts_append:
  assumes "sd_counts sd fs" and "inBucketSize sd \<le> MAX_BUCKET_SIZE" and "frame_ok f"
    and "dno sd' = dno sd + 1" and "inBucketSize sd' = inBucketSize sd + of_nat (length f)"
  shows "sd_counts sd' (fs @ [f])"
proof -
  let ?S = "sum_list (map length fs)"
  have "length fs \<le> ?S"
    using assms(1) by (intro length_le_sum_length) (simp add: sd_counts_def)
  moreover have S: "?S \<le> 1024 * 1024"
    using assms(1,2) by (simp add: sd_counts_def MAX_BUCKET_SIZE_def word_le_nat_alt)
  ultimately have "length fs \<le> 1024 * 1024" by linarith
  then have "unat (dno sd') = Suc (length fs)"
    using assms(1,4) by (simp add: sd_counts_def unat_word_ariths)
  moreover have "unat (inBucketSize sd') = ?S + length f"
    using assms(1,3,5) S by (simp add: sd_counts_def frame_ok_def unat_word_ariths unat_of_nat)
  ultimately show ?thesis
    using assms(1,3) S by (auto simp: sd_counts_def frame_ok_def)
qed

section \<open>GetSendData\<close>

lemma GetSendData_Nil: "sdrep h sd ps [] \<Longrightarrow> GetSendData lock h sd = Some (None, h, sd)"
  by (simp add: GetSendData_def sdrep_top_None)

lemma GetSendData_Cons:
  assumes rep: "sdrep h sd ps (f # fs)"
  shows "\<exists>h' sd'. GetSendData 0 h sd = Some (Some (int (length f), Some f), h', sd') \<and>
    sdrep h' sd' (tl ps) fs \<and> others sdrep h ps h' (tl ps) \<and>
    dno sd' = dno sd - 1 \<and> inBucketSize sd' = inBucketSize sd - of_nat (length f)"
proof -
  obtain x xs where xs: "dlrep h sd ps (x # xs)" "is_buf x f" "list_all2 is_buf xs fs"
    using rep by (auto simp: sdrep_def list_all2_Cons2)
  then obtain p qs where ps: "ps = p # qs" using dlrep_length by (cases ps) fastforce+
  let ?q = "sd\<lparr>q_top := hd_opt qs, q_bottom := last_opt qs\<rparr>"
  obtain h1 n where h1: "dl_pop h sd = Some (p, h1, ?q)" "dlrep h1 ?q qs xs" "brk h1 = brk h"
    "cells h1 p = Some n" "bare n = x" "\<forall>r. r \<notin> set qs \<longrightarrow> cells h1 r = cells h r"
    using dl_pop_rep [OF xs(1) [unfolded ps]] by blast
  have n: "d_size n = int (length f)" "d_data n = Some f"
    using xs(2) h1(5) by (auto simp: is_buf_def bare_def)
  have p: "p \<notin> set qs" using xs(1) ps by (simp add: dlrep_def)
  define h2 where "h2 = h1\<lparr>cells := (cells h1)(p := None)\<rparr>"
  let ?sd = "?q\<lparr>dno := dno sd - 1, inBucketSize := inBucketSize sd - of_nat (length f)\<rparr>"
  have "q_top sd \<noteq> None" using dlrep_top_None [OF xs(1)] by simp
  then have "GetSendData 0 h sd = Some (Some (int (length f), Some f), h2, ?sd)"
    using h1(1,4) n by (simp add: GetSendData_def mem_simps h2_def)
  moreover have ok: "heap_ok h2"
    using h1(2) by (auto simp: dlrep_def heap_ok_def h2_def dom_def split: if_splits)
  have "dlrep h2 ?q qs xs"
    using dlrep_frame [OF h1(2) ok] p by (auto simp: h2_def)
  then have "sdrep h2 ?q qs fs" using xs(3) by (auto simp: sdrep_def)
  then have "sdrep h2 ?sd qs fs" by (rule sdrep_more) simp_all
  moreover have "others sdrep h ps h2 qs"
    using ok by (rule sdrep_others) (use h1(6) ps in \<open>auto simp: h2_def\<close>)
  ultimately show ?thesis using ps by auto
qed

lemma sd_counts_get:
  assumes "sd_counts sd (f # fs)"
    and "dno sd' = dno sd - 1" and "inBucketSize sd' = inBucketSize sd - of_nat (length f)"
  shows "sd_counts sd' fs"
proof -
  have "unat (dno sd') = length fs"
    using assms(1,2) by (simp add: sd_counts_def unat_sub word_le_nat_alt)
  moreover have "length f < 2 ^ 64" using assms(1) by (simp add: sd_counts_def)
  then have "unat (of_nat (length f) :: u64) = length f" by (simp add: unat_of_nat)
  with assms(1,3) have "unat (inBucketSize sd') = sum_list (map length fs)"
    by (simp add: sd_counts_def unat_sub word_le_nat_alt)
  ultimately show ?thesis using assms(1) by (simp add: sd_counts_def)
qed

section \<open>FreeSendData\<close>

lemma free_loop_ok:
  assumes "linked h b ps" and "distinct ps"
    and "\<forall>p \<in> set ps. \<exists>n block. cells h p = Some n \<and> d_data n = Some block"
  shows "\<exists>h'. free_loop (hd_opt ps) h = Some h' \<and> brk h' = brk h \<and>
    (\<forall>p. p \<notin> set ps \<longrightarrow> cells h' p = cells h p) \<and>
    (\<forall>p \<in> set ps. \<exists>n. cells h' p = Some n \<and> d_data n = None)"
  using assms
proof (induction ps arbitrary: h b)
  case Nil
  then show ?case by (simp add: free_loop.simps)
next
  case (Cons p ps)
  then obtain n block where n: "cells h p = Some n" "d_data n = Some block" "d_next n = hd_opt ps"
    and l: "linked h (Some p) ps" and p: "p \<notin> set ps"
    by auto
  define h1 where "h1 = h\<lparr>cells := (cells h)(p \<mapsto> n\<lparr>d_data := None\<rparr>)\<rparr>"
  have same: "\<forall>r \<in> set ps. cells h1 r = cells h r" using p by (auto simp: h1_def)
  have l1: "linked h1 (Some p) ps" using linked_frame [OF same] l by simp
  have d1: "\<forall>r \<in> set ps. \<exists>n block. cells h1 r = Some n \<and> d_data n = Some block"
    using Cons.prems(3) same by auto
  have "distinct ps" using Cons.prems(2) by simp
  from Cons.IH [OF l1 this d1]
  obtain h' where h': "free_loop (hd_opt ps) h1 = Some h'" "brk h' = brk h1"
    "\<forall>p. p \<notin> set ps \<longrightarrow> cells h' p = cells h1 p"
    "\<forall>p \<in> set ps. \<exists>n. cells h' p = Some n \<and> d_data n = None"
    by (elim exE conjE) (rule that)
  have "free_loop (Some p) h = Some h'"
    using n h'(1) by (subst free_loop.simps) (simp add: mem_simps h1_def)
  moreover have "cells h' p = Some (n\<lparr>d_data := None\<rparr>)" using h'(3) p by (simp add: h1_def)
  ultimately show ?case using h' by (auto simp: h1_def)
qed

lemma sdrep_blocks:
  assumes "sdrep h sd ps fs" and "p \<in> set ps"
  shows "\<exists>n block. cells h p = Some n \<and> d_data n = Some block"
proof -
  obtain xs where xs: "dlrep h sd ps xs" "list_all2 is_buf xs fs"
    using assms(1) by (auto simp: sdrep_def)
  obtain n where n: "cells h p = Some n" using dlrep_allocated [OF xs(1) assms(2)] by blast
  have "map_option bare (cells h p) \<in> set (map Some xs)"
    using xs(1) assms(2) unfolding dlrep_def by (metis (no_types, lifting) image_eqI list.set_map)
  then have "bare n \<in> set xs" using n by auto
  then obtain f where "is_buf (bare n) f"
    using xs(2) by (auto simp: list_all2_conv_all_nth in_set_conv_nth)
  then show ?thesis using n by (auto simp: is_buf_def bare_def)
qed

text \<open>The queue is empty afterwards; the counters keep their values.\<close>

lemma FreeSendData_ok:
  assumes rep: "sdrep h sd ps fs"
  shows "\<exists>h'. FreeSendData 0 h sd = Some (0, h', sd\<lparr>q_top := None, q_bottom := None\<rparr>) \<and>
    sdrep h' (sd\<lparr>q_top := None, q_bottom := None\<rparr>) [] [] \<and> others sdrep h ps h' []"
proof (cases "ps = []")
  case True
  then have q: "q_top sd = None" "q_bottom sd = None" using rep by (simp_all add: sdrep_Nil)
  then have "sd\<lparr>q_top := None, q_bottom := None\<rparr> = sd" by simp
  moreover have "others sdrep h ps h []" by (simp add: others_def)
  ultimately show ?thesis
    using rep q True sdrep_Nil [of h sd fs] by (simp add: FreeSendData_def sdrep_Nil)
next
  case False
  obtain xs where xs: "dlrep h sd ps xs" "list_all2 is_buf xs fs"
    using rep by (auto simp: sdrep_def)
  then have l: "linked h None ps" "distinct ps" "q_top sd = hd_opt ps" "heap_ok h"
    by (simp_all add: dlrep_def)
  obtain h' where h': "free_loop (hd_opt ps) h = Some h'" "brk h' = brk h"
    "\<forall>p. p \<notin> set ps \<longrightarrow> cells h' p = cells h p"
    "\<forall>p \<in> set ps. \<exists>n. cells h' p = Some n \<and> d_data n = None"
    using free_loop_ok [OF l(1,2)] sdrep_blocks [OF rep] by blast
  have ok: "heap_ok h'"
    unfolding heap_ok_def
  proof
    fix p assume "p \<in> dom (cells h')"
    then show "p < brk h'"
      using h'(2,3) l(4) dlrep_below_brk [OF xs(1), of p]
      by (cases "p \<in> set ps") (auto simp: heap_ok_def dom_def)
  qed
  have "FreeSendData 0 h sd = Some (0, h', sd\<lparr>q_top := None, q_bottom := None\<rparr>)"
    using h'(1) l(3) False by (simp add: FreeSendData_def)
  moreover have "others sdrep h ps h' []"
    using ok by (rule sdrep_others) (use h'(3) in auto)
  ultimately show ?thesis using ok by (simp add: sdrep_Nil)
qed

lemma FreeSendData_locked:
  "sdrep h sd ps fs \<Longrightarrow> lock \<noteq> 0 \<Longrightarrow>
   FreeSendData lock h sd = Some (if fs = [] then 0 else -1, h, sd)"
  by (simp add: FreeSendData_def sdrep_top_None)

text \<open>
  \<open>FreeSendData\<close> releases the data blocks but not the nodes: they stay allocated and are no longer
  reachable from any queue.
\<close>

lemma FreeSendData_freed:
  assumes rep: "sdrep h sd ps fs" and "FreeSendData 0 h sd = Some (r, h', sd')"
  shows "\<forall>p \<in> set ps. \<exists>n. cells h' p = Some n \<and> d_data n = None"
proof (cases "ps = []")
  case False
  from rep have l: "linked h None ps" "distinct ps" "q_top sd = hd_opt ps"
    by (auto simp: sdrep_def dlrep_def)
  obtain h'' where "free_loop (hd_opt ps) h = Some h''"
    "\<forall>p \<in> set ps. \<exists>n. cells h'' p = Some n \<and> d_data n = None"
    using free_loop_ok [OF l(1,2)] sdrep_blocks [OF rep] by blast
  with False show ?thesis using assms(2) l(3) by (auto simp: FreeSendData_def)
qed simp

section \<open>The contract\<close>

definition sd_admits :: "DATA_BUF heap \<Rightarrow> SEND_DATA \<Rightarrow> bytes \<Rightarrow> bool" where
  "sd_admits h sd f \<longleftrightarrow> inBucketSize sd \<le> MAX_BUCKET_SIZE \<and> frame_ok f"

definition sd_enq :: "int \<Rightarrow> bytes \<Rightarrow> DATA_BUF heap \<Rightarrow> SEND_DATA \<Rightarrow> (DATA_BUF heap \<times> SEND_DATA) option"
  where
  "sd_enq t f h sd =
     map_option snd (AppendSendData (send_ok t) h sd f (int (length f)))"

definition sd_deq ::
  "DATA_BUF heap \<Rightarrow> SEND_DATA \<Rightarrow> (bytes option \<times> DATA_BUF heap \<times> SEND_DATA) option" where
  "sd_deq h sd = map_option (\<lambda>(r, s). (Option.bind r snd, s)) (GetSendData 0 h sd)"

definition sd_clear :: "DATA_BUF heap \<Rightarrow> SEND_DATA \<Rightarrow> (DATA_BUF heap \<times> SEND_DATA) option" where
  "sd_clear h sd = map_option snd (FreeSendData 0 h sd)"

interpretation sdq: fifo_clear sdrep sd_admits "sd_enq t" sd_deq sd_clear for t
proof
  fix h q ps xs x
  assume rep: "sdrep h q ps xs"
  {
    assume "sd_admits h q x"
    then have "append_succeeds (send_ok t) q" "0 < length x" "length x \<le> 2048"
      by (simp_all add: sd_admits_def append_succeeds_def send_ok_def frame_ok_def)
    from AppendSendData_ok [OF rep this(2,3) order_refl this(1)]
    show "\<exists>h' q' ps'. sd_enq t x h q = Some (h', q') \<and> sdrep h' q' ps' (xs @ [x]) \<and>
        others sdrep h ps h' ps'"
      by (auto simp: sd_enq_def)
  }
  from FreeSendData_ok [OF rep]
  show "\<exists>h' q'. sd_clear h q = Some (h', q') \<and> sdrep h' q' [] [] \<and> others sdrep h ps h' []"
    by (auto simp: sd_clear_def)
next
  fix h q ps assume "sdrep h q ps []"
  then show "sd_deq h q = Some (None, h, q)" by (simp add: sd_deq_def GetSendData_Nil)
next
  fix h q ps x xs assume "sdrep h q ps (x # xs)"
  from GetSendData_Cons [OF this]
  show "\<exists>h' q' ps'. sd_deq h q = Some (Some x, h', q') \<and> sdrep h' q' ps' xs \<and>
      others sdrep h ps h' ps'"
    by (auto simp: sd_deq_def)
qed

section \<open>Properties\<close>

lemma sd_enq_ok:
  assumes "sdrep h sd ps fs" and "sd_counts sd fs" and "frame_ok f"
    and "sum_list (map length fs) \<le> 1024 * 1024"
  shows "\<exists>h' sd' ps'. sd_enq t f h sd = Some (h', sd') \<and> sdrep h' sd' ps' (fs @ [f]) \<and>
    sd_counts sd' (fs @ [f])"
proof -
  have b: "inBucketSize sd \<le> MAX_BUCKET_SIZE"
    using assms(2,4) by (simp add: sd_counts_def MAX_BUCKET_SIZE_def word_le_nat_alt)
  then have s: "append_succeeds (send_ok t) sd" by (simp add: append_succeeds_def send_ok_def)
  have f: "0 < length f" "length f \<le> 2048" using assms(3) by (simp_all add: frame_ok_def)
  from AppendSendData_ok [OF assms(1) f order_refl s] obtain h' sd' where
    a: "AppendSendData (send_ok t) h sd f (int (length f)) = Some (0, h', sd')"
    "sdrep h' sd' (ps @ [brk h]) (fs @ [f])"
    "dno sd' = dno sd + 1" "inBucketSize sd' = inBucketSize sd + of_nat (length f)"
    by auto
  have "sd_counts sd' (fs @ [f])" using sd_counts_append [OF assms(2) b assms(3) a(3,4)] .
  with a show ?thesis by (auto simp: sd_enq_def)
qed

text \<open>The waiting frames of an entry are a first-in first-out queue: as long as they fit in the
  bucket, all frames appended are accepted, the counters count them, and they come out once each, in
  the order they went in, after those that were there.\<close>

theorem send_queue_fifo:
  assumes "sdrep h sd ps fs" and "sd_counts sd fs" and "\<forall>g \<in> set gs. frame_ok g"
    and "sum_list (map length (fs @ gs)) \<le> 1024 * 1024"
  shows "\<exists>h1 sd1 h2 sd2. enq_all (sd_enq t) gs h sd = Some (h1, sd1) \<and> sd_counts sd1 (fs @ gs) \<and>
    deq_all sd_deq (length (fs @ gs)) h1 sd1 = Some (fs @ gs, h2, sd2) \<and> q_top sd2 = None"
  using assms
proof (induction gs arbitrary: h sd ps fs)
  case Nil
  obtain h2 sd2 ps2 where "deq_all sd_deq (length fs) h sd = Some (fs, h2, sd2)" "sdrep h2 sd2 ps2 []"
    using sdq.deq_all_rep [OF Nil(1)] by blast
  with Nil sdrep_top_None show ?case by auto
next
  case (Cons g gs)
  obtain h1 sd1 ps1 where a: "sd_enq t g h sd = Some (h1, sd1)" "sdrep h1 sd1 ps1 (fs @ [g])"
    "sd_counts sd1 (fs @ [g])"
    using sd_enq_ok [OF Cons.prems(1,2), of g t] Cons.prems(3,4) by auto
  have "\<forall>g \<in> set gs. frame_ok g" "sum_list (map length ((fs @ [g]) @ gs)) \<le> 1024 * 1024"
    using Cons.prems(3,4) by simp_all
  from Cons.IH [OF a(2,3) this] a(1) show ?case by auto
qed

theorem send_queue_fifo_witness:
  "\<exists>h1 sd1 h2 sd2. enq_all (sd_enq 0) [[1, 2], [3]] \<lparr>cells = (\<lambda>_. None), brk = 0\<rparr> sd_empty = Some (h1, sd1) \<and>
     deq_all sd_deq 2 h1 sd1 = Some ([[1, 2], [3]], h2, sd2)"
  using send_queue_fifo [of "\<lparr>cells = (\<lambda>_. None), brk = 0\<rparr>" sd_empty "[]" "[]" "[[1, 2], [3]]" 0]
  by (auto simp: heap_ok_def frame_ok_def numeral_2_eq_2)

text \<open>When an entry expires, \<open>FreeSendData\<close> empties its queue and frees the frames, but keeps
  the counters and loses the nodes: they stay allocated, with no pointer to them left.\<close>

theorem FreeSendData_empties_and_leaks:
  assumes "sdrep h sd ps fs"
  shows "\<exists>h' sd'. FreeSendData 0 h sd = Some (0, h', sd') \<and> sdrep h' sd' [] [] \<and>
    dno sd' = dno sd \<and> inBucketSize sd' = inBucketSize sd \<and>
    (\<forall>p \<in> set ps. \<exists>n. cells h' p = Some n \<and> d_data n = None)"
proof -
  obtain h' where F: "FreeSendData 0 h sd = Some (0, h', sd\<lparr>q_top := None, q_bottom := None\<rparr>)"
    "sdrep h' (sd\<lparr>q_top := None, q_bottom := None\<rparr>) [] []"
    using FreeSendData_ok [OF assms] by blast
  with FreeSendData_freed [OF assms F(1)] show ?thesis by auto
qed

theorem FreeSendData_empties_and_leaks_witness:
  "\<exists>h h' sd sd' p n. FreeSendData 0 h sd = Some (0, h', sd') \<and> dno sd' = 1 \<and> cells h' p = Some n \<and>
     d_data n = None"
proof -
  let ?h = "\<lparr>cells = (\<lambda>_. None), brk = 0\<rparr> :: DATA_BUF heap"
  have "sdrep ?h sd_empty [] []" by (simp add: heap_ok_def)
  from AppendSendData_ok [OF this, of 1 "[7]" "send_ok 0"]
  obtain h sd where a: "sdrep h sd [0] [[7]]" "dno sd = 1"
    by (auto simp: append_succeeds_def send_ok_def sd_empty_def)
  from FreeSendData_empties_and_leaks [OF a(1)] a(2) show ?thesis by force
qed

end
