(* ===== verification/Structs.thy ===== *)
theory Structs
  imports Prelude
begin

text \<open>
  The C structures the programs overlay on packet buffers (the layouts of the Linux headers
  \<open>net/ethernet.h\<close>, \<open>netinet/ip.h\<close>, \<open>netinet/if_ether.h\<close> and \<open>netinet/ip_icmp.h\<close> on
  x86-64) as records, with their byte representation. Reading a structure through a cast pointer
  is \<open>dec\<close> of its bytes, taking the address of one as \<open>u_char *\<close> is \<open>enc\<close>. The locale
  \<open>codec\<close> is the contract: the two are inverse on objects of the right size.

  Multi-byte fields hold the value the machine loads, so a field in network byte order is read
  with \<open>ntohs\<close> exactly where the code calls it.
\<close>

section \<open>The contract of a structure layout\<close>

locale codec =
  fixes enc :: "'a \<Rightarrow> bytes" and dec :: "bytes \<Rightarrow> 'a" and n :: nat
  assumes enc_length: "length (enc x) = n"
    and dec_enc: "dec (enc x) = x"
    and enc_dec: "length bs = n \<Longrightarrow> enc (dec bs) = bs"
begin

lemma enc_inject: "enc x = enc y \<longleftrightarrow> x = y"
  by (metis dec_enc)

lemma store_load:
  "mwrite m off (enc x) = Some m' \<Longrightarrow> map_option dec (mread m' off n) = Some x"
  using mread_mwrite_same [of m off "enc x" m'] by (simp add: enc_length dec_enc)

lemma load_store:
  "mread m off n = Some bs \<Longrightarrow> mwrite m off (enc (dec bs)) = Some m"
  by (frule mread_length, drule mread_SomeD)
    (auto simp: mwrite_def enc_dec add.commute [of off n] simp flip: drop_drop)

end

section \<open>Addresses\<close>

text \<open>\<open>u_char hwaddr[6]\<close>\<close>

datatype mac = MAC u8 u8 u8 u8 u8 u8

primrec enc_mac :: "mac \<Rightarrow> bytes" where
  "enc_mac (MAC a b c d e f) = [a, b, c, d, e, f]"

definition mac_at :: "bytes \<Rightarrow> nat \<Rightarrow> mac" where
  "mac_at bs i = MAC (bs ! i) (bs ! (i + 1)) (bs ! (i + 2)) (bs ! (i + 3)) (bs ! (i + 4)) (bs ! (i + 5))"

text \<open>\<open>u_char spa[4]\<close>, and the \<open>in_addr_t\<close> the code loads from it with a cast\<close>

datatype ip4 = IP4 u8 u8 u8 u8

primrec enc_ip4 :: "ip4 \<Rightarrow> bytes" where
  "enc_ip4 (IP4 a b c d) = [a, b, c, d]"

primrec in_addr_of :: "ip4 \<Rightarrow> in_addr_t" where
  "in_addr_of (IP4 a b c d) = le32 a b c d"

definition ip4_at :: "bytes \<Rightarrow> nat \<Rightarrow> ip4" where
  "ip4_at bs i = IP4 (bs ! i) (bs ! (i + 1)) (bs ! (i + 2)) (bs ! (i + 3))"

definition u16_at :: "bytes \<Rightarrow> nat \<Rightarrow> u16" where
  "u16_at bs i = le16 (bs ! i) (bs ! (i + 1))"

definition u32_at :: "bytes \<Rightarrow> nat \<Rightarrow> u32" where
  "u32_at bs i = le32 (bs ! i) (bs ! (i + 1)) (bs ! (i + 2)) (bs ! (i + 3))"

lemmas field_at = mac_at_def ip4_at_def u16_at_def u32_at_def

lemma length_enc_mac [simp]: "length (enc_mac m) = 6"
  by (cases m) simp

lemma length_enc_ip4 [simp]: "length (enc_ip4 a) = 4"
  by (cases a) simp

lemma bytes32_in_addr_of: "bytes32 (in_addr_of a) = enc_ip4 a"
  by (cases a) simp

text \<open>Every list of known length is the list of its elements.\<close>

lemma list_expand: "length bs = n \<Longrightarrow> bs = map (nth bs) [0..<n]"
  by (metis map_nth)

section \<open>\<open>struct ether_header\<close>\<close>

record ether_header =
  ether_dhost :: mac
  ether_shost :: mac
  ether_type :: u16

definition enc_ether_header :: "ether_header \<Rightarrow> bytes" where
  "enc_ether_header h = enc_mac (ether_dhost h) @ enc_mac (ether_shost h) @ bytes16 (ether_type h)"

definition dec_ether_header :: "bytes \<Rightarrow> ether_header" where
  "dec_ether_header bs =
     \<lparr>ether_dhost = mac_at bs 0, ether_shost = mac_at bs 6, ether_type = u16_at bs 12\<rparr>"

interpretation ether: codec enc_ether_header dec_ether_header 14
proof
  show "length (enc_ether_header x) = 14" for x
    by (simp add: enc_ether_header_def)
  show "dec_ether_header (enc_ether_header x) = x" for x
    by (cases x, cases "ether_dhost x", cases "ether_shost x")
      (simp add: enc_ether_header_def dec_ether_header_def field_at bytes16_def)
  fix bs :: bytes assume "length bs = 14"
  then show "enc_ether_header (dec_ether_header bs) = bs"
    by (subst (2) list_expand [of bs 14])
      (simp_all add: enc_ether_header_def dec_ether_header_def field_at upt_rec numeral_eq_Suc)
qed

section \<open>\<open>struct iphdr\<close>\<close>

record iphdr =
  ip_ihl :: "4 word"
  ip_version :: "4 word"
  ip_tos :: u8
  ip_tot_len :: u16
  ip_id :: u16
  ip_frag_off :: u16
  ip_ttl :: u8
  ip_protocol :: u8
  ip_check :: u16
  ip_saddr :: in_addr_t
  ip_daddr :: in_addr_t

definition enc_nibbles :: "4 word \<Rightarrow> 4 word \<Rightarrow> u8" where
  "enc_nibbles lo hi = push_bit 4 (ucast hi) OR ucast lo"

definition lo_nibble :: "u8 \<Rightarrow> 4 word" where
  "lo_nibble b = ucast b"

definition hi_nibble :: "u8 \<Rightarrow> 4 word" where
  "hi_nibble b = ucast (drop_bit 4 b)"

definition enc_iphdr :: "iphdr \<Rightarrow> bytes" where
  "enc_iphdr h =
     [enc_nibbles (ip_ihl h) (ip_version h), ip_tos h] @ bytes16 (ip_tot_len h) @
     bytes16 (ip_id h) @ bytes16 (ip_frag_off h) @ [ip_ttl h, ip_protocol h] @
     bytes16 (ip_check h) @ bytes32 (ip_saddr h) @ bytes32 (ip_daddr h)"

definition dec_iphdr :: "bytes \<Rightarrow> iphdr" where
  "dec_iphdr bs =
     \<lparr>ip_ihl = lo_nibble (bs ! 0), ip_version = hi_nibble (bs ! 0), ip_tos = bs ! 1,
      ip_tot_len = u16_at bs 2, ip_id = u16_at bs 4, ip_frag_off = u16_at bs 6,
      ip_ttl = bs ! 8, ip_protocol = bs ! 9, ip_check = u16_at bs 10,
      ip_saddr = u32_at bs 12, ip_daddr = u32_at bs 16\<rparr>"

lemma bit_u4_high [simp]: "4 \<le> n \<Longrightarrow> \<not> bit (w :: 4 word) n"
  using bit_imp_le_length [of w n] by auto

lemma nibbles [simp]:
  "lo_nibble (enc_nibbles lo hi) = lo" "hi_nibble (enc_nibbles lo hi) = hi"
  "enc_nibbles (lo_nibble b) (hi_nibble b) = b"
  unfolding enc_nibbles_def lo_nibble_def hi_nibble_def
  by (rule bit_word_eqI, auto simp: bit_simps)+

interpretation ip: codec enc_iphdr dec_iphdr 20
proof
  show "length (enc_iphdr x) = 20" for x
    by (simp add: enc_iphdr_def)
  show "dec_iphdr (enc_iphdr x) = x" for x
    by (cases x) (simp add: enc_iphdr_def dec_iphdr_def field_at bytes16_def bytes32_def)
  fix bs :: bytes assume "length bs = 20"
  then show "enc_iphdr (dec_iphdr bs) = bs"
    by (subst (2) list_expand [of bs 20])
      (simp_all add: enc_iphdr_def dec_iphdr_def field_at upt_rec numeral_eq_Suc)
qed

text \<open>The checksum field is a 16 bit word at an even offset of the header.\<close>

definition iphdr_pre :: "iphdr \<Rightarrow> bytes" where
  "iphdr_pre h = take 10 (enc_iphdr h)"

definition iphdr_post :: "iphdr \<Rightarrow> bytes" where
  "iphdr_post h = bytes32 (ip_saddr h) @ bytes32 (ip_daddr h)"

lemma enc_iphdr_check:
  "enc_iphdr (h\<lparr>ip_check := c\<rparr>) = iphdr_pre h @ bytes16 c @ iphdr_post h"
  by (simp add: enc_iphdr_def iphdr_pre_def iphdr_post_def)

lemma length_iphdr_pre [simp]: "length (iphdr_pre h) = 10"
  by (simp add: iphdr_pre_def ip.enc_length)

section \<open>\<open>struct ether_arp\<close>\<close>

record ether_arp =
  arp_hrd :: u16
  arp_pro :: u16
  arp_hln :: u8
  arp_pln :: u8
  arp_op :: u16
  arp_sha :: mac
  arp_spa :: ip4
  arp_tha :: mac
  arp_tpa :: ip4

definition enc_ether_arp :: "ether_arp \<Rightarrow> bytes" where
  "enc_ether_arp a =
     bytes16 (arp_hrd a) @ bytes16 (arp_pro a) @ [arp_hln a, arp_pln a] @ bytes16 (arp_op a) @
     enc_mac (arp_sha a) @ enc_ip4 (arp_spa a) @ enc_mac (arp_tha a) @ enc_ip4 (arp_tpa a)"

definition dec_ether_arp :: "bytes \<Rightarrow> ether_arp" where
  "dec_ether_arp bs =
     \<lparr>arp_hrd = u16_at bs 0, arp_pro = u16_at bs 2, arp_hln = bs ! 4, arp_pln = bs ! 5,
      arp_op = u16_at bs 6, arp_sha = mac_at bs 8, arp_spa = ip4_at bs 14,
      arp_tha = mac_at bs 18, arp_tpa = ip4_at bs 24\<rparr>"

interpretation arp: codec enc_ether_arp dec_ether_arp 28
proof
  show "length (enc_ether_arp x) = 28" for x
    by (simp add: enc_ether_arp_def)
  show "dec_ether_arp (enc_ether_arp x) = x" for x
    by (cases x, cases "arp_sha x", cases "arp_spa x", cases "arp_tha x", cases "arp_tpa x")
      (simp add: enc_ether_arp_def dec_ether_arp_def field_at bytes16_def)
  fix bs :: bytes assume "length bs = 28"
  then show "enc_ether_arp (dec_ether_arp bs) = bs"
    by (subst (2) list_expand [of bs 28])
      (simp_all add: enc_ether_arp_def dec_ether_arp_def field_at upt_rec numeral_eq_Suc)
qed

section \<open>The first eight bytes of \<open>struct icmp\<close>\<close>

text \<open>The whole structure has 28 bytes; the programs fill and send the first 8 only.\<close>

record icmp =
  icmp_type :: u8
  icmp_code :: u8
  icmp_cksum :: u16
  icmp_void :: u32

definition sizeof_icmp :: nat where
  "sizeof_icmp = 28"

definition enc_icmp :: "icmp \<Rightarrow> bytes" where
  "enc_icmp i = [icmp_type i, icmp_code i] @ bytes16 (icmp_cksum i) @ bytes32 (icmp_void i)"

definition dec_icmp :: "bytes \<Rightarrow> icmp" where
  "dec_icmp bs =
     \<lparr>icmp_type = bs ! 0, icmp_code = bs ! 1, icmp_cksum = u16_at bs 2, icmp_void = u32_at bs 4\<rparr>"

interpretation icmp: codec enc_icmp dec_icmp 8
proof
  show "length (enc_icmp x) = 8" for x
    by (simp add: enc_icmp_def)
  show "dec_icmp (enc_icmp x) = x" for x
    by (cases x) (simp add: enc_icmp_def dec_icmp_def field_at bytes16_def bytes32_def)
  fix bs :: bytes assume "length bs = 8"
  then show "enc_icmp (dec_icmp bs) = bs"
    by (subst (2) list_expand [of bs 8])
      (simp_all add: enc_icmp_def dec_icmp_def field_at upt_rec numeral_eq_Suc)
qed

lemmas codec_length [simp, codec_simps] =
  ether.enc_length ip.enc_length arp.enc_length icmp.enc_length
lemmas codec_inverse [simp, codec_simps] =
  ether.dec_enc ip.dec_enc arp.dec_enc icmp.dec_enc
lemmas codec_inverse' [codec_simps] =
  ether.enc_dec ip.enc_dec arp.enc_dec icmp.enc_dec

section \<open>Properties\<close>

lemma codec_in_buffer:
  assumes "codec enc dec n" and w: "mwrite m off (enc x) = Some m'"
  shows "map_option dec (mread m' off n) = Some x \<and> length m' = length m \<and>
    (\<forall>a k. a + k \<le> off \<or> off + n \<le> a \<longrightarrow> mread m' a k = mread m a k)"
  using codec.store_load [OF assms] mwrite_length [OF w] codec.enc_length [OF assms(1), of x]
    mread_mwrite_before [OF w] mread_mwrite_after [OF w]
  by auto

text \<open>A header stored in a packet buffer is read back as it was stored, for the four headers and
  at every offset, and no byte outside of it changes.\<close>

theorem headers_store_load:
  assumes "mwrite m off bs = Some m'"
    and "bs \<in> {enc_ether_header eh, enc_iphdr ih, enc_ether_arp ar, enc_icmp ic}"
  shows "(bs = enc_ether_header eh \<longrightarrow> map_option dec_ether_header (mread m' off 14) = Some eh) \<and>
    (bs = enc_iphdr ih \<longrightarrow> map_option dec_iphdr (mread m' off 20) = Some ih) \<and>
    (bs = enc_ether_arp ar \<longrightarrow> map_option dec_ether_arp (mread m' off 28) = Some ar) \<and>
    (bs = enc_icmp ic \<longrightarrow> map_option dec_icmp (mread m' off 8) = Some ic) \<and>
    (\<forall>a k. a + k \<le> off \<or> off + length bs \<le> a \<longrightarrow> mread m' a k = mread m a k)"
  using assms codec_in_buffer [OF ether.codec_axioms, of m off eh m']
    codec_in_buffer [OF ip.codec_axioms, of m off ih m']
    codec_in_buffer [OF arp.codec_axioms, of m off ar m']
    codec_in_buffer [OF icmp.codec_axioms, of m off ic m']
  by (intro conjI) auto

theorem headers_store_load_witness:
  "\<exists>m'. mwrite (replicate 40 0) 14 (enc_icmp \<lparr>icmp_type = 11, icmp_code = 0, icmp_cksum = 7, icmp_void = 0\<rparr>)
      = Some m' \<and>
    map_option dec_icmp (mread m' 14 8) = Some \<lparr>icmp_type = 11, icmp_code = 0, icmp_cksum = 7, icmp_void = 0\<rparr>"
proof -
  let ?ic = "\<lparr>icmp_type = 11, icmp_code = 0, icmp_cksum = 7, icmp_void = 0\<rparr>"
  obtain m' where m': "mwrite (replicate 40 0) 14 (enc_icmp ?ic) = Some m'" by (simp add: mwrite_Some)
  from headers_store_load [OF this, of undefined undefined undefined ?ic] show ?thesis using m' by simp
qed

end
