(* ===== verification/Arp.thy ===== *)
theory Arp
  imports Structs
begin

text \<open>
  \<open>SendArpRequestB\<close> of \<open>router/netutil.c\<close>: the 42 byte ARP request the router broadcasts when it
  needs the MAC address of a neighbour. \<open>sock_write\<close> is \<open>write(2)\<close>, whose effect is the log of all bytes written to the sockets,
  in order; its result is ignored by the code.
\<close>

type_synonym sent = "(int \<times> bytes) list"

definition sock_write :: "int \<Rightarrow> bytes \<Rightarrow> sent \<Rightarrow> sent" where
  "sock_write soc bs out = out @ [(soc, bs)]"

definition ETHERTYPE_IP :: u16 where "ETHERTYPE_IP = 0x0800"
definition ETHERTYPE_ARP :: u16 where "ETHERTYPE_ARP = 0x0806"
definition ARPHRD_ETHER :: u16 where "ARPHRD_ETHER = 1"
definition ARPOP_REQUEST :: u16 where "ARPOP_REQUEST = 1"
definition ARPOP_REPLY :: u16 where "ARPOP_REPLY = 2"

lemmas ether_consts =
  ETHERTYPE_IP_def ETHERTYPE_ARP_def ARPHRD_ETHER_def ARPOP_REQUEST_def ARPOP_REPLY_def

text \<open>\<^verbatim>\<open>union { unsigned long l; u_char c[4]; } lc; lc.l = ip;\<close> then the bytes \<open>lc.c[0..3]\<close>\<close>

definition ip4_of :: "in_addr_t \<Rightarrow> ip4" where
  "ip4_of w =
     IP4 (ucast w) (ucast (drop_bit 8 w)) (ucast (drop_bit 16 w)) (ucast (drop_bit 24 w))"

definition zero_mac :: mac where "zero_mac = MAC 0 0 0 0 0 0"
definition bcast :: mac where "bcast = MAC 0xFF 0xFF 0xFF 0xFF 0xFF 0xFF"

record PACKET_ARP =
  pa_eh :: ether_header
  pa_arp :: ether_arp

definition arp_request :: "in_addr_t \<Rightarrow> mac \<Rightarrow> in_addr_t \<Rightarrow> mac \<Rightarrow> PACKET_ARP" where
  "arp_request target_ip target_mac my_ip my_mac =
     \<lparr>pa_eh = \<lparr>ether_dhost = target_mac, ether_shost = my_mac, ether_type = htons ETHERTYPE_ARP\<rparr>,
      pa_arp = \<lparr>arp_hrd = htons ARPHRD_ETHER, arp_pro = htons ETHERTYPE_IP, arp_hln = 6, arp_pln = 4,
       arp_op = htons ARPOP_REQUEST, arp_sha = my_mac, arp_spa = ip4_of my_ip,
       arp_tha = zero_mac, arp_tpa = ip4_of target_ip\<rparr>\<rparr>"

definition SendArpRequestB ::
  "int \<Rightarrow> in_addr_t \<Rightarrow> mac \<Rightarrow> in_addr_t \<Rightarrow> mac \<Rightarrow> sent \<Rightarrow> sent" where
  "SendArpRequestB soc target_ip target_mac my_ip my_mac out =
     (let arp = arp_request target_ip target_mac my_ip my_mac
      in sock_write soc (enc_ether_header (pa_eh arp) @ enc_ether_arp (pa_arp arp)) out)"

lemma in_addr_of_ip4_of [simp]: "in_addr_of (ip4_of w) = w"
  by (simp add: ip4_of_def)

lemma ip4_of_in_addr_of [simp]: "ip4_of (in_addr_of a) = a"
  using bytes32_in_addr_of [of a] by (cases a) (simp add: ip4_of_def bytes32_def)


end
