(* ===== verification/Checksum.thy ===== *)
theory Checksum
  imports Prelude
begin

text \<open>
  The Internet checksum of \<open>router/netutil.c\<close>: \<open>checksum\<close> over one object, \<open>checksum2\<close> over
  two objects that are treated as one. The accumulator is the 32 bit \<open>sum\<close> of the code, folded
  whenever bit 31 is set; the pointer is the rest of the object it points into, so a read past
  the object is \<open>None\<close>. The reference definition is the one's complement sum \<open>oc\<close> of the 16
  bit words (RFC 1071), and the locale \<open>inet_cksum\<close> states what the clients of a checksum rely on.
\<close>

section \<open>The code\<close>

text \<open>\<^verbatim>\<open>sum += v; if (sum & 0x80000000) sum = (sum & 0xFFFF) + (sum >> 16);\<close>\<close>

definition add_fold :: "u32 \<Rightarrow> u16 \<Rightarrow> u32" where
  "add_fold s v =
     (let s = s + ucast v
      in if s AND 0x80000000 \<noteq> 0 then (s AND 0xFFFF) + drop_bit 16 s else s)"

text \<open>\<^verbatim>\<open>for (c = len; c > 1; c -= 2) { ... ptr++; }\<close>: the new \<open>sum\<close>, \<open>ptr\<close> and \<open>c\<close>.\<close>

fun sum_loop :: "u32 \<Rightarrow> bytes \<Rightarrow> int \<Rightarrow> (u32 \<times> bytes \<times> int) option" where
  "sum_loop s (b0 # b1 # ptr) c =
     (if c > 1 then sum_loop (add_fold s (le16 b0 b1)) ptr (c - 2)
      else Some (s, b0 # b1 # ptr, c))"
| "sum_loop s ptr c = (if c > 1 then None else Some (s, ptr, c))"

text \<open>\<^verbatim>\<open>if (c == 1) { val = 0; memcpy(&val, ptr, 1); sum += val; }\<close>\<close>

definition add_odd :: "u32 \<Rightarrow> bytes \<Rightarrow> int \<Rightarrow> u32 option" where
  "add_odd s ptr c =
     (if c = 1 then (case ptr of [] \<Rightarrow> None | b # _ \<Rightarrow> Some (s + ucast b)) else Some s)"

text \<open>\<^verbatim>\<open>while (sum >> 16) { sum = (sum & 0xFFFF) + (sum >> 16); }\<close>\<close>

function fold16 :: "u32 \<Rightarrow> u32" where
  "fold16 s = (if drop_bit 16 s \<noteq> 0 then fold16 ((s AND 0xFFFF) + drop_bit 16 s) else s)"
  by pat_completeness auto
termination
proof (relation "measure unat")
  fix s :: u32
  assume "drop_bit 16 s \<noteq> 0"
  then have "unat s div 65536 \<noteq> 0" by (metis unat_drop16 unat_eq_zero)
  then have "unat s mod 65536 + unat s div 65536 < unat s"
    using div_mult_mod_eq [of "unat s" 65536] by linarith
  then show "((s AND 0xFFFF) + drop_bit 16 s, s) \<in> measure unat"
    by (simp add: unat_fold_step)
qed simp

declare fold16.simps [simp del]

definition checksum :: "bytes \<Rightarrow> int \<Rightarrow> u16 option" where
  "checksum data len = do {
     (s, ptr, c) \<leftarrow> sum_loop 0 data len;
     s \<leftarrow> add_odd s ptr c;
     Some (ucast (NOT (fold16 s)))
   }"

definition checksum2 :: "bytes \<Rightarrow> int \<Rightarrow> bytes \<Rightarrow> int \<Rightarrow> u16 option" where
  "checksum2 data1 len1 data2 len2 = do {
     (s, ptr, c) \<leftarrow> sum_loop 0 data1 len1;
     (s, ptr, len2) \<leftarrow>
       (if c = 1 then
          (case (ptr, data2) of
             (b0 # b1 # _, d # ds) \<Rightarrow>
               (let val = push_bit 8 (le16 b0 b1) + ucast d in Some (add_fold s val, ds, len2 - 1))
           | _ \<Rightarrow> None)
        else Some (s, data2, len2));
     (s, ptr, c) \<leftarrow> sum_loop s ptr len2;
     s \<leftarrow> add_odd s ptr c;
     Some (ucast (NOT (fold16 s)))
   }"

text \<open>
  \<open>checkIPchecksum\<close>: the header is the 20 bytes of \<open>struct iphdr\<close>; \<open>option\<close> is the object the
  options were copied to.
\<close>

definition checkIPchecksum :: "bytes \<Rightarrow> bytes \<Rightarrow> int \<Rightarrow> int option" where
  "checkIPchecksum iphdr option optionLen =
     (if optionLen = 0 then do {
        sum' \<leftarrow> checksum iphdr 20;
        Some (if sum' = 0 \<or> sum' = 0xFFFF then 1 else 0)
      } else do {
        sum' \<leftarrow> checksum2 iphdr 20 option optionLen;
        Some (if sum' = 0 \<or> sum' = 0xFFFF then 1 else 0)
      })"

section \<open>The reference definition\<close>

text \<open>The sum of the little-endian 16 bit words, an odd last byte padded with zero.\<close>

fun wsum :: "bytes \<Rightarrow> nat" where
  "wsum [] = 0"
| "wsum [b] = unat b"
| "wsum (b0 # b1 # bs) = unat b0 + 256 * unat b1 + wsum bs"

text \<open>The one's complement representative of a sum: \<open>0\<close> for \<open>0\<close>, else in \<open>{1..65535}\<close>.\<close>

definition oc :: "nat \<Rightarrow> nat" where
  "oc n = (if n = 0 then 0 else (n - 1) mod 65535 + 1)"

lemma wsum_append [wsum_simps]: "even (length xs) \<Longrightarrow> wsum (xs @ ys) = wsum xs + wsum ys"
  by (induction xs rule: wsum.induct) auto

lemma wsum_bytes16 [wsum_simps]: "wsum (bytes16 w @ bs) = unat w + wsum bs"
proof -
  have "unat w = unat (le16 (ucast w) (ucast (drop_bit 8 w)))" by simp
  also have "\<dots> = unat (ucast w :: u8) + 256 * unat (ucast (drop_bit 8 w) :: u8)"
    by (rule unat_le16)
  finally show ?thesis by (simp add: bytes16_def)
qed

lemma wsum_take_odd:
  assumes "odd n" and "n \<le> length p"
  shows "wsum (take n p) = wsum (take (n - 1) p) + unat (p ! (n - 1))"
proof -
  from assms obtain k where k: "n = Suc k" "even k" by (cases n) auto
  with assms have "take n p = take k p @ [p ! k]" by (simp add: take_Suc_conv_app_nth)
  with k assms show ?thesis by (simp add: wsum_append)
qed

lemma oc_le [simp]: "oc n \<le> 65535"
proof -
  have "(n - 1) mod 65535 < 65535" by simp
  then show ?thesis unfolding oc_def by (simp only: split: if_split) linarith
qed

lemma oc_0_iff [simp]: "oc n = 0 \<longleftrightarrow> n = 0"
  by (simp add: oc_def)

lemma oc_mod: "oc n mod 65535 = n mod 65535"
  by (cases n) (simp_all add: oc_def mod_simps)

lemma oc_unique:
  assumes "x < 65536" and m: "x mod 65535 = n mod 65535" and z: "x = 0 \<longleftrightarrow> n = 0"
  shows "x = oc n"
proof (cases n)
  case 0
  with z show ?thesis by simp
next
  case (Suc k)
  with z obtain j where j: "x = Suc j" by (cases x) auto
  have "(x + 65534) mod 65535 = (n + 65534) mod 65535"
    using m by (rule mod_add_cong) simp
  then have "j mod 65535 = k mod 65535"
    by (simp add: j Suc)
  with j \<open>x < 65536\<close> show ?thesis by (simp add: oc_def Suc)
qed

lemma oc_65535_iff: "oc n = 65535 \<longleftrightarrow> 0 < n \<and> n mod 65535 = 0"
proof
  assume h: "oc n = 65535"
  then have "n \<noteq> 0" by (metis oc_0_iff zero_neq_numeral)
  moreover have "n mod 65535 = 0" using oc_mod [of n] h by simp
  ultimately show "0 < n \<and> n mod 65535 = 0" by simp
next
  assume "0 < n \<and> n mod 65535 = 0"
  then show "oc n = 65535" using oc_unique [of 65535 n] by simp
qed

section \<open>The loops compute the one's complement sum\<close>

text \<open>The accumulator represents a sum: below bit 31, congruent to it, and zero only for zero.\<close>

definition sumrep :: "u32 \<Rightarrow> nat \<Rightarrow> bool" where
  "sumrep s n \<longleftrightarrow> unat s < 2147483648 \<and> unat s mod 65535 = n mod 65535 \<and> (s = 0 \<longleftrightarrow> n = 0)"

lemma sumrep_0 [simp]: "sumrep 0 0"
  by (simp add: sumrep_def)

lemma fold_mod: "(n mod 65536 + n div 65536) mod 65535 = n mod 65535" for n :: nat
proof -
  have "n = 65535 * (n div 65536) + (n mod 65536 + n div 65536)"
    using div_mult_mod_eq [of n 65536] by linarith
  then show ?thesis by (metis mod_mult_self4)
qed

lemma fold_zero: "n mod 65536 + n div 65536 = 0 \<longleftrightarrow> n = 0" for n :: nat
  using div_mult_mod_eq [of n 65536] by auto

lemma sumrep_add:
  assumes "sumrep s n" and v: "unat v = k"
  shows "sumrep (add_fold s v) (n + k)"
proof -
  let ?t = "s + ucast v"
  have k: "k < 65536" using v unat_u16_less [of v] by simp
  have s: "unat s < 2147483648" "unat s mod 65535 = n mod 65535" "unat s = 0 \<longleftrightarrow> n = 0"
    using assms(1) by (simp_all add: sumrep_def unat_eq_zero)
  have "unat (ucast v :: u32) = k"
    using k by (simp add: unsigned_ucast_eq take_bit_nat_def v)
  then have t: "unat ?t = unat s + k"
    using k s(1) by (simp add: unat_word_ariths)
  have m: "unat ?t mod 65535 = (n + k) mod 65535"
    using s(2) by (metis t mod_add_left_eq)
  have z: "unat ?t = 0 \<longleftrightarrow> n + k = 0" using s(3) t by auto
  show ?thesis
  proof (cases "?t AND 0x80000000 = 0")
    case True
    then have "add_fold s v = ?t" by (simp add: add_fold_def Let_def)
    moreover have "unat ?t < 2147483648" using True top_bit [of ?t] by simp
    ultimately show ?thesis using m z by (simp add: sumrep_def unat_eq_zero)
  next
    case False
    then have e: "unat (add_fold s v) = unat ?t mod 65536 + unat ?t div 65536"
      by (simp only: add_fold_def Let_def unat_fold_step not_False_eq_True if_True)
    have "unat ?t div 65536 \<le> 65536"
      using t k s(1) by (simp add: div_le_mono [of _ "65536 * 65536" 65536, simplified])
    then have "unat (add_fold s v) < 2147483648"
      using e mod_less_divisor [of 65536 "unat ?t"] by linarith
    moreover have "unat (add_fold s v) = 0 \<longleftrightarrow> n + k = 0" by (simp only: e fold_zero z)
    ultimately show ?thesis
      using m by (simp add: sumrep_def e fold_mod flip: unat_eq_zero)
  qed
qed

lemma sum_loop_Some:
  assumes "2 * (n div 2) \<le> length p" and "sumrep s m"
  shows "\<exists>s'. sum_loop s p (int n) = Some (s', drop (2 * (n div 2)) p, int (n mod 2)) \<and>
    sumrep s' (m + wsum (take (2 * (n div 2)) p))"
  using assms
proof (induction n arbitrary: p s m rule: induct_nat_012)
  case 0
  then show ?case by (cases p rule: wsum.cases) auto
next
  case 1
  then show ?case by (cases p rule: wsum.cases) auto
next
  case (ge2 n)
  then obtain b0 b1 q where p: "p = b0 # b1 # q" by (cases p rule: wsum.cases) auto
  have "sumrep (add_fold s (le16 b0 b1)) (m + (unat b0 + 256 * unat b1))"
    using ge2.prems(2) by (rule sumrep_add) (rule unat_le16)
  moreover have "2 * (n div 2) \<le> length q" using ge2.prems(1) p by simp
  ultimately show ?case using ge2.IH(1) p by (fastforce simp: add.assoc)
qed

lemma sum_loop_neg: "c \<le> 1 \<Longrightarrow> sum_loop s p c = Some (s, p, c)"
  by (cases p rule: wsum.cases) auto

lemma sum_loop_None: "length p < 2 * (n div 2) \<Longrightarrow> sum_loop s p (int n) = None"
proof (induction n arbitrary: p s rule: induct_nat_012)
  case (ge2 n)
  then show ?case by (cases p rule: wsum.cases) auto
qed auto

lemma add_odd_sumrep:
  assumes "n \<le> length p" and s: "sumrep s (m + wsum (take (2 * (n div 2)) p))"
  shows "\<exists>s'. add_odd s (drop (2 * (n div 2)) p) (int (n mod 2)) = Some s' \<and>
    unat s' mod 65535 = (m + wsum (take n p)) mod 65535 \<and>
    (s' = 0 \<longleftrightarrow> m + wsum (take n p) = 0)"
proof (cases "even n")
  case True
  then show ?thesis using s by (simp add: add_odd_def sumrep_def)
next
  case False
  then have e: "2 * (n div 2) = n - 1" "n mod 2 = 1" "n - 1 < length p"
    using assms(1) by (auto elim: oddE)
  then obtain b q where d: "drop (n - 1) p = b # q" "b = p ! (n - 1)"
    by (metis Cons_nth_drop_Suc)
  have b: "unat (ucast b :: u32) = unat b"
    using unat_u8_less [of b] by (simp add: unsigned_ucast_eq take_bit_nat_def del: unat_u8_less)
  have "unat (s + ucast b) = unat s + unat b"
    using s b unat_u8_less [of b]
    by (simp add: sumrep_def unat_word_ariths del: unat_u8_less)
  moreover have "s + ucast b = 0 \<longleftrightarrow> unat (s + ucast b) = 0" by (simp only: unat_eq_zero)
  moreover have "s = 0 \<longleftrightarrow> unat s = 0" by (simp only: unat_eq_zero)
  moreover have "wsum (take n p) = wsum (take (n - 1) p) + unat b"
    using False assms(1) d(2) by (simp add: wsum_take_odd)
  moreover have "(unat s + unat b) mod 65535 = (m + wsum (take (n - 1) p) + unat b) mod 65535"
    using s e(1) by (intro mod_add_cong) (simp_all add: sumrep_def)
  ultimately show ?thesis
    using s e d(1) by (auto simp: add_odd_def sumrep_def algebra_simps)
qed

lemma fold16_oc:
  assumes "unat s mod 65535 = n mod 65535" and "s = 0 \<longleftrightarrow> n = 0"
  shows "unat (fold16 s) = oc n"
  using assms
proof (induction s rule: fold16.induct)
  case (1 s)
  show ?case
  proof (cases "drop_bit 16 s = 0")
    case True
    then have "unat s div 65536 = 0" by (metis unat_drop16 unat_eq_zero)
    then have "unat s < 65536" by (simp add: div_eq_0_iff)
    then show ?thesis
      using "1.prems" True by (simp add: fold16.simps [of s] oc_unique unat_eq_zero)
  next
    case False
    let ?t = "(s AND 0xFFFF) + drop_bit 16 s"
    have "unat ?t mod 65535 = n mod 65535"
      using "1.prems"(1) by (simp only: unat_fold_step fold_mod)
    moreover have "?t = 0 \<longleftrightarrow> n = 0"
      using "1.prems"(2) by (metis unat_fold_step fold_zero unat_eq_zero)
    ultimately have "unat (fold16 ?t) = oc n" using "1.IH" False by blast
    with False show ?thesis by (simp add: fold16.simps [of s])
  qed
qed

lemma finish_oc:
  assumes "unat (fold16 s) = oc n"
  shows "unat (ucast (NOT (fold16 s)) :: u16) = 65535 - oc n"
proof -
  have "(ucast (NOT (fold16 s)) :: u16) = NOT (ucast (fold16 s))"
    by (rule bit_word_eqI) (simp add: bit_simps)
  moreover have "oc n < 65536" using oc_le [of n] by linarith
  then have "unat (ucast (fold16 s) :: u16) = oc n"
    using assms by (simp add: unsigned_ucast_eq take_bit_nat_def)
  ultimately show ?thesis by (simp only: unat_NOT16)
qed

section \<open>Correctness of the checksum functions\<close>

lemma checksum_eq:
  assumes "n \<le> length data"
  shows "checksum data (int n) = Some (of_nat (65535 - oc (wsum (take n data))))"
proof -
  have "2 * (n div 2) \<le> length data" using assms by linarith
  then obtain s
    where l: "sum_loop 0 data (int n) = Some (s, drop (2 * (n div 2)) data, int (n mod 2))"
    and s: "sumrep s (0 + wsum (take (2 * (n div 2)) data))"
    using sum_loop_Some [OF _ sumrep_0] by blast
  obtain t where t: "add_odd s (drop (2 * (n div 2)) data) (int (n mod 2)) = Some t"
    and "unat t mod 65535 = wsum (take n data) mod 65535" "t = 0 \<longleftrightarrow> wsum (take n data) = 0"
    using add_odd_sumrep [OF assms s] by auto
  then have "unat (ucast (NOT (fold16 t)) :: u16) = 65535 - oc (wsum (take n data))"
    by (intro finish_oc fold16_oc)
  then have "ucast (NOT (fold16 t)) = (of_nat (65535 - oc (wsum (take n data))) :: u16)"
    by (metis of_nat_unat ucast_id)
  with l t show ?thesis by (simp add: checksum_def)
qed

lemma sum_loop_even:
  assumes "n \<le> length data" and "even n"
  obtains s where "sum_loop 0 data (int n) = Some (s, drop n data, 0)"
    and "sumrep s (wsum (take n data))"
proof -
  have e: "2 * (n div 2) = n" "n mod 2 = 0" using assms(2) by (auto elim: evenE)
  then have "2 * (n div 2) \<le> length data" using assms(1) by linarith
  from sum_loop_Some [OF this sumrep_0] show ?thesis
    unfolding e using that by auto
qed

lemma checksum2_eq:
  assumes "n1 \<le> length data1" and "even n1" and "n2 \<le> length data2"
  shows "checksum2 data1 (int n1) data2 (int n2) =
    Some (of_nat (65535 - oc (wsum (take n1 data1 @ take n2 data2))))"
proof -
  let ?w = "wsum (take n1 data1)"
  obtain s where l: "sum_loop 0 data1 (int n1) = Some (s, drop n1 data1, 0)"
    and s: "sumrep s ?w"
    using sum_loop_even [OF assms(1,2)] .
  have "2 * (n2 div 2) \<le> length data2" using assms(3) by linarith
  from sum_loop_Some [OF this s] obtain t where t: "sum_loop s data2 (int n2) =
      Some (t, drop (2 * (n2 div 2)) data2, int (n2 mod 2))"
    and r: "sumrep t (?w + wsum (take (2 * (n2 div 2)) data2))"
    by blast
  from add_odd_sumrep [OF assms(3) r]
  obtain u where u: "add_odd t (drop (2 * (n2 div 2)) data2) (int (n2 mod 2)) = Some u"
    and "unat u mod 65535 = (?w + wsum (take n2 data2)) mod 65535"
      "u = 0 \<longleftrightarrow> ?w + wsum (take n2 data2) = 0"
    by (elim exE conjE) (rule that)
  then have "unat (ucast (NOT (fold16 u)) :: u16) = 65535 - oc (?w + wsum (take n2 data2))"
    by (intro finish_oc fold16_oc)
  then have "ucast (NOT (fold16 u)) =
      (of_nat (65535 - oc (?w + wsum (take n2 data2))) :: u16)"
    by (metis of_nat_unat ucast_id)
  moreover have "wsum (take n1 data1 @ take n2 data2) = ?w + wsum (take n2 data2)"
    using assms by (simp add: wsum_append)
  ultimately show ?thesis
    by (simp only: checksum2_def l t u bind.bind_lunit prod.case if_False zero_neq_one)
qed

text \<open>With no second part, or a negative length, only the first object is summed.\<close>

lemma checksum2_nonpos:
  assumes "n1 \<le> length data1" and "even n1" and "len2 \<le> 0"
  shows "checksum2 data1 (int n1) data2 len2 = checksum data1 (int n1)"
proof -
  obtain s where l: "sum_loop 0 data1 (int n1) = Some (s, drop n1 data1, 0)"
    using sum_loop_even [OF assms(1,2)] by blast
  show ?thesis
    using assms(3) by (simp add: checksum_def checksum2_def l sum_loop_neg add_odd_def)
qed

text \<open>A length beyond the object is an out-of-bounds read.\<close>

lemma checksum_None:
  assumes "length data < n"
  shows "checksum data (int n) = None"
proof (cases "2 * (n div 2) \<le> length data")
  case False
  then show ?thesis by (simp add: checksum_def sum_loop_None)
next
  case True
  with assms have n: "n mod 2 = 1" "drop (2 * (n div 2)) data = []"
    using div_mult_mod_eq [of n 2] by (linarith, simp)
  obtain s where "sum_loop 0 data (int n) = Some (s, [], 1)"
    using sum_loop_Some [OF True sumrep_0] unfolding n by auto
  then show ?thesis by (simp add: checksum_def add_odd_def)
qed

lemma checksum2_None:
  assumes "n1 \<le> length data1" and "even n1" and "length data2 < n2"
  shows "checksum2 data1 (int n1) data2 (int n2) = None"
proof -
  obtain s where l: "sum_loop 0 data1 (int n1) = Some (s, drop n1 data1, 0)"
    and s: "sumrep s (wsum (take n1 data1))"
    using sum_loop_even [OF assms(1,2)] .
  show ?thesis
  proof (cases "2 * (n2 div 2) \<le> length data2")
    case False
    then show ?thesis by (simp add: checksum2_def l sum_loop_None)
  next
    case True
    with assms(3) have n: "n2 mod 2 = 1" "drop (2 * (n2 div 2)) data2 = []"
      using div_mult_mod_eq [of n2 2] by (linarith, simp)
    obtain t where "sum_loop s data2 (int n2) = Some (t, [], 1)"
      using sum_loop_Some [OF True s] unfolding n by auto
    then show ?thesis by (simp add: checksum2_def l add_odd_def)
  qed
qed

lemma mod_add_right_cancel_nat:
  "(a + c) mod n = (b + c) mod n \<longleftrightarrow> a mod n = b mod n" for a b c n :: nat
proof
  assume "(a + c) mod n = (b + c) mod n"
  then have "(int a + int c) mod int n = (int b + int c) mod int n"
    by (metis of_nat_add zmod_int)
  then have "int a mod int n = int b mod int n"
    by (metis add_diff_cancel_right' mod_diff_left_eq)
  then show "a mod n = b mod n" by (metis of_nat_eq_iff zmod_int)
qed (metis mod_add_left_eq)

text \<open>Every client computes over objects that hold the length it passes.\<close>

lemma unat_of_nat_oc: "unat (of_nat (65535 - oc n) :: u16) = 65535 - oc n"
  by (simp add: unat_of_nat del: of_nat_diff)

lemma unat_eq_65535: "unat (w :: u16) = 65535 \<longleftrightarrow> w = 0xFFFF"
proof -
  have "unat (0xFFFF :: u16) = 65535" by simp
  then show ?thesis by (metis word_unat_eq_iff)
qed

section \<open>What a checksum is relied on for\<close>

text \<open>
  \<open>ck bs\<close> is the checksum of the object \<open>bs\<close>, for the objects it is used on (\<open>ok\<close>, which
  depends on the length only). The laws give the two facts every client needs: a message whose
  checksum field was filled with the checksum of the message (the field being zero) is accepted,
  and changing one 16 bit word of an accepted message makes it rejected.
\<close>

locale inet_cksum =
  fixes ck :: "bytes \<Rightarrow> u16" and ok :: "bytes \<Rightarrow> bool"
  assumes ck_oc: "ok bs \<Longrightarrow> unat (ck bs) = 65535 - oc (wsum bs)"
    and ok_length: "length bs = length bs' \<Longrightarrow> ok bs = ok bs'"
begin

lemma ck_0_iff: "ok bs \<Longrightarrow> ck bs = 0 \<longleftrightarrow> 0 < wsum bs \<and> wsum bs mod 65535 = 0"
proof -
  assume "ok bs"
  then have "unat (ck bs) = 65535 - oc (wsum bs)" by (rule ck_oc)
  then have "unat (ck bs) = 0 \<longleftrightarrow> oc (wsum bs) = 65535"
    using oc_le [of "wsum bs"] by linarith
  then show ?thesis by (simp only: oc_65535_iff unat_eq_zero)
qed

lemma ck_FFFF_iff: "ok bs \<Longrightarrow> ck bs = 0xFFFF \<longleftrightarrow> wsum bs = 0"
proof -
  assume "ok bs"
  then have "unat (ck bs) = 65535 - oc (wsum bs)" by (rule ck_oc)
  then have "unat (ck bs) = 65535 \<longleftrightarrow> oc (wsum bs) = 0"
    using oc_le [of "wsum bs"] by linarith
  then show ?thesis by (simp only: oc_0_iff unat_eq_65535)
qed

lemma accept_iff: "ok bs \<Longrightarrow> ck bs = 0 \<or> ck bs = 0xFFFF \<longleftrightarrow> wsum bs mod 65535 = 0"
  by (auto simp: ck_0_iff ck_FFFF_iff)

lemma fill_accepted:
  assumes "even (length pre)" and "ok (pre @ bytes16 0 @ post)"
  shows "ck (pre @ bytes16 (ck (pre @ bytes16 0 @ post)) @ post) = 0"
proof -
  let ?z = "pre @ bytes16 0 @ post" and ?n = "wsum pre + wsum post"
  have z: "wsum ?z = ?n" using assms(1) by (simp add: wsum_simps)
  have "wsum (pre @ bytes16 (ck ?z) @ post) = wsum pre + (unat (ck ?z) + wsum post)"
    using assms(1) by (simp add: wsum_simps)
  also have "\<dots> = ?n + (65535 - oc ?n)"
    by (simp only: ck_oc [OF assms(2)] z add.assoc add.left_commute)
  finally have w: "wsum (pre @ bytes16 (ck ?z) @ post) = ?n + (65535 - oc ?n)" .
  have "(?n + (65535 - oc ?n)) mod 65535 = (oc ?n + (65535 - oc ?n)) mod 65535"
    by (rule mod_add_cong) (simp_all add: oc_mod)
  moreover have "oc ?n + (65535 - oc ?n) = 65535" by simp
  ultimately have "(?n + (65535 - oc ?n)) mod 65535 = 0" by (simp only: mod_self)
  moreover have "0 < ?n + (65535 - oc ?n)"
  proof (cases "?n = 0")
    case True
    then have "oc ?n = 0" by (simp only: oc_0_iff)
    then show ?thesis by linarith
  qed linarith
  moreover have "ok (pre @ bytes16 (ck ?z) @ post)"
    using assms(2) ok_length [of "pre @ bytes16 (ck ?z) @ post" ?z] by simp
  ultimately show ?thesis by (simp only: ck_0_iff w simp_thms)
qed

lemma corruption_detected:
  assumes "even (length pre)" and "ok (pre @ bytes16 w @ post)"
    and "wsum (pre @ bytes16 w @ post) mod 65535 = 0"
    and "unat w mod 65535 \<noteq> unat w' mod 65535"
  shows "wsum (pre @ bytes16 w' @ post) mod 65535 \<noteq> 0"
proof
  assume "wsum (pre @ bytes16 w' @ post) mod 65535 = 0"
  moreover have "wsum (pre @ bytes16 v @ post) = unat v + (wsum pre + wsum post)" for v
    using assms(1) by (simp add: wsum_simps)
  ultimately have "(unat w + (wsum pre + wsum post)) mod 65535 =
      (unat w' + (wsum pre + wsum post)) mod 65535"
    using assms(3) by simp
  then have "unat w mod 65535 = unat w' mod 65535"
    by (simp add: mod_add_right_cancel_nat)
  with assms(4) show False by simp
qed

end

text \<open>
  The two functions of the code satisfy the contract: \<open>checksum\<close> over a whole object, and
  \<open>checksum2\<close> over an object split after 20 bytes (an IP header and its options) or after 8
  (an ICMP header and the quoted datagram).
\<close>

definition checksum_all :: "bytes \<Rightarrow> u16" where
  "checksum_all bs = the (checksum bs (int (length bs)))"

definition checksum2_at :: "nat \<Rightarrow> bytes \<Rightarrow> u16" where
  "checksum2_at n bs =
     the (checksum2 (take n bs) (int n) (drop n bs) (int (length bs - n)))"

interpretation whole: inet_cksum checksum_all "\<lambda>_. True"
proof
  fix bs
  show "unat (checksum_all bs) = 65535 - oc (wsum bs)"
    by (simp add: checksum_all_def checksum_eq unat_of_nat_oc del: of_nat_diff)
qed simp

lemma checksum2_at_oc:
  assumes "even n" and "n \<le> length bs"
  shows "unat (checksum2_at n bs) = 65535 - oc (wsum bs)"
  using assms checksum2_eq [of n "take n bs" "length bs - n" "drop n bs"]
  by (simp add: checksum2_at_def unat_of_nat_oc del: of_nat_diff)

interpretation split20: inet_cksum "checksum2_at 20" "\<lambda>bs. 20 \<le> length bs"
  by unfold_locales (simp_all add: checksum2_at_oc)

interpretation split8: inet_cksum "checksum2_at 8" "\<lambda>bs. 8 \<le> length bs"
  by unfold_locales (simp_all add: checksum2_at_oc)

section \<open>Header verification\<close>

text \<open>\<open>checkIPchecksum\<close> accepts exactly the headers whose word sum is a multiple of 65535.\<close>

lemma checkIPchecksum_iff:
  assumes "length h = 20" and "nat ol \<le> length opt"
  shows "checkIPchecksum h opt ol =
    Some (if wsum (h @ take (nat ol) opt) mod 65535 = 0 then 1 else 0)"
proof (cases "0 < ol")
  case True
  define n where "n = nat ol"
  have n: "ol = int n" "n \<le> length opt" "n \<noteq> 0" using True assms(2) by (simp_all add: n_def)
  have "checksum2 h 20 opt (int n) = Some (checksum2_at 20 (h @ take n opt))"
    using checksum2_eq [of 20 h n opt] checksum2_eq [of 20 h n "take n opt"] assms(1) n(2)
    by (simp add: checksum2_at_def min_def del: of_nat_diff)
  then show ?thesis
    using assms(1) n split20.accept_iff [of "h @ take n opt"]
    by (auto simp: checkIPchecksum_def)
next
  case False
  have c: "checksum h 20 = Some (checksum_all h)"
    using checksum_eq [of 20 h] assms(1) by (simp add: checksum_all_def del: of_nat_diff)
  have "checksum2 h 20 opt ol = checksum h 20"
    using checksum2_nonpos [of 20 h ol opt] False assms(1) by simp
  with c show ?thesis
    using False whole.accept_iff [of h] by (auto simp: checkIPchecksum_def)
qed

lemma checkIPchecksum_None:
  assumes "length h = 20" and "int (length opt) < ol"
  shows "checkIPchecksum h opt ol = None"
  using checksum2_None [of 20 h opt "nat ol"] assms by (simp add: checkIPchecksum_def)

section \<open>Byte order\<close>

text \<open>
  The code sums the words in the byte order of the machine and stores the result in it. RFC 1071
  defines the sum over big-endian words: \<open>bsum\<close>. The two agree up to the byte swap of the result.
\<close>

fun bsum :: "bytes \<Rightarrow> nat" where
  "bsum [] = 0"
| "bsum [b] = 256 * unat b"
| "bsum (b0 # b1 # bs) = 256 * unat b0 + unat b1 + bsum bs"

lemma bsum_wsum_mod: "bsum bs mod 65535 = (256 * wsum bs) mod 65535"
proof (induction bs rule: bsum.induct)
  case (3 b0 b1 bs)
  have "256 * wsum (b0 # b1 # bs) = 65535 * unat b1 + ((256 * unat b0 + unat b1) + 256 * wsum bs)"
    by simp
  then have "(256 * wsum (b0 # b1 # bs)) mod 65535 =
      ((256 * unat b0 + unat b1) + 256 * wsum bs) mod 65535"
    by (metis mod_mult_self4)
  also have "\<dots> = ((256 * unat b0 + unat b1) + bsum bs) mod 65535"
    using "3.IH" by (metis mod_add_right_eq)
  finally show ?case by simp
qed simp_all

lemma bsum_0_iff: "bsum bs = 0 \<longleftrightarrow> wsum bs = 0"
  by (induction bs rule: bsum.induct) auto

lemma unat_htons: "unat (htons w) = unat w mod 256 * 256 + unat w div 256"
proof -
  have "htons w = le16 (ucast (drop_bit 8 w)) (ucast w)"
    unfolding htons_def le16_def by (rule bit_word_eqI) (auto simp: bit_simps)
  moreover have "unat (ucast (drop_bit 8 w) :: u8) = unat w div 256"
    using unat_u16_less [of w]
    by (simp add: unsigned_ucast_eq take_bit_nat_def drop_bit_eq_div unat_div
        less_mult_imp_div_less del: unat_u16_less)
  moreover have "unat (ucast w :: u8) = unat w mod 256"
    by (simp add: unsigned_ucast_eq take_bit_nat_def)
  ultimately show ?thesis by (simp add: unat_le16)
qed

lemma htons_oc:
  assumes "unat w = oc n" and "m mod 65535 = (256 * n) mod 65535" and "m = 0 \<longleftrightarrow> n = 0"
  shows "unat (htons w) = oc m"
proof (rule oc_unique)
  show "unat (htons w) < 65536" by simp
  have "256 * unat w = 65535 * (unat w div 256) + unat (htons w)"
    using div_mult_mod_eq [of "unat w" 256] unfolding unat_htons by linarith
  then have "unat (htons w) mod 65535 = (256 * oc n) mod 65535"
    unfolding assms(1) by (metis mod_mult_self4)
  also have "\<dots> = m mod 65535"
    unfolding assms(2) by (metis mod_mult_right_eq oc_mod)
  finally show "unat (htons w) mod 65535 = m mod 65535" .
  have "unat (htons w) = 0 \<longleftrightarrow> unat w = 0"
    by (metis htons_htons unat_eq_zero htons_def push_bit_of_0 drop_bit_of_0 or.right_neutral)
  then show "unat (htons w) = 0 \<longleftrightarrow> m = 0" by (simp add: assms)
qed

lemma htons_NOT: "htons (NOT w) = NOT (htons w)"
  unfolding htons_def by (rule bit_word_eqI) (auto simp: bit_simps)

lemma htons_complement_oc:
  assumes "unat c = 65535 - oc (wsum bs)"
  shows "unat (htons c) = 65535 - oc (bsum bs)"
proof -
  have "unat (NOT c) = oc (wsum bs)"
    using oc_le [of "wsum bs"] unfolding unat_NOT16 assms by linarith
  then have "unat (htons (NOT c)) = oc (bsum bs)"
    using bsum_wsum_mod bsum_0_iff by (rule htons_oc)
  then have "65535 - unat (htons c) = oc (bsum bs)"
    by (simp only: htons_NOT unat_NOT16)
  then show ?thesis using unat_u16_less [of "htons c"] by linarith
qed

lemma times256_mod: "256 * n mod 65535 = 0 \<longleftrightarrow> n mod 65535 = 0" for n :: nat
proof
  assume "256 * n mod 65535 = 0"
  then have "256 * (256 * n) mod 65535 = 0" by (metis mod_mult_right_eq mult_0_right mod_0)
  moreover have "256 * (256 * n) = 65535 * n + n" by simp
  ultimately show "n mod 65535 = 0" by (metis mod_mult_self4)
next
  assume "n mod 65535 = 0"
  then show "256 * n mod 65535 = 0" by (metis mod_mult_right_eq mult_0_right mod_0)
qed

section \<open>Properties\<close>

text \<open>C30: \<open>checksum\<close> of the first \<open>n\<close> bytes of an object that has them terminates without reading
  beyond them, and its result, in network byte order, is the complement of the one's complement sum
  of the big-endian words (RFC 1071), for every length, odd ones included.\<close>

theorem checksum_rfc1071:
  assumes "n \<le> length data"
  shows "\<exists>c. checksum data (int n) = Some c \<and> unat (htons c) = 65535 - oc (bsum (take n data))"
proof -
  let ?c = "of_nat (65535 - oc (wsum (take n data))) :: u16"
  have "unat (htons ?c) = 65535 - oc (bsum (take n data))"
    by (rule htons_complement_oc [OF unat_of_nat_oc])
  then show ?thesis using checksum_eq [OF assms] by blast
qed

theorem checksum_rfc1071_witness:
  "\<exists>c. checksum [0x45, 0, 1] 3 = Some c \<and> unat (htons c) = 65535 - oc (0x4500 + 0x100)"
  using checksum_rfc1071 [of 3 "[0x45, 0, 1]"] by simp

text \<open>\<open>checksum2\<close> of two parts, the first of even length, is \<open>checksum\<close> of their
  concatenation.\<close>

theorem checksum2_concatenates:
  assumes "n1 \<le> length data1" and "even n1" and "n2 \<le> length data2"
  shows "checksum2 data1 (int n1) data2 (int n2) =
    checksum (take n1 data1 @ take n2 data2) (int (n1 + n2))"
  using checksum2_eq [OF assms] checksum_eq [of "n1 + n2" "take n1 data1 @ take n2 data2"] assms
  by simp

theorem checksum2_concatenates_witness:
  "checksum2 [1, 2] 2 [3, 4, 5] 3 = checksum [1, 2, 3, 4, 5] 5"
  using checksum2_concatenates [of 2 "[1, 2]" 3 "[3, 4, 5]"] by simp

text \<open>C31: \<open>checkIPchecksum\<close> accepts a header with its options exactly if the one's complement sum
  of all its words is zero, and it never reads more than the options.\<close>

theorem checkIPchecksum_correct:
  assumes "length h = 20" and "length opt = nat ol"
  shows "checkIPchecksum h opt ol = Some (if bsum (h @ opt) mod 65535 = 0 then 1 else 0)"
proof -
  have "bsum (h @ opt) mod 65535 = 0 \<longleftrightarrow> wsum (h @ opt) mod 65535 = 0"
    unfolding bsum_wsum_mod by (rule times256_mod)
  then show ?thesis using checkIPchecksum_iff [of h ol opt] assms by simp
qed

theorem checkIPchecksum_correct_witness:
  "checkIPchecksum [69, 0, 0, 40, 0, 1, 0, 0, 64, 17, 248, 111, 192, 168, 0, 2, 192, 168, 1, 2] [] 0 = Some 1"
  using checkIPchecksum_correct [of
      "[69, 0, 0, 40, 0, 1, 0, 0, 64, 17, 248, 111, 192, 168, 0, 2, 192, 168, 1, 2]" "[]" 0]
  by simp

text \<open>\<open>checksum2\<close> is not usable with a first part of odd length: it loads two bytes at its last
  byte and so reads beyond the object.\<close>

theorem checksum2_odd_overread:
  assumes "odd (length data1)"
  shows "checksum2 data1 (int (length data1)) data2 len2 = None"
proof -
  let ?n = "length data1"
  have n: "2 * (?n div 2) = ?n - 1" "?n mod 2 = 1" using assms by (auto elim: oddE)
  obtain s where "sum_loop 0 data1 (int ?n) = Some (s, drop (?n - 1) data1, 1)"
    using sum_loop_Some [of ?n data1 0 0] n by auto
  moreover obtain b where "drop (?n - 1) data1 = [b]"
    using assms by (metis Suc_diff_1 append_butlast_last_id append_eq_conv_conj length_butlast
        odd_pos length_greater_0_conv)
  ultimately show ?thesis by (simp add: checksum2_def)
qed

theorem checksum2_odd_overread_witness: "checksum2 [7] 1 [1, 2, 3] 3 = None"
  using checksum2_odd_overread [of "[7]" "[1, 2, 3]" 3] by simp

end
