(* ===== verification/Ip2Mac.thy ===== *)
theory Ip2Mac
  imports SendBuf Arp Checksum
begin

text \<open>
  \<open>router/ip2mac.c\<close>: the IP-to-MAC tables of the two devices (\<open>Ip2MacSearch\<close>, \<open>Ip2Mac\<close>), the
  queue of send requests (\<open>AppendSendReqData\<close>, \<open>GetSendReqData\<close>) and the sending of buffered
  frames (\<open>BufferSendOne\<close>, \<open>BufferSend\<close>). A pointer to a table entry is the pair of its device
  and its index. Outcomes of library calls are the fields of \<open>os\<close>.
\<close>

section \<open>State\<close>

datatype flag = FLAG_FREE | FLAG_OK | FLAG_NG

record DEVICE =
  soc :: int
  hwaddr :: mac
  addr :: in_addr_t
  subnet :: in_addr_t
  netmask :: in_addr_t

record IP2MAC =
  i_flag :: flag
  i_deviceNo :: nat
  i_addr :: in_addr_t
  i_hwaddr :: mac
  i_lastTime :: int
  i_sd :: SEND_DATA

text \<open>The allocated array holds \<open>t_size\<close> entries; \<open>t_data\<close> lists those ever written to.\<close>

record IP2MACS =
  t_data :: "IP2MAC list"
  t_size :: nat
  t_no :: nat

record SEND_REQ_DATA = dlnode +
  r_deviceNo :: nat
  r_ip2macNo :: nat

record router =
  Device :: "nat \<Rightarrow> DEVICE"
  NextRouter :: in_addr_t
  Ip2Macs :: "nat \<Rightarrow> IP2MACS"
  bufs :: "DATA_BUF heap"
  reqs :: "SEND_REQ_DATA heap"
  SendReq :: dlq
  out :: sent
  EndFlag :: bool

record os =
  o_now :: int
  o_lock_sd :: "nat \<Rightarrow> int"
  o_lock_req :: int
  o_malloc_req :: bool
  o_malloc_table :: bool
  o_send :: send_env

definition IP2MAC_TIMEOUT_SEC :: int where "IP2MAC_TIMEOUT_SEC = 60"
definition IP2MAC_NG_TIMEOUT_SEC :: int where "IP2MAC_NG_TIMEOUT_SEC = 1"

text \<open>\<open>&Ip2Macs[d].data[i]\<close>: reading and writing through the pointer\<close>

definition entry :: "router \<Rightarrow> nat \<Rightarrow> nat \<Rightarrow> IP2MAC option" where
  "entry s d i =
     (if i < length (t_data (Ip2Macs s d)) then Some (t_data (Ip2Macs s d) ! i) else None)"

definition put_entry :: "nat \<Rightarrow> nat \<Rightarrow> IP2MAC \<Rightarrow> router \<Rightarrow> router" where
  "put_entry d i m s =
     s\<lparr>Ip2Macs := (Ip2Macs s)(d := (Ip2Macs s d)\<lparr>t_data := (t_data (Ip2Macs s d))[i := m]\<rparr>)\<rparr>"

section \<open>The queue of send requests\<close>

text \<open>\<^verbatim>\<open>for (d = SendReq.top; d != NULL; d = d->next) { if (equal) { ... return (1); } }\<close>\<close>

partial_function (option) find_req ::
  "nat option \<Rightarrow> SEND_REQ_DATA heap \<Rightarrow> nat \<Rightarrow> nat \<Rightarrow> bool option" where
  "find_req d h deviceNo ip2macNo = (case d of
     None \<Rightarrow> Some False
   | Some p \<Rightarrow> do {
       n \<leftarrow> cells h p;
       (if r_deviceNo n = deviceNo \<and> r_ip2macNo n = ip2macNo then Some True
        else find_req (d_next n) h deviceNo ip2macNo)
     })"

definition AppendSendReqData :: "os \<Rightarrow> nat \<Rightarrow> nat \<Rightarrow> router \<Rightarrow> (int \<times> router) option" where
  "AppendSendReqData e deviceNo ip2macNo s =
     (if o_lock_req e \<noteq> 0 then Some (-1, s)
      else do {
        found \<leftarrow> find_req (q_top (SendReq s)) (reqs s) deviceNo ip2macNo;
        (if found then Some (1, s)
         else if \<not> o_malloc_req e then Some (-1, s)
         else do {
           let (d, h) = halloc \<lparr>d_next = None, d_before = None, r_deviceNo = deviceNo,
                                r_ip2macNo = ip2macNo\<rparr> (reqs s);
           (h, q) \<leftarrow> dl_append d h (SendReq s);
           Some (0, s\<lparr>reqs := h, SendReq := q\<rparr>)
         })
      })"

text \<open>\<open>-1\<close> is \<open>None\<close>, \<open>0\<close> is \<open>Some (*deviceNo, *ip2macNo)\<close>; the node is not freed.\<close>

definition GetSendReqData :: "int \<Rightarrow> router \<Rightarrow> ((nat \<times> nat) option \<times> router) option" where
  "GetSendReqData lock s =
     (if q_top (SendReq s) = None then Some (None, s)
      else if lock \<noteq> 0 then Some (None, s)
      else do {
        (d, h, q) \<leftarrow> dl_pop (reqs s) (SendReq s);
        n \<leftarrow> cells h d;
        Some (Some (r_deviceNo n, r_ip2macNo n), s\<lparr>reqs := h, SendReq := q\<rparr>)
      })"

section \<open>Searching the table\<close>

definition expired :: "int \<Rightarrow> IP2MAC \<Rightarrow> bool" where
  "expired now m \<longleftrightarrow>
     (i_flag m = FLAG_OK \<and> now - i_lastTime m > IP2MAC_TIMEOUT_SEC) \<or>
     (i_flag m = FLAG_NG \<and> now - i_lastTime m > IP2MAC_NG_TIMEOUT_SEC)"

text \<open>\<open>FreeSendData(ip2mac); ip2mac->flag = FLAG_FREE;\<close>\<close>

definition free_entry :: "os \<Rightarrow> nat \<Rightarrow> nat \<Rightarrow> router \<Rightarrow> router option" where
  "free_entry e d i s = do {
     m \<leftarrow> entry s d i;
     (r, h, sd) \<leftarrow> FreeSendData (o_lock_sd e i) (bufs s) (i_sd m);
     Some (put_entry d i (m\<lparr>i_sd := sd, i_flag := FLAG_FREE\<rparr>) (s\<lparr>bufs := h\<rparr>))
   }"

text \<open>
  The loop over the table: \<open>Inl i\<close> when it returns entry \<open>i\<close>, \<open>Inr freeNo\<close> when it runs to the
  end. The list holds the values of \<open>i\<close> still to come.
\<close>

fun search_loop ::
  "os \<Rightarrow> nat \<Rightarrow> in_addr_t \<Rightarrow> mac option \<Rightarrow> nat list \<Rightarrow> nat option \<Rightarrow> router \<Rightarrow>
   ((nat + nat option) \<times> router) option"
  where
  "search_loop e d a hw [] freeNo s = Some (Inr freeNo, s)"
| "search_loop e d a hw (i # is) freeNo s = do {
     m \<leftarrow> entry s d i;
     (if i_flag m = FLAG_FREE then
        search_loop e d a hw is (if freeNo = None then Some i else freeNo) s
      else if i_addr m = a then do {
        let m = (if i_flag m = FLAG_OK then m\<lparr>i_lastTime := o_now e\<rparr> else m);
        let s = put_entry d i m s;
        (case hw of
           Some mac \<Rightarrow> do {
             let m = m\<lparr>i_hwaddr := mac, i_flag := FLAG_OK\<rparr>;
             let s = put_entry d i m s;
             s \<leftarrow> (if q_top (i_sd m) \<noteq> None then map_option snd (AppendSendReqData e d i s)
                   else Some s);
             Some (Inl i, s)
           }
         | None \<Rightarrow>
             (if expired (o_now e) m then do {
                s \<leftarrow> free_entry e d i s;
                search_loop e d a hw is (if freeNo = None then Some i else freeNo) s
              } else Some (Inl i, s)))
      }
      else if expired (o_now e) m then do {
        s \<leftarrow> free_entry e d i s;
        search_loop e d a hw is (if freeNo = None then Some i else freeNo) s
      }
      else search_loop e d a hw is freeNo s)
   }"

text \<open>\<open>malloc\<close> or \<open>realloc\<close> of 1024 more entries when the array is full\<close>

definition grow :: "os \<Rightarrow> IP2MACS \<Rightarrow> IP2MACS option" where
  "grow e t =
     (if t_no t \<ge> t_size t then
        (if o_malloc_table e
         then Some (t\<lparr>t_size := (if t_size t = 0 then 1024 else t_size t + 1024)\<rparr>)
         else None)
      else Some t)"

text \<open>Writing every field of entry \<open>no\<close>, the last one of the array possibly written first now\<close>

definition init_entry :: "os \<Rightarrow> nat \<Rightarrow> in_addr_t \<Rightarrow> mac option \<Rightarrow> IP2MAC" where
  "init_entry e d a hw =
     \<lparr>i_flag = (case hw of None \<Rightarrow> FLAG_NG | Some _ \<Rightarrow> FLAG_OK), i_deviceNo = d, i_addr = a,
      i_hwaddr = (case hw of None \<Rightarrow> zero_mac | Some mac \<Rightarrow> mac), i_lastTime = o_now e,
      i_sd = sd_empty\<rparr>"

definition Ip2MacSearch :: "os \<Rightarrow> nat \<Rightarrow> in_addr_t \<Rightarrow> mac option \<Rightarrow> router \<Rightarrow> (nat \<times> router) option" where
  "Ip2MacSearch e d a hw s = do {
     (r, s) \<leftarrow> search_loop e d a hw [0..<t_no (Ip2Macs s d)] None s;
     (case r of
        Inl i \<Rightarrow> Some (i, s)
      | Inr (Some no) \<Rightarrow> Some (no, put_entry d no (init_entry e d a hw) s)
      | Inr None \<Rightarrow> do {
          t \<leftarrow> grow e (Ip2Macs s d);
          let no = t_no t;
          let t = t\<lparr>t_no := no + 1, t_data := t_data t @ [init_entry e d a hw]\<rparr>;
          Some (no, s\<lparr>Ip2Macs := (Ip2Macs s)(d := t)\<rparr>)
        })
   }"

definition Ip2Mac :: "os \<Rightarrow> nat \<Rightarrow> in_addr_t \<Rightarrow> mac option \<Rightarrow> router \<Rightarrow> (nat \<times> router) option" where
  "Ip2Mac e d a hw s = do {
     (i, s) \<leftarrow> Ip2MacSearch e d a hw s;
     m \<leftarrow> entry s d i;
     (if i_flag m = FLAG_OK then Some (i, s)
      else Some (i, s\<lparr>out := SendArpRequestB (soc (Device s d)) a bcast (addr (Device s d))
                              (hwaddr (Device s d)) (out s)\<rparr>))
   }"

section \<open>Sending the buffered frames\<close>

text \<open>
  The rewriting of one buffered frame: the destination address, the time to live and the header
  checksum. \<open>option\<close> is the local array the options are copied to.
\<close>

definition rewrite_buffered :: "mac \<Rightarrow> bytes \<Rightarrow> bytes option" where
  "rewrite_buffered dhost data = do {
     eh \<leftarrow> mread data 0 14;
     ip \<leftarrow> mread data 14 20;
     let iphdr = dec_iphdr ip;
     let optionLen = option_len (ip_ihl iphdr);
     option \<leftarrow> (if optionLen > 0 then mread data 34 (nat optionLen) else Some []);
     let eh = (dec_ether_header eh)\<lparr>ether_dhost := dhost\<rparr>;
     data \<leftarrow> mwrite data 0 (enc_ether_header eh);
     let iphdr = iphdr\<lparr>ip_ttl := ip_ttl iphdr - 1\<rparr>;
     let iphdr = iphdr\<lparr>ip_check := 0\<rparr>;
     c \<leftarrow> checksum2 (enc_iphdr iphdr) 20 option optionLen;
     mwrite data 14 (enc_iphdr (iphdr\<lparr>ip_check := c\<rparr>))
   }"

partial_function (option) BufferSendOne :: "int \<Rightarrow> nat \<Rightarrow> nat \<Rightarrow> router \<Rightarrow> router option" where
  "BufferSendOne lock deviceNo i s = do {
     m \<leftarrow> entry s deviceNo i;
     (r, h, sd) \<leftarrow> GetSendData lock (bufs s) (i_sd m);
     let s = put_entry deviceNo i (m\<lparr>i_sd := sd\<rparr>) (s\<lparr>bufs := h\<rparr>);
     (case r of
        None \<Rightarrow> Some s
      | Some (size', block) \<Rightarrow> do {
          data \<leftarrow> block;
          data \<leftarrow> rewrite_buffered (i_hwaddr m) data;
          bs \<leftarrow> mread data 0 (nat size');
          BufferSendOne lock deviceNo i
            (s\<lparr>out := sock_write (soc (Device s deviceNo)) bs (out s)\<rparr>)
        })
   }"

text \<open>The inner loop of \<open>BufferSend\<close>, run after each wake-up\<close>

partial_function (option) buffer_drain :: "int \<Rightarrow> (nat \<Rightarrow> int) \<Rightarrow> router \<Rightarrow> router option" where
  "buffer_drain lock lock_sd s = do {
     (r, s) \<leftarrow> GetSendReqData lock s;
     (case r of
        None \<Rightarrow> Some s
      | Some (deviceNo, ip2macNo) \<Rightarrow> do {
          s \<leftarrow> BufferSendOne (lock_sd ip2macNo) deviceNo ip2macNo s;
          buffer_drain lock lock_sd s
        })
   }"

text \<open>
  \<open>BufferSend\<close>: one element of the list is one turn of \<open>while (EndFlag == 0)\<close>, that is, the
  statuses of the locks after the condition variable was signalled or timed out (both resume the
  same way). The list bounds the number of turns observed.
\<close>

fun BufferSend :: "(int \<times> (nat \<Rightarrow> int)) list \<Rightarrow> router \<Rightarrow> router option" where
  "BufferSend [] s = Some s"
| "BufferSend ((lock, lock_sd) # ts) s =
     (if EndFlag s then Some s
      else do {
        s \<leftarrow> buffer_drain lock lock_sd s;
        BufferSend ts s
      })"

end
