(* ===== verification/RouterMain.thy ===== *)
theory RouterMain
  imports Ip2Mac
begin

text \<open>
  \<open>router/main.c\<close>: \<open>SendIcmpTimeExceeded\<close>, \<open>AnalyzePacket\<close>, the loop of \<open>Router\<close> and
  \<open>EndSignal\<close>. \<open>data\<close> is the whole receive buffer and \<open>size\<close> the number of bytes of it that
  were received; the headers the code overlays on the buffer are read from and written back to
  it. The debug output is in theory \<open>RouterDebug\<close>.
\<close>

definition IPPROTO_ICMP :: u8 where "IPPROTO_ICMP = 1"
definition ICMP_TIME_EXCEEDED :: u8 where "ICMP_TIME_EXCEEDED = 11"
definition ICMP_TIMXCEED_INTRANS :: u8 where "ICMP_TIMXCEED_INTRANS = 0"

section \<open>\<open>SendIcmpTimeExceeded\<close>\<close>

definition SendIcmpTimeExceeded ::
  "nat \<Rightarrow> ether_header \<Rightarrow> iphdr \<Rightarrow> bytes \<Rightarrow> int \<Rightarrow> router \<Rightarrow> router option" where
  "SendIcmpTimeExceeded deviceNo eh iphdr data size' s = do {
     let reh = \<lparr>ether_dhost = ether_shost eh, ether_shost = hwaddr (Device s deviceNo),
                ether_type = htons ETHERTYPE_IP\<rparr>;
     let rih = \<lparr>ip_ihl = 5, ip_version = 4, ip_tos = 0,
                ip_tot_len = htons (of_nat (sizeof_icmp + 64)), ip_id = 0, ip_frag_off = 0,
                ip_ttl = 64, ip_protocol = IPPROTO_ICMP, ip_check = 0,
                ip_saddr = addr (Device s deviceNo), ip_daddr = ip_saddr iphdr\<rparr>;
     c \<leftarrow> checksum (enc_iphdr rih) 20;
     let rih = rih\<lparr>ip_check := c\<rparr>;
     let icmp = \<lparr>icmp_type = ICMP_TIME_EXCEEDED, icmp_code = ICMP_TIMXCEED_INTRANS,
                 icmp_cksum = 0, icmp_void = 0\<rparr>;
     c \<leftarrow> checksum2 (enc_icmp icmp) 8 (drop 14 data) 64;
     let icmp = icmp\<lparr>icmp_cksum := c\<rparr>;
     payload \<leftarrow> mread data 14 64;
     let buf = enc_ether_header reh @ enc_iphdr rih @ enc_icmp icmp @ payload;
     Some (s\<lparr>out := sock_write (soc (Device s deviceNo)) buf (out s)\<rparr>)
   }"

section \<open>\<open>AnalyzePacket\<close>\<close>

text \<open>
  The ARP branch: the sender of a request or of a reply is learnt. \<open>lest\<close> is the number of bytes
  after the Ethernet header.
\<close>

definition AnalyzePacket_arp :: "os \<Rightarrow> nat \<Rightarrow> bytes \<Rightarrow> int \<Rightarrow> router \<Rightarrow> (int \<times> bytes \<times> router) option" where
  "AnalyzePacket_arp e deviceNo data lest s =
     (if lt_sizeof lest 28 then Some (-1, data, s)
      else do {
        bs \<leftarrow> mread data 14 28;
        let arp = dec_ether_arp bs;
        s \<leftarrow> (if arp_op arp = htons ARPOP_REQUEST
              then map_option snd (Ip2Mac e deviceNo (in_addr_of (arp_spa arp)) (Some (arp_sha arp)) s)
              else Some s);
        s \<leftarrow> (if arp_op arp = htons ARPOP_REPLY
              then map_option snd (Ip2Mac e deviceNo (in_addr_of (arp_spa arp)) (Some (arp_sha arp)) s)
              else Some s);
        Some (0, data, s)
      })"

text \<open>
  The MAC address of the next hop \<open>a\<close> on device \<open>tno\<close>: \<open>Inl s\<close> when the frame was handed to
  \<open>AppendSendData\<close> instead (\<open>return (-1)\<close>), \<open>Inr (hwaddr, s)\<close> when the address is known.
\<close>

definition next_hop ::
  "os \<Rightarrow> nat \<Rightarrow> in_addr_t \<Rightarrow> bytes \<Rightarrow> int \<Rightarrow> router \<Rightarrow> (router + mac \<times> router) option" where
  "next_hop e tno a data size' s = do {
     (i, s) \<leftarrow> Ip2Mac e tno a None s;
     m \<leftarrow> entry s tno i;
     (if i_flag m = FLAG_NG \<or> dno (i_sd m) \<noteq> 0 then do {
        (r, h, sd) \<leftarrow> AppendSendData (o_send e) (bufs s) (i_sd m) data size';
        Some (Inl (put_entry tno i (m\<lparr>i_sd := sd\<rparr>) (s\<lparr>bufs := h\<rparr>)))
      } else Some (Inr (i_hwaddr m, s)))
   }"

text \<open>The last part: the headers are changed in the buffer and the frame is written.\<close>

definition forward ::
  "nat \<Rightarrow> mac \<Rightarrow> ether_header \<Rightarrow> iphdr \<Rightarrow> bytes \<Rightarrow> int \<Rightarrow> bytes \<Rightarrow> int \<Rightarrow> router \<Rightarrow> (bytes \<times> router) option"
  where
  "forward tno mac eh iphdr option optionLen data size' s = do {
     let eh = eh\<lparr>ether_dhost := mac\<rparr>;
     let eh = eh\<lparr>ether_shost := hwaddr (Device s tno)\<rparr>;
     data \<leftarrow> mwrite data 0 (enc_ether_header eh);
     let iphdr = iphdr\<lparr>ip_ttl := ip_ttl iphdr - 1\<rparr>;
     let iphdr = iphdr\<lparr>ip_check := 0\<rparr>;
     c \<leftarrow> checksum2 (enc_iphdr iphdr) 20 option optionLen;
     data \<leftarrow> mwrite data 14 (enc_iphdr (iphdr\<lparr>ip_check := c\<rparr>));
     bs \<leftarrow> mread data 0 (nat size');
     Some (data, s\<lparr>out := sock_write (soc (Device s tno)) bs (out s)\<rparr>)
   }"

definition AnalyzePacket_ip ::
  "os \<Rightarrow> nat \<Rightarrow> ether_header \<Rightarrow> bytes \<Rightarrow> int \<Rightarrow> int \<Rightarrow> router \<Rightarrow> (int \<times> bytes \<times> router) option" where
  "AnalyzePacket_ip e deviceNo eh data size' lest s =
     (if lt_sizeof lest 20 then Some (-1, data, s)
      else do {
        bs \<leftarrow> mread data 14 20;
        let iphdr = dec_iphdr bs;
        let optionLen = option_len (ip_ihl iphdr);
        (if optionLen > 0 \<and> optionLen \<ge> 1500 then Some (-1, data, s)
         else do {
           option \<leftarrow> (if optionLen > 0 then mread data 34 (nat optionLen) else Some []);
           ok \<leftarrow> checkIPchecksum (enc_iphdr iphdr) option optionLen;
           (if ok = 0 then Some (-1, data, s)
            else if uint (ip_ttl iphdr) - 1 = 0 then do {
              s \<leftarrow> SendIcmpTimeExceeded deviceNo eh iphdr data size' s;
              Some (-1, data, s)
            }
            else do {
              let tno = (if deviceNo = 0 then 1 else 0);
              let local = (ip_daddr iphdr AND netmask (Device s tno) = subnet (Device s tno));
              (if local \<and> ip_daddr iphdr = addr (Device s tno) then Some (1, data, s)
               else do {
                 r \<leftarrow> next_hop e tno (if local then ip_daddr iphdr else NextRouter s) data size' s;
                 (case r of
                    Inl s \<Rightarrow> Some (-1, data, s)
                  | Inr (mac, s) \<Rightarrow> do {
                      (data, s) \<leftarrow> forward tno mac eh iphdr option optionLen data size' s;
                      Some (0, data, s)
                    })
               })
            })
         })
      })"

definition AnalyzePacket :: "os \<Rightarrow> nat \<Rightarrow> bytes \<Rightarrow> int \<Rightarrow> router \<Rightarrow> (int \<times> bytes \<times> router) option" where
  "AnalyzePacket e deviceNo data size' s =
     (if deviceNo \<ge> 2 then None
      else if lt_sizeof size' 14 then Some (-1, data, s)
      else do {
        bs \<leftarrow> mread data 0 14;
        let eh = dec_ether_header bs;
        let lest = size' - 14;
        (if ether_dhost eh \<noteq> hwaddr (Device s deviceNo) then Some (-1, data, s)
         else if ntohs (ether_type eh) = ETHERTYPE_ARP then AnalyzePacket_arp e deviceNo data lest s
         else if ntohs (ether_type eh) = ETHERTYPE_IP
           then AnalyzePacket_ip e deviceNo eh data size' lest s
         else Some (0, data, s))
      })"

section \<open>\<open>Router\<close>\<close>

text \<open>
  One turn of \<open>while (EndFlag == 0)\<close>: the result of \<open>poll\<close>, for each device whether \<open>revents\<close>
  has \<open>POLLIN\<close> or \<open>POLLERR\<close>, the result of \<open>read\<close> and the bytes it stored, the outcomes of
  the library calls, and whether the signal handler runs before the next test of \<open>EndFlag\<close>.
\<close>

record turn =
  t_poll :: int
  t_ready :: "nat \<Rightarrow> bool"
  t_read :: "nat \<Rightarrow> int \<times> bytes"
  t_os :: "nat \<Rightarrow> os"
  t_signal :: bool

definition EndSignal :: "router \<Rightarrow> router" where
  "EndSignal s = s\<lparr>EndFlag := True\<rparr>"

definition Router_recv :: "turn \<Rightarrow> nat \<Rightarrow> bytes \<times> router \<Rightarrow> (bytes \<times> router) option" where
  "Router_recv t i = (\<lambda>(buf, s).
     if t_ready t i then do {
       let (size', bs) = t_read t i;
       (if size' \<le> 0 then Some (buf, s)
        else do {
          buf \<leftarrow> mwrite buf 0 bs;
          (r, buf, s) \<leftarrow> AnalyzePacket (t_os t i) i buf size' s;
          Some (buf, s)
        })
     } else Some (buf, s))"

definition Router_turn :: "turn \<Rightarrow> bytes \<times> router \<Rightarrow> (bytes \<times> router) option" where
  "Router_turn t x =
     (if t_poll t = -1 \<or> t_poll t = 0 then Some x
      else do { x \<leftarrow> Router_recv t 0 x; Router_recv t 1 x })"

text \<open>The list bounds the number of turns observed.\<close>

fun Router :: "turn list \<Rightarrow> bytes \<times> router \<Rightarrow> (bytes \<times> router) option" where
  "Router [] x = Some x"
| "Router (t # ts) x =
     (if EndFlag (snd x) then Some x
      else do {
        (buf, s) \<leftarrow> Router_turn t x;
        Router ts (buf, if t_signal t then EndSignal s else s)
      })"

end
