(* ===== verification/Ip2MacInv.thy ===== *)
theory Ip2MacInv
  imports Ip2Mac
begin

text \<open>
  The invariant of the IP-to-MAC tables and of the two kinds of queues, and the operations of
  \<open>router/ip2mac.c\<close> as operations on what they represent: \<open>X (d, i)\<close>, the frames waiting in entry
  \<open>i\<close> of device \<open>d\<close>, and \<open>R\<close>, the pending send requests.
\<close>

section \<open>The request queue\<close>

definition req_of :: "SEND_REQ_DATA \<Rightarrow> nat \<times> nat" where
  "req_of x = (r_deviceNo x, r_ip2macNo x)"

definition rrep :: "SEND_REQ_DATA heap \<Rightarrow> dlq \<Rightarrow> nat list \<Rightarrow> (nat \<times> nat) list \<Rightarrow> bool" where
  "rrep h q ps rs \<longleftrightarrow> (\<exists>xs. dlrep h q ps xs \<and> map req_of xs = rs)"

lemma rrep_top_None: "rrep h q ps rs \<Longrightarrow> q_top q = None \<longleftrightarrow> rs = []"
  by (auto simp: rrep_def dlrep_top_None)

lemma rrep_heap_ok: "rrep h q ps rs \<Longrightarrow> heap_ok h"
  by (auto simp: rrep_def dlrep_def)

lemma rrep_below_brk: "rrep h q ps rs \<Longrightarrow> p \<in> set ps \<Longrightarrow> p < brk h"
  by (auto simp: rrep_def dest: dlrep_below_brk)

lemma rrep_others:
  assumes "heap_ok h'" and "\<forall>p. p \<notin> set ps \<and> p < brk h \<longrightarrow> cells h' p = cells h p"
    and "set ps' \<subseteq> set ps \<union> {brk h..}"
  shows "others rrep h ps h' ps'"
  unfolding others_def
proof (intro allI impI)
  fix r rs ys assume r: "rrep h r rs ys" and d: "set rs \<inter> set ps = {}"
  then obtain xs where xs: "dlrep h r rs xs" "map req_of xs = ys" by (auto simp: rrep_def)
  have b: "p < brk h" if "p \<in> set rs" for p using r that by (rule rrep_below_brk)
  then have "dlrep h' r rs xs"
    using dlrep_frame [OF xs(1) assms(1)] assms(2) d by blast
  moreover have "set rs \<inter> set ps' = {}" using assms(3) d b by force
  ultimately show "rrep h' r rs ys \<and> set rs \<inter> set ps' = {}"
    using xs(2) by (auto simp: rrep_def)
qed

lemma find_req_linked:
  assumes "linked h b ps" and "map (\<lambda>p. map_option bare (cells h p)) ps = map Some xs"
  shows "find_req (hd_opt ps) h d i = Some ((d, i) \<in> set (map req_of xs))"
  using assms
proof (induction ps arbitrary: b xs)
  case Nil
  then show ?case by (simp add: find_req.simps)
next
  case (Cons p ps)
  then obtain n y ys where n: "cells h p = Some n" "d_next n = hd_opt ps" "xs = y # ys" "bare n = y"
    and l: "linked h (Some p) ps" "map (\<lambda>p. map_option bare (cells h p)) ps = map Some ys"
    by (cases xs) auto
  have "req_of y = (r_deviceNo n, r_ip2macNo n)" using n(4) by (auto simp: req_of_def bare_def)
  then show ?case
    using n Cons.IH [OF l] by (subst hd_opt_simps, subst find_req.simps) auto
qed

lemma find_req_rrep: "rrep h q ps rs \<Longrightarrow> find_req (q_top q) h d i = Some ((d, i) \<in> set rs)"
  by (auto simp: rrep_def dlrep_def find_req_linked)

text \<open>What \<open>AppendSendReqData\<close> adds: nothing if the request is pending, or a call fails.\<close>

definition add_req :: "os \<Rightarrow> nat \<times> nat \<Rightarrow> (nat \<times> nat) list \<Rightarrow> (nat \<times> nat) list" where
  "add_req e r rs =
     (if o_lock_req e = 0 \<and> r \<notin> set rs \<and> o_malloc_req e then rs @ [r] else rs)"

lemma AppendSendReqData_rep:
  assumes rep: "rrep (reqs s) (SendReq s) ps rs"
  shows "\<exists>h q ps'. AppendSendReqData e d i s =
      Some (if o_lock_req e \<noteq> 0 then -1 else if (d, i) \<in> set rs then 1
            else if o_malloc_req e then 0 else -1, s\<lparr>reqs := h, SendReq := q\<rparr>) \<and>
    rrep h q ps' (add_req e (d, i) rs) \<and> others rrep (reqs s) ps h ps'"
proof (cases "o_lock_req e = 0 \<and> (d, i) \<notin> set rs \<and> o_malloc_req e")
  case False
  have "others rrep (reqs s) ps (reqs s) ps" by (auto simp: others_def)
  moreover have "s = s\<lparr>reqs := reqs s, SendReq := SendReq s\<rparr>" by simp
  moreover have "AppendSendReqData e d i s = Some (if o_lock_req e \<noteq> 0 then -1 else
      if (d, i) \<in> set rs then 1 else -1, s)"
    using False by (auto simp: AppendSendReqData_def find_req_rrep [OF rep])
  ultimately show ?thesis
    using False rep by (intro exI [of _ "reqs s"] exI [of _ "SendReq s"] exI [of _ ps])
      (auto simp: add_req_def)
next
  case True
  obtain xs where xs: "dlrep (reqs s) (SendReq s) ps xs" "map req_of xs = rs"
    using rep by (auto simp: rrep_def)
  let ?d = "brk (reqs s)"
  let ?n = "\<lparr>d_next = None, d_before = None, r_deviceNo = d, r_ip2macNo = i\<rparr>"
  obtain h1 where h1: "halloc ?n (reqs s) = (?d, h1)" by (simp add: halloc_def)
  have fresh: "?d \<notin> set ps" using dlrep_below_brk [OF xs(1)] by blast
  have c1: "cells h1 ?d = Some ?n" "\<forall>p. p \<noteq> ?d \<longrightarrow> cells h1 p = cells (reqs s) p"
    using h1 by (auto simp: halloc_def)
  have "heap_ok h1" using xs(1) heap_ok_halloc [OF _ h1] by (simp add: dlrep_def)
  moreover have "\<forall>p \<in> set ps. cells h1 p = cells (reqs s) p" using c1(2) fresh by metis
  ultimately have r1: "dlrep h1 (SendReq s) ps xs" by (rule dlrep_frame [OF xs(1)])
  let ?q = "SendReq s\<lparr>q_top := hd_opt (ps @ [?d]), q_bottom := Some ?d\<rparr>"
  obtain h2 where h2: "dl_append ?d h1 (SendReq s) = Some (h2, ?q)"
    "dlrep h2 ?q (ps @ [?d]) (xs @ [bare ?n])"
    "\<forall>p. p \<notin> set (ps @ [?d]) \<longrightarrow> cells h2 p = cells h1 p"
    using dl_append_rep [OF r1 c1(1) fresh] by auto
  have "AppendSendReqData e d i s = Some (0, s\<lparr>reqs := h2, SendReq := ?q\<rparr>)"
    using True h1 h2(1) by (simp add: AppendSendReqData_def find_req_rrep [OF rep])
  moreover have "map req_of (xs @ [bare ?n]) = add_req e (d, i) rs"
    using True xs(2) by (simp add: add_req_def req_of_def bare_def)
  then have "rrep h2 ?q (ps @ [?d]) (add_req e (d, i) rs)" using h2(2) by (auto simp: rrep_def)
  moreover have "heap_ok h2" using h2(2) by (simp add: dlrep_def)
  then have "others rrep (reqs s) ps h2 (ps @ [?d])"
    by (rule rrep_others) (use h2(3) c1(2) in auto)
  ultimately show ?thesis using True by fastforce
qed

lemma GetSendReqData_Nil:
  "rrep (reqs s) (SendReq s) ps [] \<Longrightarrow> GetSendReqData lock s = Some (None, s)"
  by (simp add: GetSendReqData_def rrep_top_None)

lemma GetSendReqData_Cons:
  assumes rep: "rrep (reqs s) (SendReq s) ps (r # rs)"
  shows "\<exists>h q. GetSendReqData 0 s = Some (Some r, s\<lparr>reqs := h, SendReq := q\<rparr>) \<and>
    rrep h q (tl ps) rs \<and> others rrep (reqs s) ps h (tl ps) \<and> dom (cells (reqs s)) \<subseteq> dom (cells h)"
proof -
  obtain x xs where xs: "dlrep (reqs s) (SendReq s) ps (x # xs)" "req_of x = r" "map req_of xs = rs"
    using rep by (auto simp: rrep_def)
  then obtain p qs where ps: "ps = p # qs" using dlrep_length by (cases ps) fastforce+
  let ?q = "SendReq s\<lparr>q_top := hd_opt qs, q_bottom := last_opt qs\<rparr>"
  obtain h n where h: "dl_pop (reqs s) (SendReq s) = Some (p, h, ?q)" "dlrep h ?q qs xs"
    "cells h p = Some n" "bare n = x" "\<forall>r. r \<notin> set qs \<longrightarrow> cells h r = cells (reqs s) r"
    using dl_pop_rep [OF xs(1) [unfolded ps]] by blast
  have "q_top (SendReq s) \<noteq> None" using dlrep_top_None [OF xs(1)] by simp
  moreover have "(r_deviceNo n, r_ip2macNo n) = r" using xs(2) h(4) by (auto simp: req_of_def bare_def)
  ultimately have "GetSendReqData 0 s = Some (Some r, s\<lparr>reqs := h, SendReq := ?q\<rparr>)"
    using h(1,3) by (simp add: GetSendReqData_def)
  moreover have "rrep h ?q qs rs" using h(2) xs(3) by (auto simp: rrep_def)
  moreover have "heap_ok h" using h(2) by (simp add: dlrep_def)
  then have "others rrep (reqs s) ps h qs"
    by (rule rrep_others) (use h(5) ps in auto)
  moreover have "dom (cells (reqs s)) \<subseteq> dom (cells h)"
  proof
    fix r assume "r \<in> dom (cells (reqs s))"
    then show "r \<in> dom (cells h)"
      using h(5) dlrep_allocated [OF h(2), of r] by (cases "r \<in> set qs") auto
  qed
  ultimately show ?thesis using ps by auto
qed

text \<open>The request queue satisfies the queue contract for requests that are not pending yet.\<close>

definition req_ok :: os where
  "req_ok = \<lparr>o_now = 0, o_lock_sd = (\<lambda>_. 0), o_lock_req = 0, o_malloc_req = True,
     o_malloc_table = True, o_send = send_ok 0\<rparr>"

definition req_admits :: "SEND_REQ_DATA heap \<Rightarrow> dlq \<Rightarrow> nat \<times> nat \<Rightarrow> bool" where
  "req_admits h q r \<longleftrightarrow> find_req (q_top q) h (fst r) (snd r) = Some False"

definition req_enq :: "router \<Rightarrow> nat \<times> nat \<Rightarrow> SEND_REQ_DATA heap \<Rightarrow> dlq \<Rightarrow> (SEND_REQ_DATA heap \<times> dlq) option"
  where
  "req_enq s r h q = map_option (\<lambda>(_, s). (reqs s, SendReq s))
     (AppendSendReqData req_ok (fst r) (snd r) (s\<lparr>reqs := h, SendReq := q\<rparr>))"

definition req_deq :: "router \<Rightarrow> SEND_REQ_DATA heap \<Rightarrow> dlq \<Rightarrow>
    ((nat \<times> nat) option \<times> SEND_REQ_DATA heap \<times> dlq) option" where
  "req_deq s h q = map_option (\<lambda>(r, s). (r, reqs s, SendReq s))
     (GetSendReqData 0 (s\<lparr>reqs := h, SendReq := q\<rparr>))"

interpretation reqq: fifo rrep req_admits "req_enq s" "req_deq s" for s
proof
  fix h q ps xs x
  assume rep: "rrep h q ps xs" and "req_admits h q x"
  then have new: "x \<notin> set xs" by (simp add: req_admits_def find_req_rrep)
  have rep': "rrep (reqs (s\<lparr>reqs := h, SendReq := q\<rparr>)) (SendReq (s\<lparr>reqs := h, SendReq := q\<rparr>)) ps xs"
    using rep by simp
  from AppendSendReqData_rep [OF rep', of req_ok "fst x" "snd x"]
  show "\<exists>h' q' ps'. req_enq s x h q = Some (h', q') \<and> rrep h' q' ps' (xs @ [x]) \<and>
      others rrep h ps h' ps'"
    using new by (auto simp: req_enq_def req_ok_def add_req_def)
next
  fix h q ps assume "rrep h q ps []"
  then show "req_deq s h q = Some (None, h, q)" by (simp add: req_deq_def GetSendReqData_Nil)
next
  fix h q ps x xs assume "rrep h q ps (x # xs)"
  then have "rrep (reqs (s\<lparr>reqs := h, SendReq := q\<rparr>)) (SendReq (s\<lparr>reqs := h, SendReq := q\<rparr>)) ps (x # xs)"
    by simp
  from GetSendReqData_Cons [OF this]
  show "\<exists>h' q' ps'. req_deq s h q = Some (Some x, h', q') \<and> rrep h' q' ps' xs \<and>
      others rrep h ps h' ps'"
    by (auto simp: req_deq_def)
qed

section \<open>The invariant\<close>

definition slots :: "router \<Rightarrow> (nat \<times> nat) set" where
  "slots s = {(d, i). d < 2 \<and> i < length (t_data (Ip2Macs s d))}"

definition ent :: "router \<Rightarrow> nat \<times> nat \<Rightarrow> IP2MAC" where
  "ent s k = t_data (Ip2Macs s (fst k)) ! snd k"

definition live :: "router \<Rightarrow> nat \<times> nat \<Rightarrow> bool" where
  "live s k \<longleftrightarrow> k \<in> slots s \<and> i_flag (ent s k) \<noteq> FLAG_FREE"

definition tables_ok :: "router \<Rightarrow> bool" where
  "tables_ok s \<longleftrightarrow> (\<forall>d < 2. length (t_data (Ip2Macs s d)) = t_no (Ip2Macs s d) \<and>
     t_no (Ip2Macs s d) \<le> t_size (Ip2Macs s d))"

text \<open>No two entries in use of one table have the same address.\<close>

definition unique_addr :: "router \<Rightarrow> bool" where
  "unique_addr s \<longleftrightarrow> (\<forall>k l. live s k \<and> live s l \<and> fst k = fst l \<and>
     i_addr (ent s k) = i_addr (ent s l) \<longrightarrow> k = l)"

definition queues_ok ::
  "router \<Rightarrow> (nat \<times> nat \<Rightarrow> nat list) \<Rightarrow> (nat \<times> nat \<Rightarrow> bytes list) \<Rightarrow> bool" where
  "queues_ok s P X \<longleftrightarrow> family sdrep (bufs s) (slots s) (\<lambda>k. i_sd (ent s k)) P X"

definition counts_ok :: "router \<Rightarrow> (nat \<times> nat \<Rightarrow> bytes list) \<Rightarrow> bool" where
  "counts_ok s X \<longleftrightarrow> (\<forall>k. live s k \<longrightarrow> sd_counts (i_sd (ent s k)) (X k))"

definition reqs_ok :: "router \<Rightarrow> (nat \<times> nat) list \<Rightarrow> bool" where
  "reqs_ok s R \<longleftrightarrow> (\<exists>ps. rrep (reqs s) (SendReq s) ps R) \<and> distinct R \<and> set R \<subseteq> slots s"

definition inv :: "router \<Rightarrow> (nat \<times> nat \<Rightarrow> bytes list) \<Rightarrow> (nat \<times> nat) list \<Rightarrow> bool" where
  "inv s X R \<longleftrightarrow> tables_ok s \<and> unique_addr s \<and> heap_ok (bufs s) \<and> (\<exists>P. queues_ok s P X) \<and>
     counts_ok s X \<and> reqs_ok s R"

text \<open>What the table operations never change\<close>

definition same_world :: "router \<Rightarrow> router \<Rightarrow> bool" where
  "same_world s s' \<longleftrightarrow> Device s' = Device s \<and> NextRouter s' = NextRouter s \<and>
     EndFlag s' = EndFlag s \<and> out s' = out s"

definition same_shape :: "router \<Rightarrow> router \<Rightarrow> bool" where
  "same_shape s s' \<longleftrightarrow> same_world s s' \<and>
     (\<forall>d. t_no (Ip2Macs s' d) = t_no (Ip2Macs s d) \<and> t_size (Ip2Macs s' d) = t_size (Ip2Macs s d) \<and>
        length (t_data (Ip2Macs s' d)) = length (t_data (Ip2Macs s d)))"

lemma same_world_refl [simp]: "same_world s s"
  by (simp add: same_world_def)

lemma same_world_trans: "same_world s t \<Longrightarrow> same_world t u \<Longrightarrow> same_world s u"
  by (simp add: same_world_def)

lemma same_shape_refl [simp]: "same_shape s s"
  by (simp add: same_shape_def)

lemma same_shape_trans: "same_shape s t \<Longrightarrow> same_shape t u \<Longrightarrow> same_shape s u"
  by (auto simp: same_shape_def intro: same_world_trans)

lemma same_shape_slots: "same_shape s s' \<Longrightarrow> slots s' = slots s"
  by (simp add: same_shape_def slots_def)

lemma same_shape_tables_ok: "same_shape s s' \<Longrightarrow> tables_ok s' = tables_ok s"
  by (simp add: same_shape_def tables_ok_def)

lemma same_shape_t_no: "same_shape s s' \<Longrightarrow> t_no (Ip2Macs s' d) = t_no (Ip2Macs s d)"
  by (simp add: same_shape_def)

subsection \<open>Entries\<close>

lemma entry_ent: "(d, i) \<in> slots s \<Longrightarrow> entry s d i = Some (ent s (d, i))"
  by (simp add: entry_def slots_def ent_def)

lemma live_slot: "live s k \<Longrightarrow> k \<in> slots s"
  by (simp add: live_def)

lemma slots_put [simp]: "slots (put_entry d i m s) = slots s"
  by (auto simp: slots_def put_entry_def split: if_splits)

lemma same_shape_put: "same_shape s (put_entry d i m s)"
  by (simp add: same_shape_def same_world_def put_entry_def)

lemma ent_put: "(d, i) \<in> slots s \<Longrightarrow> ent (put_entry d i m s) k = (if k = (d, i) then m else ent s k)"
  by (cases k) (auto simp: ent_def put_entry_def slots_def nth_list_update)

lemma put_entry_fields [simp]:
  "bufs (put_entry d i m s) = bufs s" "reqs (put_entry d i m s) = reqs s"
  "SendReq (put_entry d i m s) = SendReq s" "out (put_entry d i m s) = out s"
  "Device (put_entry d i m s) = Device s" "NextRouter (put_entry d i m s) = NextRouter s"
  "EndFlag (put_entry d i m s) = EndFlag s"
  by (simp_all add: put_entry_def)

lemma ent_bufs [simp]:
  "ent (s\<lparr>bufs := h\<rparr>) k = ent s k" "ent (s\<lparr>reqs := r\<rparr>) k = ent s k"
  "ent (s\<lparr>SendReq := q\<rparr>) k = ent s k" "ent (s\<lparr>out := w\<rparr>) k = ent s k"
  by (simp_all add: ent_def)

lemma slots_bufs [simp]:
  "slots (s\<lparr>bufs := h\<rparr>) = slots s" "slots (s\<lparr>reqs := r\<rparr>) = slots s"
  "slots (s\<lparr>SendReq := q\<rparr>) = slots s" "slots (s\<lparr>out := w\<rparr>) = slots s"
  by (simp_all add: slots_def)

lemma queues_ok_slot:
  "queues_ok s P X \<Longrightarrow> k \<in> slots s \<Longrightarrow> sdrep (bufs s) (i_sd (ent s k)) (P k) (X k)"
  by (simp add: queues_ok_def family_def)

lemma inv_slot:
  "inv s X R \<Longrightarrow> k \<in> slots s \<Longrightarrow> \<exists>ps. sdrep (bufs s) (i_sd (ent s k)) ps (X k)"
  by (auto simp: inv_def dest: queues_ok_slot)

lemma inv_top: "inv s X R \<Longrightarrow> k \<in> slots s \<Longrightarrow> q_top (i_sd (ent s k)) = None \<longleftrightarrow> X k = []"
  using inv_slot sdrep_top_None by metis

lemma inv_counts: "inv s X R \<Longrightarrow> live s k \<Longrightarrow> sd_counts (i_sd (ent s k)) (X k)"
  unfolding inv_def counts_ok_def by blast

lemma inv_dno: "inv s X R \<Longrightarrow> live s k \<Longrightarrow> dno (i_sd (ent s k)) = 0 \<longleftrightarrow> X k = []"
  using inv_counts [of s X R k] by (simp add: sd_counts_def unat_eq_zero [symmetric])

subsection \<open>One step on one entry\<close>

text \<open>
  Replacing entry \<open>k\<close> by \<open>m\<close>, with a heap in which its queue holds \<open>ys\<close> and the others are
  as before.
\<close>

lemma inv_update:
  assumes inv: "inv s X R" and k: "(d, i) \<in> slots s" and Q: "queues_ok s P X"
    and new: "sdrep h (i_sd m) ps ys" and frame: "others sdrep (bufs s) (P (d, i)) h ps"
    and counts: "i_flag m \<noteq> FLAG_FREE \<Longrightarrow> sd_counts (i_sd m) ys"
    and uniq: "i_flag m \<noteq> FLAG_FREE \<Longrightarrow>
      (live s (d, i) \<and> i_addr m = i_addr (ent s (d, i))) \<or>
      (\<forall>j. live s (d, j) \<and> j \<noteq> i \<longrightarrow> i_addr (ent s (d, j)) \<noteq> i_addr m)"
  shows "inv (put_entry d i m (s\<lparr>bufs := h\<rparr>)) (X((d, i) := ys)) R"
proof -
  let ?s = "put_entry d i m (s\<lparr>bufs := h\<rparr>)" and ?k = "(d, i)"
  have e: "ent ?s l = (if l = ?k then m else ent s l)" for l using k by (simp add: ent_put)
  have lv: "live ?s l \<longleftrightarrow> (if l = ?k then i_flag m \<noteq> FLAG_FREE else live s l)" for l
    using k e by (auto simp: live_def)
  have "tables_ok ?s"
    using inv by (auto simp: inv_def tables_ok_def put_entry_def)
  moreover have "unique_addr ?s"
    unfolding unique_addr_def
  proof (intro allI impI)
    fix l l' assume a: "live ?s l \<and> live ?s l' \<and> fst l = fst l' \<and> i_addr (ent ?s l) = i_addr (ent ?s l')"
    have u: "live s l \<and> live s l' \<and> fst l = fst l' \<and> i_addr (ent s l) = i_addr (ent s l') \<Longrightarrow> l = l'" for l l'
      using inv unfolding inv_def unique_addr_def by blast
    show "l = l'"
    proof (cases "l = ?k \<or> l' = ?k")
      case False
      with a u show ?thesis by (simp add: e lv)
    next
      case True
      then obtain j where j: "{l, l'} = {?k, (d, j)}" using a by (cases l; cases l') auto
      show ?thesis
      proof (rule ccontr)
        assume "l \<noteq> l'"
        with j have ne: "j \<noteq> i" by auto
        have "live s (d, j)" "i_addr (ent s (d, j)) = i_addr m" "i_flag m \<noteq> FLAG_FREE"
          using a j ne by (auto simp: e lv doubleton_eq_iff split: if_splits)
        with uniq ne u [of ?k "(d, j)"] show False by auto
      qed
    qed
  qed
  moreover have "heap_ok (bufs ?s)" using new by (simp add: sdrep_heap_ok)
  moreover have "queues_ok ?s (P(?k := ps)) (X(?k := ys))"
  proof -
    have "family sdrep h (slots s) ((\<lambda>l. i_sd (ent s l))(?k := i_sd m)) (P(?k := ps)) (X(?k := ys))"
      using Q k new frame unfolding queues_ok_def by (rule family_update)
    moreover have "(\<lambda>l. i_sd (ent s l))(?k := i_sd m) = (\<lambda>l. i_sd (ent ?s l))"
      by (auto simp: e)
    ultimately show ?thesis by (simp add: queues_ok_def)
  qed
  moreover have "counts_ok ?s (X(?k := ys))"
    using inv counts by (auto simp: counts_ok_def inv_def lv e)
  moreover have "reqs_ok ?s R" using inv by (simp add: inv_def reqs_ok_def)
  ultimately show ?thesis unfolding inv_def by blast
qed

text \<open>A write that leaves the queue and the address of an entry in use alone\<close>

lemma inv_touch:
  assumes inv: "inv s X R" and k: "live s (d, i)"
    and m: "i_sd m = i_sd (ent s (d, i))" "i_addr m = i_addr (ent s (d, i))"
  shows "inv (put_entry d i m s) X R"
proof -
  have sl: "(d, i) \<in> slots s" using k by (rule live_slot)
  obtain P where Q: "queues_ok s P X" using inv by (auto simp: inv_def)
  have "inv (put_entry d i m (s\<lparr>bufs := bufs s\<rparr>)) (X((d, i) := X (d, i))) R"
    using inv sl Q
  proof (rule inv_update)
    show "sdrep (bufs s) (i_sd m) (P (d, i)) (X (d, i))"
      using queues_ok_slot [OF Q sl] m by simp
    show "others sdrep (bufs s) (P (d, i)) (bufs s) (P (d, i))" by (simp add: others_def)
    show "sd_counts (i_sd m) (X (d, i))" using inv_counts [OF inv k] m by simp
  qed (use k m in simp_all)
  then show ?thesis by simp
qed

text \<open>Expiry of an entry\<close>

definition freed_frames :: "os \<Rightarrow> nat \<Rightarrow> bytes list \<Rightarrow> bytes list" where
  "freed_frames e i fs = (if o_lock_sd e i = 0 then [] else fs)"

text \<open>Freeing an entry keeps its addresses.\<close>

definition same_peer :: "IP2MAC \<Rightarrow> IP2MAC \<Rightarrow> bool" where
  "same_peer m m' \<longleftrightarrow> i_addr m' = i_addr m \<and> i_hwaddr m' = i_hwaddr m"

lemma same_peer_refl [simp]: "same_peer m m"
  by (simp add: same_peer_def)

lemma same_peer_trans: "same_peer m m' \<Longrightarrow> same_peer m' m'' \<Longrightarrow> same_peer m m''"
  by (simp add: same_peer_def)

lemma inv_free_entry:
  assumes inv: "inv s X R" and k: "(d, i) \<in> slots s"
  shows "\<exists>s'. free_entry e d i s = Some s' \<and>
    inv s' (X((d, i) := freed_frames e i (X (d, i)))) R \<and> same_shape s s' \<and>
    (\<forall>l. l \<noteq> (d, i) \<longrightarrow> ent s' l = ent s l) \<and> i_flag (ent s' (d, i)) = FLAG_FREE \<and>
    same_peer (ent s (d, i)) (ent s' (d, i)) \<and> SendReq s' = SendReq s \<and> reqs s' = reqs s"
proof -
  obtain P where Q: "queues_ok s P X" using inv by (auto simp: inv_def)
  let ?m = "ent s (d, i)"
  have rep: "sdrep (bufs s) (i_sd ?m) (P (d, i)) (X (d, i))" using Q k by (rule queues_ok_slot)
  have "\<exists>r h sd ps. FreeSendData (o_lock_sd e i) (bufs s) (i_sd ?m) = Some (r, h, sd) \<and>
    sdrep h sd ps (freed_frames e i (X (d, i))) \<and> others sdrep (bufs s) (P (d, i)) h ps"
  proof (cases "o_lock_sd e i = 0")
    case True
    then show ?thesis using FreeSendData_ok [OF rep] by (auto simp: freed_frames_def)
  next
    case False
    moreover have "others sdrep (bufs s) (P (d, i)) (bufs s) (P (d, i))" by (simp add: others_def)
    ultimately show ?thesis
      using rep FreeSendData_locked [OF rep] by (auto simp: freed_frames_def)
  qed
  then obtain r h sd ps where F: "FreeSendData (o_lock_sd e i) (bufs s) (i_sd ?m) = Some (r, h, sd)"
    "sdrep h sd ps (freed_frames e i (X (d, i)))" "others sdrep (bufs s) (P (d, i)) h ps"
    by blast
  let ?s = "put_entry d i (?m\<lparr>i_sd := sd, i_flag := FLAG_FREE\<rparr>) (s\<lparr>bufs := h\<rparr>)"
  have "free_entry e d i s = Some ?s" using F(1) k by (simp add: free_entry_def entry_ent)
  moreover have "inv ?s (X((d, i) := freed_frames e i (X (d, i)))) R"
    using inv k Q by (rule inv_update) (use F in simp_all)
  moreover have "same_shape s ?s" by (simp add: same_shape_def same_world_def put_entry_def)
  ultimately show ?thesis using k by (auto simp: ent_put same_peer_def)
qed

text \<open>Posting a request\<close>

lemma inv_AppendSendReqData:
  assumes inv: "inv s X R" and k: "(d, i) \<in> slots s"
  shows "\<exists>c s'. AppendSendReqData e d i s = Some (c, s') \<and> inv s' X (add_req e (d, i) R) \<and>
    same_shape s s' \<and> (\<forall>l. ent s' l = ent s l)"
proof -
  obtain ps where "rrep (reqs s) (SendReq s) ps R" using inv by (auto simp: inv_def reqs_ok_def)
  from AppendSendReqData_rep [OF this, of e d i] obtain c h q ps' where
    A: "AppendSendReqData e d i s = Some (c, s\<lparr>reqs := h, SendReq := q\<rparr>)"
    "rrep h q ps' (add_req e (d, i) R)"
    by blast
  let ?s = "s\<lparr>reqs := h, SendReq := q\<rparr>"
  have l: "live ?s k = live s k" for k by (simp add: live_def)
  have "inv ?s X (add_req e (d, i) R)"
    using inv A(2) k
    by (auto simp: inv_def tables_ok_def unique_addr_def queues_ok_def counts_ok_def reqs_ok_def
        add_req_def l)
  then show ?thesis using A(1) by (auto simp: same_shape_def same_world_def)
qed

section \<open>The search\<close>

text \<open>
  An entry in use with the address searched for ends the search, unless no MAC address is given
  and the entry is an expired \<open>FLAG_NG\<close> one. (A \<open>FLAG_OK\<close> entry is never expired here: its
  \<open>lastTime\<close> was set to \<open>now\<close> just before the test.)
\<close>

definition resolves :: "os \<Rightarrow> mac option \<Rightarrow> IP2MAC \<Rightarrow> bool" where
  "resolves e hw m \<longleftrightarrow> hw \<noteq> None \<or> \<not> (i_flag m = FLAG_NG \<and> expired (o_now e) m)"

definition touch :: "os \<Rightarrow> IP2MAC \<Rightarrow> IP2MAC" where
  "touch e m = (if i_flag m = FLAG_OK then m\<lparr>i_lastTime := o_now e\<rparr> else m)"

definition hit_entry :: "os \<Rightarrow> mac option \<Rightarrow> IP2MAC \<Rightarrow> IP2MAC" where
  "hit_entry e hw m = (case hw of None \<Rightarrow> touch e m
     | Some mac \<Rightarrow> (touch e m)\<lparr>i_hwaddr := mac, i_flag := FLAG_OK\<rparr>)"

text \<open>What may have happened to an entry the search passed over\<close>

definition swept :: "os \<Rightarrow> nat \<Rightarrow> router \<Rightarrow> (nat \<times> nat \<Rightarrow> bytes list) \<Rightarrow> router \<Rightarrow>
    (nat \<times> nat \<Rightarrow> bytes list) \<Rightarrow> nat \<times> nat \<Rightarrow> bool" where
  "swept e d s X s' X' k \<longleftrightarrow> (ent s' k = ent s k \<and> X' k = X k) \<or>
     (fst k = d \<and> expired (o_now e) (ent s k) \<and> i_flag (ent s' k) = FLAG_FREE \<and>
      same_peer (ent s k) (ent s' k) \<and> X' k = freed_frames e (snd k) (X k))"

lemma expired_live: "expired now m \<Longrightarrow> i_flag m \<noteq> FLAG_FREE"
  by (auto simp: expired_def)

lemma swept_refl [simp]: "swept e d s X s X k"
  by (simp add: swept_def)

lemma swept_trans:
  "swept e d s X t Y k \<Longrightarrow> swept e d t Y u Z k \<Longrightarrow> swept e d s X u Z k"
  by (auto simp: swept_def dest: expired_live)

lemma swept_live:
  "swept e d s X s' X' k \<Longrightarrow> i_flag (ent s' k) \<noteq> FLAG_FREE \<Longrightarrow> ent s' k = ent s k \<and> X' k = X k"
  by (auto simp: swept_def)

lemma touch_simps [simp]:
  "i_sd (touch e m) = i_sd m" "i_addr (touch e m) = i_addr m" "i_flag (touch e m) = i_flag m"
  by (simp_all add: touch_def)

lemma hit_entry_simps [simp]:
  "i_sd (hit_entry e hw m) = i_sd m" "i_addr (hit_entry e hw m) = i_addr m"
  by (simp_all add: hit_entry_def split: option.splits)

lemma expired_touch: "expired (o_now e) (touch e m) \<longleftrightarrow> i_flag m = FLAG_NG \<and> expired (o_now e) m"
  by (auto simp: touch_def expired_def IP2MAC_TIMEOUT_SEC_def)

text \<open>The outcome of the loop over the indices \<open>is\<close>\<close>

definition loop_post ::
  "os \<Rightarrow> nat \<Rightarrow> in_addr_t \<Rightarrow> mac option \<Rightarrow> nat list \<Rightarrow> nat option \<Rightarrow> router \<Rightarrow>
   (nat \<times> nat \<Rightarrow> bytes list) \<Rightarrow> (nat \<times> nat) list \<Rightarrow> nat + nat option \<Rightarrow> router \<Rightarrow>
   (nat \<times> nat \<Rightarrow> bytes list) \<Rightarrow> (nat \<times> nat) list \<Rightarrow> bool"
  where
  "loop_post e d a hw is freeNo s X R r s' X' R' \<longleftrightarrow>
     inv s' X' R' \<and> same_shape s s' \<and>
     (\<forall>k. fst k \<noteq> d \<or> snd k \<notin> set is \<longrightarrow> ent s' k = ent s k \<and> X' k = X k) \<and>
     (case r of
        Inl i \<Rightarrow> i \<in> set is \<and> live s (d, i) \<and> i_addr (ent s (d, i)) = a \<and>
          resolves e hw (ent s (d, i)) \<and> ent s' (d, i) = hit_entry e hw (ent s (d, i)) \<and>
          X' (d, i) = X (d, i) \<and>
          R' = (if hw \<noteq> None \<and> X (d, i) \<noteq> [] then add_req e (d, i) R else R) \<and>
          (\<forall>k. k \<noteq> (d, i) \<longrightarrow> swept e d s X s' X' k)
      | Inr f \<Rightarrow> R' = R \<and> (\<forall>k. swept e d s X s' X' k) \<and>
          (\<forall>j \<in> set is. live s (d, j) \<and> i_addr (ent s (d, j)) = a \<longrightarrow>
             \<not> resolves e hw (ent s (d, j)) \<and> \<not> live s' (d, j)) \<and>
          (\<forall>j \<in> set is. live s' (d, j) \<longrightarrow> \<not> expired (o_now e) (ent s' (d, j))) \<and>
          (case f of
             None \<Rightarrow> freeNo = None \<and> (\<forall>j \<in> set is. live s' (d, j))
           | Some j \<Rightarrow> (freeNo = Some j \<or> j \<in> set is) \<and> (d, j) \<in> slots s \<and> \<not> live s' (d, j)))"

definition free_ok :: "router \<Rightarrow> nat \<Rightarrow> nat option \<Rightarrow> bool" where
  "free_ok s d freeNo \<longleftrightarrow> (\<forall>j. freeNo = Some j \<longrightarrow> (d, j) \<in> slots s \<and> \<not> live s (d, j))"

text \<open>Passing over index \<open>i\<close>, possibly freeing it, then running the rest of the loop\<close>

lemma loop_post_frame:
  assumes rest: "loop_post e d a hw is freeNo' t Y R r s' X' R'"
    and t: "same_shape s t" "\<forall>k. swept e d s X t Y k" "\<forall>k. k \<noteq> (d, i) \<longrightarrow> ent t k = ent s k"
    and i: "i \<notin> set is"
  shows "inv s' X' R'" and "same_shape s s'" and "slots t = slots s"
    and "ent s' (d, i) = ent t (d, i)" and "live s' (d, i) = live t (d, i)"
    and "k \<noteq> (d, i) \<Longrightarrow> ent t k = ent s k \<and> Y k = X k \<and> live t k = live s k"
    and "\<forall>k. fst k \<noteq> d \<or> snd k \<notin> set (i # is) \<longrightarrow> ent s' k = ent s k \<and> X' k = X k"
proof -
  have R: "same_shape t s'"
    "\<forall>k. fst k \<noteq> d \<or> snd k \<notin> set is \<longrightarrow> ent s' k = ent t k \<and> X' k = Y k"
    using rest by (simp_all add: loop_post_def)
  show "inv s' X' R'" using rest by (simp add: loop_post_def)
  show shape: "same_shape s s'" using t(1) R(1) by (rule same_shape_trans)
  show sl: "slots t = slots s" using t(1) by (rule same_shape_slots)
  show "ent s' (d, i) = ent t (d, i)" using R(2) i by simp
  then show "live s' (d, i) = live t (d, i)" using sl same_shape_slots [OF shape] by (simp add: live_def)
  have same: "ent t k = ent s k \<and> Y k = X k" if "k \<noteq> (d, i)" for k
    using t(2,3) that unfolding swept_def by (metis expired_live)
  then show "k \<noteq> (d, i) \<Longrightarrow> ent t k = ent s k \<and> Y k = X k \<and> live t k = live s k"
    using sl by (simp add: live_def)
  show "\<forall>k. fst k \<noteq> d \<or> snd k \<notin> set (i # is) \<longrightarrow> ent s' k = ent s k \<and> X' k = X k"
    using R(2) same by auto
qed

lemma loop_post_Cons:
  assumes rest: "loop_post e d a hw is freeNo' t Y R r s' X' R'"
    and t: "same_shape s t" "\<forall>k. swept e d s X t Y k" "\<forall>k. k \<noteq> (d, i) \<longrightarrow> ent t k = ent s k"
    and i: "i \<notin> set is" "(d, i) \<in> slots s"
    and a: "live s (d, i) \<and> i_addr (ent s (d, i)) = a \<Longrightarrow>
      \<not> resolves e hw (ent s (d, i)) \<and> \<not> live t (d, i)"
    and x: "live t (d, i) \<Longrightarrow> \<not> expired (o_now e) (ent t (d, i))"
    and f: "freeNo' = (if \<not> live t (d, i) \<and> freeNo = None then Some i else freeNo)"
  shows "loop_post e d a hw (i # is) freeNo s X R r s' X' R'"
proof -
  note F = loop_post_frame [OF rest t i(1)]
  note same = F(6)
  show ?thesis
  proof (cases r)
    case (Inl j)
    with rest have P: "j \<in> set is" "live t (d, j)" "i_addr (ent t (d, j)) = a"
      "resolves e hw (ent t (d, j))" "ent s' (d, j) = hit_entry e hw (ent t (d, j))"
      "X' (d, j) = Y (d, j)"
      "R' = (if hw \<noteq> None \<and> Y (d, j) \<noteq> [] then add_req e (d, j) R else R)"
      "\<forall>k. k \<noteq> (d, j) \<longrightarrow> swept e d t Y s' X' k"
      by (simp_all add: loop_post_def)
    have "j \<noteq> i" using P(1) i(1) by auto
    then have j: "ent t (d, j) = ent s (d, j)" "Y (d, j) = X (d, j)" "live s (d, j)"
      using same [of "(d, j)"] P(2) by auto
    have "\<forall>k. k \<noteq> (d, j) \<longrightarrow> swept e d s X s' X' k"
      using P(8) t(2) swept_trans by blast
    then show ?thesis
      using P j F(1,2,7) Inl by (simp add: loop_post_def)
  next
    case (Inr g)
    with rest have P: "R' = R" "\<forall>k. swept e d t Y s' X' k"
      "\<forall>j \<in> set is. live t (d, j) \<and> i_addr (ent t (d, j)) = a \<longrightarrow>
         \<not> resolves e hw (ent t (d, j)) \<and> \<not> live s' (d, j)"
      "\<forall>j \<in> set is. live s' (d, j) \<longrightarrow> \<not> expired (o_now e) (ent s' (d, j))"
      "case g of None \<Rightarrow> freeNo' = None \<and> (\<forall>j \<in> set is. live s' (d, j))
       | Some j \<Rightarrow> (freeNo' = Some j \<or> j \<in> set is) \<and> (d, j) \<in> slots t \<and> \<not> live s' (d, j)"
      by (simp_all add: loop_post_def)
    have "\<forall>k. swept e d s X s' X' k" using P(2) t(2) swept_trans by blast
    moreover have "\<forall>j \<in> set (i # is). live s (d, j) \<and> i_addr (ent s (d, j)) = a \<longrightarrow>
        \<not> resolves e hw (ent s (d, j)) \<and> \<not> live s' (d, j)"
    proof
      fix j assume "j \<in> set (i # is)"
      then show "live s (d, j) \<and> i_addr (ent s (d, j)) = a \<longrightarrow>
          \<not> resolves e hw (ent s (d, j)) \<and> \<not> live s' (d, j)"
        using a F(5) P(3) same [of "(d, j)"] by (cases "j = i") auto
    qed
    moreover have "\<forall>j \<in> set (i # is). live s' (d, j) \<longrightarrow> \<not> expired (o_now e) (ent s' (d, j))"
      using P(4) F(4,5) x by auto
    moreover have "case g of None \<Rightarrow> freeNo = None \<and> (\<forall>j \<in> set (i # is). live s' (d, j))
       | Some j \<Rightarrow> (freeNo = Some j \<or> j \<in> set (i # is)) \<and> (d, j) \<in> slots s \<and> \<not> live s' (d, j)"
      using P(5) f F(3,5) by (auto split: option.splits if_splits)
    ultimately show ?thesis
      using P(1) F(1,2,7) Inr by (simp add: loop_post_def)
  qed
qed

lemma loop_post_Nil:
  "inv s X R \<Longrightarrow> free_ok s d freeNo \<Longrightarrow> loop_post e d a hw [] freeNo s X R (Inr freeNo) s X R"
  by (auto simp: loop_post_def free_ok_def split: option.splits)

lemma put_same: "(d, i) \<in> slots s \<Longrightarrow> put_entry d i (ent s (d, i)) s = s"
  by (simp add: put_entry_def ent_def)

lemma live_put:
  "(d, i) \<in> slots s \<Longrightarrow>
   live (put_entry d i m s) k \<longleftrightarrow> (if k = (d, i) then i_flag m \<noteq> FLAG_FREE else live s k)"
  by (auto simp: live_def ent_put)

text \<open>Freeing an expired entry is passing over it.\<close>

lemma free_step:
  assumes inv: "inv s X R" and k: "(d, i) \<in> slots s" and ex: "expired (o_now e) (ent s (d, i))"
  shows "\<exists>t Y. free_entry e d i s = Some t \<and> inv t Y R \<and> same_shape s t \<and>
    (\<forall>k. swept e d s X t Y k) \<and> (\<forall>k. k \<noteq> (d, i) \<longrightarrow> ent t k = ent s k) \<and> \<not> live t (d, i)"
proof -
  from inv_free_entry [OF inv k, of e] obtain t where t: "free_entry e d i s = Some t"
    "inv t (X((d, i) := freed_frames e i (X (d, i)))) R" "same_shape s t"
    "\<forall>l. l \<noteq> (d, i) \<longrightarrow> ent t l = ent s l" "i_flag (ent t (d, i)) = FLAG_FREE"
    "same_peer (ent s (d, i)) (ent t (d, i))"
    by blast
  have "\<forall>k. swept e d s X t (X((d, i) := freed_frames e i (X (d, i)))) k"
    using t(4-6) ex by (auto simp: swept_def)
  then show ?thesis using t by (auto simp: live_def)
qed

text \<open>Ending the search at an entry in use with the address, when the MAC address is asked for\<close>

lemma hit_step_ask:
  assumes inv: "inv s X R" and lv: "live s (d, i)" and a: "i_addr (ent s (d, i)) = a"
    and res: "resolves e None (ent s (d, i))"
  shows "\<exists>s'. search_loop e d a None (i # is) freeNo s = Some (Inl i, s') \<and>
    loop_post e d a None (i # is) freeNo s X R (Inl i) s' X R"
proof -
  let ?m = "ent s (d, i)" and ?s = "put_entry d i (touch e (ent s (d, i))) s"
  have k: "(d, i) \<in> slots s" using lv by (rule live_slot)
  have fl: "i_flag ?m \<noteq> FLAG_FREE" using lv by (simp add: live_def)
  have "inv ?s X R" using inv lv by (rule inv_touch) simp_all
  moreover have "\<not> expired (o_now e) (touch e ?m)"
    using res by (simp add: resolves_def expired_touch)
  then have "search_loop e d a None (i # is) freeNo s = Some (Inl i, ?s)"
    using k fl a by (simp add: entry_ent touch_def [symmetric] Let_def)
  ultimately show ?thesis
    using k lv a res same_shape_put
    by (intro exI [of _ ?s]) (auto simp: loop_post_def ent_put hit_entry_def swept_def)
qed

text \<open>And when it is learnt: the entry takes it, and a request is posted if frames wait.\<close>

lemma hit_step_learn:
  assumes inv: "inv s X R" and lv: "live s (d, i)" and a: "i_addr (ent s (d, i)) = a"
  shows "\<exists>s' R'. search_loop e d a (Some mac) (i # is) freeNo s = Some (Inl i, s') \<and>
    loop_post e d a (Some mac) (i # is) freeNo s X R (Inl i) s' X R'"
proof -
  let ?m = "ent s (d, i)"
  let ?s1 = "put_entry d i (touch e ?m) s" and ?h = "(touch e ?m)\<lparr>i_hwaddr := mac, i_flag := FLAG_OK\<rparr>"
  define s2 where "s2 = put_entry d i ?h ?s1"
  have k: "(d, i) \<in> slots s" using lv by (rule live_slot)
  have fl: "i_flag ?m \<noteq> FLAG_FREE" using lv by (simp add: live_def)
  have inv1: "inv ?s1 X R" using inv lv by (rule inv_touch) simp_all
  have lv1: "live ?s1 (d, i)" using k fl by (simp add: live_put)
  have inv2: "inv s2 X R"
    unfolding s2_def using inv1 lv1 by (rule inv_touch) (simp_all add: ent_put k)
  have e2: "ent s2 l = (if l = (d, i) then hit_entry e (Some mac) ?m else ent s l)" for l
    using k by (simp add: s2_def ent_put hit_entry_def)
  have sh2: "same_shape s s2" unfolding s2_def using same_shape_put same_shape_trans by blast
  have step: "search_loop e d a (Some mac) (i # is) freeNo s = do {
      s \<leftarrow> (if q_top (i_sd ?m) \<noteq> None then map_option snd (AppendSendReqData e d i s2) else Some s2);
      Some (Inl i, s) }"
    using k fl a by (simp add: entry_ent touch_def [symmetric] Let_def s2_def)
  have top: "q_top (i_sd ?m) = None \<longleftrightarrow> X (d, i) = []" using inv_top [OF inv k] by simp
  have res: "resolves e (Some mac) ?m" by (simp add: resolves_def)
  show ?thesis
  proof (cases "X (d, i) = []")
    case True
    then have "search_loop e d a (Some mac) (i # is) freeNo s = Some (Inl i, s2)"
      unfolding step using top by simp
    moreover have "loop_post e d a (Some mac) (i # is) freeNo s X R (Inl i) s2 X R"
      using inv2 sh2 lv a res True by (auto simp: loop_post_def e2 swept_def)
    ultimately show ?thesis by blast
  next
    case False
    have "(d, i) \<in> slots s2" using k by (simp add: s2_def)
    from inv_AppendSendReqData [OF inv2 this, of e] obtain c s3 where
      s3: "AppendSendReqData e d i s2 = Some (c, s3)" "inv s3 X (add_req e (d, i) R)"
      "same_shape s2 s3" "\<forall>l. ent s3 l = ent s2 l"
      by blast
    have "search_loop e d a (Some mac) (i # is) freeNo s = Some (Inl i, s3)"
      unfolding step using top False s3(1) by simp
    moreover have "loop_post e d a (Some mac) (i # is) freeNo s X R (Inl i) s3 X (add_req e (d, i) R)"
      using s3(2,4) same_shape_trans [OF sh2 s3(3)] lv a res False
      by (auto simp: loop_post_def e2 swept_def)
    ultimately show ?thesis by blast
  qed
qed

lemma hit_step:
  assumes "inv s X R" and "live s (d, i)" and "i_addr (ent s (d, i)) = a"
    and "resolves e hw (ent s (d, i))"
  shows "\<exists>s' R'. search_loop e d a hw (i # is) freeNo s = Some (Inl i, s') \<and>
    loop_post e d a hw (i # is) freeNo s X R (Inl i) s' X R'"
proof (cases hw)
  case None
  with hit_step_ask [OF assms(1-3)] assms(4) show ?thesis by blast
next
  case (Some mac)
  with hit_step_learn [OF assms(1-3)] show ?thesis by blast
qed

text \<open>The search runs to its end, and does what \<open>loop_post\<close> says.\<close>

definition searched ::
  "os \<Rightarrow> nat \<Rightarrow> in_addr_t \<Rightarrow> mac option \<Rightarrow> nat list \<Rightarrow> nat option \<Rightarrow> router \<Rightarrow>
   (nat \<times> nat \<Rightarrow> bytes list) \<Rightarrow> (nat \<times> nat) list \<Rightarrow> bool" where
  "searched e d a hw is freeNo s X R \<longleftrightarrow>
     (\<exists>r s' X' R'. search_loop e d a hw is freeNo s = Some (r, s') \<and>
        loop_post e d a hw is freeNo s X R r s' X' R')"

text \<open>Freeing entry \<open>i\<close> and searching on\<close>

lemma searched_free:
  assumes inv: "inv s X R" and k: "(d, i) \<in> slots s" and i: "i \<notin> set is"
    and slots: "\<forall>j \<in> set is. (d, j) \<in> slots s" and fok: "free_ok s d freeNo"
    and ex: "expired (o_now e) (ent s (d, i))"
    and nres: "i_addr (ent s (d, i)) = a \<Longrightarrow> \<not> resolves e hw (ent s (d, i))"
    and eq: "search_loop e d a hw (i # is) freeNo s =
      Option.bind (free_entry e d i s) (search_loop e d a hw is (if freeNo = None then Some i else freeNo))"
    and IH: "\<And>t Y f. inv t Y R \<Longrightarrow> \<forall>j \<in> set is. (d, j) \<in> slots t \<Longrightarrow> free_ok t d f \<Longrightarrow>
      searched e d a hw is f t Y R"
  shows "searched e d a hw (i # is) freeNo s X R"
proof -
  let ?f = "if freeNo = None then Some i else freeNo"
  from free_step [OF inv k ex] obtain t Y where t: "free_entry e d i s = Some t"
    "inv t Y R" "same_shape s t" "\<forall>k. swept e d s X t Y k"
    "\<forall>k. k \<noteq> (d, i) \<longrightarrow> ent t k = ent s k" "\<not> live t (d, i)"
    by blast
  have sl: "slots t = slots s" using t(3) by (rule same_shape_slots)
  have "\<forall>j \<in> set is. (d, j) \<in> slots t" using slots sl by simp
  moreover have "\<forall>l. live t l \<longrightarrow> live s l" using t(5,6) sl by (metis live_def)
  then have "free_ok t d ?f" using fok k t(6) sl by (auto simp: free_ok_def)
  ultimately obtain r s' X' R' where r: "search_loop e d a hw is ?f t = Some (r, s')"
    "loop_post e d a hw is ?f t Y R r s' X' R'"
    using IH [OF t(2)] unfolding searched_def by blast
  have "loop_post e d a hw (i # is) freeNo s X R r s' X' R'"
    using r(2) t(3-5) i k by (rule loop_post_Cons) (use nres t(6) in simp_all)
  then show ?thesis unfolding searched_def using eq t(1) r(1) by auto
qed

text \<open>Passing over entry \<open>i\<close>\<close>

lemma searched_pass:
  assumes inv: "inv s X R" and k: "(d, i) \<in> slots s" and i: "i \<notin> set is"
    and slots: "\<forall>j \<in> set is. (d, j) \<in> slots s" and fok: "free_ok s d freeNo"
    and lv: "live s (d, i) \<Longrightarrow> i_addr (ent s (d, i)) \<noteq> a \<and> \<not> expired (o_now e) (ent s (d, i))"
    and eq: "search_loop e d a hw (i # is) freeNo s = search_loop e d a hw is
      (if \<not> live s (d, i) \<and> freeNo = None then Some i else freeNo) s"
    and IH: "\<And>t Y f. inv t Y R \<Longrightarrow> \<forall>j \<in> set is. (d, j) \<in> slots t \<Longrightarrow> free_ok t d f \<Longrightarrow>
      searched e d a hw is f t Y R"
  shows "searched e d a hw (i # is) freeNo s X R"
proof -
  let ?g = "if \<not> live s (d, i) \<and> freeNo = None then Some i else freeNo"
  have "free_ok s d ?g" using fok k by (auto simp: free_ok_def)
  then obtain r s' X' R' where r: "search_loop e d a hw is ?g s = Some (r, s')"
    "loop_post e d a hw is ?g s X R r s' X' R'"
    using IH [OF inv slots] unfolding searched_def by blast
  have "loop_post e d a hw (i # is) freeNo s X R r s' X' R'"
    using r(2) by (rule loop_post_Cons) (use i k lv in auto)
  then show ?thesis unfolding searched_def using eq r(1) by auto
qed

lemma search_loop_post:
  assumes "inv s X R" and "distinct is" and "\<forall>j \<in> set is. (d, j) \<in> slots s" and "free_ok s d freeNo"
  shows "searched e d a hw is freeNo s X R"
  using assms
proof (induction "is" arbitrary: s X freeNo)
  case Nil
  then show ?case using loop_post_Nil by (fastforce simp: searched_def)
next
  case (Cons i "is")
  let ?m = "ent s (d, i)"
  have k: "(d, i) \<in> slots s" and i: "i \<notin> set is" and sl: "\<forall>j \<in> set is. (d, j) \<in> slots s"
    using Cons.prems by simp_all
  note [simp] = entry_ent [OF k]
  have IH: "searched e d a hw is f t Y R"
    if "inv t Y R" "\<forall>j \<in> set is. (d, j) \<in> slots t" "free_ok t d f" for t Y f
    using Cons.IH [OF that(1) _ that(2,3)] Cons.prems(2) by simp
  note free = searched_free [OF Cons.prems(1) k i sl Cons.prems(4) _ _ _ IH]
  note pass = searched_pass [OF Cons.prems(1) k i sl Cons.prems(4) _ _ IH]
  consider (unused) "\<not> live s (d, i)" | (hit) "live s (d, i)" "i_addr ?m = a" "resolves e hw ?m"
    | (old) "live s (d, i)" "i_addr ?m = a" "\<not> resolves e hw ?m"
    | (other) "live s (d, i)" "i_addr ?m \<noteq> a" by blast
  then show ?case
  proof cases
    case unused
    with k have "i_flag ?m = FLAG_FREE" by (simp add: live_def)
    with unused show ?thesis by (intro pass) simp_all
  next
    case hit
    with hit_step [OF Cons.prems(1)] show ?thesis unfolding searched_def by blast
  next
    case old
    then have n: "hw = None" "i_flag ?m = FLAG_NG" "expired (o_now e) ?m"
      by (simp_all add: resolves_def)
    show ?thesis by (rule free) (use n old in \<open>simp_all add: put_same [OF k] Let_def\<close>)
  next
    case other
    then have fl: "i_flag ?m \<noteq> FLAG_FREE" by (simp add: live_def)
    show ?thesis
    proof (cases "expired (o_now e) ?m")
      case True
      show ?thesis by (rule free) (use True other fl in simp_all)
    next
      case False
      show ?thesis by (rule pass) (use False other fl in simp_all)
    qed
  qed
qed

subsection \<open>Installing an entry\<close>

lemma init_entry_simps [simp]:
  "i_sd (init_entry e d a hw) = sd_empty" "i_addr (init_entry e d a hw) = a"
  by (simp_all add: init_entry_def)

lemma init_entry_live [simp]: "i_flag (init_entry e d a hw) \<noteq> FLAG_FREE"
  by (simp add: init_entry_def split: option.splits)

lemma inv_reuse:
  assumes inv: "inv s X R" and k: "(d, i) \<in> slots s"
    and uniq: "\<forall>j. live s (d, j) \<and> j \<noteq> i \<longrightarrow> i_addr (ent s (d, j)) \<noteq> a"
  shows "inv (put_entry d i (init_entry e d a hw) s) (X((d, i) := [])) R"
proof -
  obtain P where Q: "queues_ok s P X" using inv by (auto simp: inv_def)
  have "inv (put_entry d i (init_entry e d a hw) (s\<lparr>bufs := bufs s\<rparr>)) (X((d, i) := [])) R"
    using inv k Q
  proof (rule inv_update)
    show "sdrep (bufs s) (i_sd (init_entry e d a hw)) [] []" using inv by (simp add: inv_def)
    show "others sdrep (bufs s) (P (d, i)) (bufs s) []" by (simp add: others_def)
  qed (use uniq in auto)
  then show ?thesis by simp
qed

definition push_entry :: "nat \<Rightarrow> IP2MACS \<Rightarrow> IP2MAC \<Rightarrow> router \<Rightarrow> router" where
  "push_entry d t m s =
     s\<lparr>Ip2Macs := (Ip2Macs s)(d := t\<lparr>t_no := t_no t + 1, t_data := t_data t @ [m]\<rparr>)\<rparr>"

lemma inv_push:
  fixes hw :: "mac option"
  assumes inv: "inv s X R" and d: "d < 2"
    and t: "grow e (Ip2Macs s d) = Some t"
    and uniq: "\<forall>j. live s (d, j) \<longrightarrow> i_addr (ent s (d, j)) \<noteq> a"
    and n: "n = t_no (Ip2Macs s d)" and s': "s' = push_entry d t (init_entry e d a hw) s"
  shows "inv s' (X((d, n) := [])) R \<and> same_world s s' \<and>
    slots s' = insert (d, n) (slots s) \<and> (d, n) \<notin> slots s \<and>
    ent s' (d, n) = init_entry e d a hw \<and> (\<forall>k \<in> slots s. ent s' k = ent s k)"
proof -
  have tt: "t_no t = n" "t_data t = t_data (Ip2Macs s d)" "length (t_data (Ip2Macs s d)) = n"
    "n < t_size t"
    using t inv d by (auto simp: grow_def n inv_def tables_ok_def split: if_splits)
  have new: "(d, n) \<notin> slots s" using tt(3) by (simp add: slots_def)
  have sl: "slots s' = insert (d, n) (slots s)"
    using tt d by (auto simp: slots_def s' push_entry_def less_Suc_eq split: if_splits)
  have en: "ent s' (d, n) = init_entry e d a hw"
    using tt by (simp add: ent_def s' push_entry_def nth_append)
  have eo: "ent s' k = ent s k" if "k \<in> slots s" for k
    using that tt by (cases k) (auto simp: ent_def s' push_entry_def nth_append slots_def)
  have lv: "live s' k \<longleftrightarrow> k = (d, n) \<or> live s k" for k
    by (cases "k = (d, n)"; cases "k \<in> slots s")
      (use new in \<open>simp_all add: live_def sl en eo init_entry_live\<close>)
  have other: "bufs s' = bufs s" "reqs s' = reqs s" "SendReq s' = SendReq s" "same_world s s'"
    by (simp_all add: s' push_entry_def same_world_def)
  obtain P where Q: "queues_ok s P X" using inv by (auto simp: inv_def)
  have "tables_ok s'"
    using inv tt by (auto simp: inv_def tables_ok_def s' push_entry_def)
  moreover have "unique_addr s'"
    unfolding unique_addr_def
  proof (intro allI impI)
    fix k l assume h: "live s' k \<and> live s' l \<and> fst k = fst l \<and> i_addr (ent s' k) = i_addr (ent s' l)"
    have u: "live s k \<and> live s l \<and> fst k = fst l \<and> i_addr (ent s k) = i_addr (ent s l) \<Longrightarrow> k = l"
      using inv unfolding inv_def unique_addr_def by blast
    show "k = l"
      using h u uniq en eo lv live_slot new by (cases k; cases l) (metis init_entry_simps(2) fst_conv)
  qed
  moreover have "queues_ok s' (P((d, n) := [])) (X((d, n) := []))"
    using Q inv new en eo sl other
    by (auto simp: queues_ok_def family_def inv_def)
  moreover have "counts_ok s' (X((d, n) := []))"
    using inv lv en eo new live_slot by (auto simp: inv_def counts_ok_def)
  moreover have "reqs_ok s' R" using inv other sl by (auto simp: inv_def reqs_ok_def)
  ultimately show ?thesis using inv other sl new en eo by (auto simp: inv_def)
qed

subsection \<open>\<open>Ip2MacSearch\<close>\<close>

text \<open>
  The entry the search returns is in use and has the address. Either it was there (a hit) or it
  is installed afresh with an empty queue; every other entry is kept, or was expired and is free.
\<close>

definition is_hit :: "os \<Rightarrow> nat \<Rightarrow> in_addr_t \<Rightarrow> mac option \<Rightarrow> router \<Rightarrow> nat \<Rightarrow> bool" where
  "is_hit e d a hw s i \<longleftrightarrow>
     live s (d, i) \<and> i_addr (ent s (d, i)) = a \<and> resolves e hw (ent s (d, i))"

definition others_post ::
  "os \<Rightarrow> nat \<Rightarrow> nat \<Rightarrow> router \<Rightarrow> (nat \<times> nat \<Rightarrow> bytes list) \<Rightarrow> router \<Rightarrow>
   (nat \<times> nat \<Rightarrow> bytes list) \<Rightarrow> bool" where
  "others_post e d i s X s' X' \<longleftrightarrow>
     (\<forall>k. k \<noteq> (d, i) \<and> live s' k \<longrightarrow> live s k \<and> ent s' k = ent s k \<and> X' k = X k) \<and>
     (\<forall>k. k \<noteq> (d, i) \<and> live s k \<and> \<not> live s' k \<longrightarrow> fst k = d \<and> expired (o_now e) (ent s k) \<and>
        X' k = freed_frames e (snd k) (X k)) \<and>
     (\<forall>k. k \<noteq> (d, i) \<longrightarrow> X' k = X k \<or> X' k = []) \<and>
     (\<forall>k \<in> slots s. k \<noteq> (d, i) \<longrightarrow> same_peer (ent s k) (ent s' k))"

text \<open>
  A search that finds nothing frees all other entries whose time is over, and takes a new place
  only when all others are in use.
\<close>

definition clean_post :: "os \<Rightarrow> nat \<Rightarrow> nat \<Rightarrow> router \<Rightarrow> router \<Rightarrow> bool" where
  "clean_post e d i s s' \<longleftrightarrow>
     (\<forall>j. j \<noteq> i \<and> live s' (d, j) \<longrightarrow> \<not> expired (o_now e) (ent s' (d, j))) \<and>
     ((d, i) \<notin> slots s \<longrightarrow> (\<forall>j. (d, j) \<in> slots s \<longrightarrow> live s' (d, j)))"

text \<open>
  The array keeps its size, or it was full of entries in use, and is so again with the new entry
  in the place behind them.
\<close>

definition table_post :: "router \<Rightarrow> router \<Rightarrow> bool" where
  "table_post s s' \<longleftrightarrow> (\<forall>d < 2. t_size (Ip2Macs s' d) = t_size (Ip2Macs s d) \<or>
     t_no (Ip2Macs s d) = t_size (Ip2Macs s d) \<and>
     t_size (Ip2Macs s' d) = t_size (Ip2Macs s d) + 1024 \<and>
     (\<forall>i \<le> t_size (Ip2Macs s d). live s' (d, i)))"

lemma same_shape_table_post: "same_shape s s' \<Longrightarrow> table_post s s'"
  by (simp add: same_shape_def table_post_def)

definition search_post ::
  "os \<Rightarrow> nat \<Rightarrow> in_addr_t \<Rightarrow> mac option \<Rightarrow> router \<Rightarrow> (nat \<times> nat \<Rightarrow> bytes list) \<Rightarrow>
   (nat \<times> nat) list \<Rightarrow> nat \<Rightarrow> router \<Rightarrow> (nat \<times> nat \<Rightarrow> bytes list) \<Rightarrow> (nat \<times> nat) list \<Rightarrow> bool"
  where
  "search_post e d a hw s X R i s' X' R' \<longleftrightarrow>
     inv s' X' R' \<and> same_world s s' \<and> live s' (d, i) \<and> i_addr (ent s' (d, i)) = a \<and>
     (if \<exists>j. is_hit e d a hw s j
      then is_hit e d a hw s i \<and> ent s' (d, i) = hit_entry e hw (ent s (d, i)) \<and>
        X' (d, i) = X (d, i) \<and>
        R' = (if hw \<noteq> None \<and> X (d, i) \<noteq> [] then add_req e (d, i) R else R)
      else ent s' (d, i) = init_entry e d a hw \<and> X' (d, i) = [] \<and> R' = R \<and>
        (live s (d, i) \<longrightarrow> expired (o_now e) (ent s (d, i))) \<and> clean_post e d i s s') \<and>
     others_post e d i s X s' X' \<and> slots s' = insert (d, i) (slots s) \<and> table_post s s'"

lemma swept_live_slot:
  assumes "swept e d s X s' X' k" and "slots s' = slots s"
  shows "live s' k \<Longrightarrow> live s k \<and> ent s' k = ent s k \<and> X' k = X k"
    and "live s k \<Longrightarrow> \<not> live s' k \<Longrightarrow> fst k = d \<and> expired (o_now e) (ent s k) \<and>
      X' k = freed_frames e (snd k) (X k)"
  using assms by (auto simp: swept_def live_def)

lemma swept_others:
  assumes "\<forall>k. k \<noteq> (d, i) \<longrightarrow> swept e d s X t Y k" and "slots t = slots s"
    and "\<forall>k. k \<noteq> (d, i) \<longrightarrow> live s' k = live t k \<and> (k \<in> slots t \<longrightarrow> ent s' k = ent t k) \<and> X' k = Y k"
  shows "others_post e d i s X s' X'"
  unfolding others_post_def
proof (intro conjI allI ballI impI; (elim conjE)?)
  fix k assume k: "k \<noteq> (d, i)" "live s' k"
  have sw: "swept e d s X t Y k" and k': "live s' k = live t k"
    "live t k \<longrightarrow> ent s' k = ent t k" "X' k = Y k"
    using assms(1,3) k(1) live_slot by blast+
  then show "live s k" "ent s' k = ent s k" "X' k = X k"
    using swept_live_slot(1) [OF sw assms(2)] k(2) by auto
next
  fix k assume k: "k \<noteq> (d, i)" "live s k" "\<not> live s' k"
  have sw: "swept e d s X t Y k" and k': "live s' k = live t k" "X' k = Y k"
    using assms(1,3) k(1) by blast+
  then show "fst k = d" "expired (o_now e) (ent s k)" "X' k = freed_frames e (snd k) (X k)"
    using swept_live_slot(2) [OF sw assms(2)] k by auto
next
  fix k assume k: "k \<noteq> (d, i)"
  have "swept e d s X t Y k" "X' k = Y k" using assms(1,3) k by blast+
  then show "X' k = X k \<or> X' k = []" by (auto simp: swept_def freed_frames_def split: if_splits)
next
  fix k assume k: "k \<in> slots s" "k \<noteq> (d, i)"
  with assms(2) have "k \<in> slots t" by simp
  then have "swept e d s X t Y k" "ent s' k = ent t k" using assms(1,3) k(2) by blast+
  then show "same_peer (ent s k) (ent s' k)" by (auto simp: swept_def)
qed

lemma is_hit_unique: "inv s X R \<Longrightarrow> is_hit e d a hw s i \<Longrightarrow> is_hit e d a hw s j \<Longrightarrow> i = j"
  unfolding inv_def unique_addr_def is_hit_def by (metis Pair_inject fst_conv)

lemma Ip2MacSearch_hit:
  assumes L: "loop_post e d a hw is None s X R (Inl i) s1 X1 R1"
  shows "search_post e d a hw s X R i s1 X1 R1"
proof -
  have P: "inv s1 X1 R1" "same_shape s s1" using L unfolding loop_post_def by blast+
  have sl: "slots s1 = slots s" using P(2) by (rule same_shape_slots)
  have hit: "is_hit e d a hw s i" and ei: "ent s1 (d, i) = hit_entry e hw (ent s (d, i))"
    "X1 (d, i) = X (d, i)" "R1 = (if hw \<noteq> None \<and> X (d, i) \<noteq> [] then add_req e (d, i) R else R)"
    and sw: "\<forall>k. k \<noteq> (d, i) \<longrightarrow> swept e d s X s1 X1 k"
    using L unfolding loop_post_def is_hit_def sum.case by blast+
  have "live s1 (d, i)"
    using hit ei sl by (auto simp: live_def is_hit_def hit_entry_def split: option.splits)
  moreover have "i_addr (ent s1 (d, i)) = a" using hit ei by (simp add: is_hit_def)
  moreover have "others_post e d i s X s1 X1" using sw sl by (rule swept_others) simp
  moreover have "\<exists>j. is_hit e d a hw s j" using hit ..
  moreover have "same_world s s1" using P(2) by (simp add: same_shape_def)
  ultimately show ?thesis
    using P(1) hit ei same_shape_table_post [OF P(2)] sl live_slot
    by (auto simp: search_post_def is_hit_def)
qed

lemma Ip2MacSearch_install:
  assumes inv: "inv s X R" and L: "loop_post e d a hw is None s X R (Inr f) s1 X1 R1"
    and all: "\<forall>j. (d, j) \<in> slots s \<longrightarrow> j \<in> set is"
    and s': "inv s' (X1((d, i) := [])) R" "same_world s1 s'" "ent s' (d, i) = init_entry e d a hw"
      "slots s' = insert (d, i) (slots s1)" "\<forall>k \<in> slots s1. k \<noteq> (d, i) \<longrightarrow> ent s' k = ent s1 k"
    and i: "\<not> live s1 (d, i)" and tb: "table_post s1 s'"
    and new: "(d, i) \<notin> slots s1 \<Longrightarrow> \<forall>j. (d, j) \<in> slots s1 \<longrightarrow> live s1 (d, j)"
  shows "search_post e d a hw s X R i s' (X1((d, i) := [])) R"
proof -
  have P: "same_shape s s1" "\<forall>k. swept e d s X s1 X1 k"
    "\<forall>j \<in> set is. live s (d, j) \<and> i_addr (ent s (d, j)) = a \<longrightarrow> \<not> resolves e hw (ent s (d, j))"
    using L by (simp_all add: loop_post_def)
  have sl: "slots s1 = slots s" using P(1) by (rule same_shape_slots)
  have "\<not> (\<exists>j. is_hit e d a hw s j)" using P(3) all live_slot by (auto simp: is_hit_def)
  moreover have "others_post e d i s X s' (X1((d, i) := []))"
    using P(2) by (intro swept_others [where t = s1 and Y = X1]) (use sl s'(4,5) in \<open>auto simp: live_def\<close>)
  moreover have "live s (d, i) \<longrightarrow> expired (o_now e) (ent s (d, i))"
    using swept_live_slot(2) [OF _ sl, of e d X X1 "(d, i)"] P(2) i by blast
  moreover have "same_world s s'"
    using P(1) s'(2) same_world_trans by (auto simp: same_shape_def)
  moreover have "\<forall>j \<in> set is. live s1 (d, j) \<longrightarrow> \<not> expired (o_now e) (ent s1 (d, j))"
    using L by (simp add: loop_post_def)
  then have "clean_post e d i s s'"
    using all new s'(4,5) sl by (auto simp: clean_post_def live_def)
  moreover have "table_post s s'" using tb P(1) by (simp add: table_post_def same_shape_def)
  ultimately show ?thesis using s' sl by (simp add: search_post_def live_def)
qed

lemma no_addr_left:
  assumes L: "loop_post e d a hw is None s X R (Inr f) s1 X1 R1"
    and all: "\<forall>j. (d, j) \<in> slots s \<longrightarrow> j \<in> set is" and lv: "live s1 (d, j)"
  shows "i_addr (ent s1 (d, j)) \<noteq> a"
proof -
  have P: "same_shape s s1" "swept e d s X s1 X1 (d, j)"
    "\<forall>j \<in> set is. live s (d, j) \<and> i_addr (ent s (d, j)) = a \<longrightarrow> \<not> live s1 (d, j)"
    using L by (simp_all add: loop_post_def)
  then show ?thesis
    using swept_live_slot(1) [OF P(2) same_shape_slots [OF P(1)] lv] lv all live_slot by auto
qed

lemma grow_table_post:
  assumes inv: "inv s X R" and d: "d < 2" and t: "grow e (Ip2Macs s d) = Some t"
    and all: "\<forall>j < t_no (Ip2Macs s d). live s (d, j)"
    and new: "slots (push_entry d t m s) = insert (d, t_no (Ip2Macs s d)) (slots s)"
      "ent (push_entry d t m s) (d, t_no (Ip2Macs s d)) = m" "i_flag m \<noteq> FLAG_FREE"
      "\<forall>k \<in> slots s. ent (push_entry d t m s) k = ent s k"
  shows "table_post s (push_entry d t m s)"
proof -
  let ?s = "push_entry d t m s" and ?n = "t_no (Ip2Macs s d)"
  have le: "?n \<le> t_size (Ip2Macs s d)" using inv d by (simp add: inv_def tables_ok_def)
  have other: "t_size (Ip2Macs ?s c) = t_size (Ip2Macs s c)" if "c \<noteq> d" for c
    using that by (simp add: push_entry_def)
  have self: "t_size (Ip2Macs ?s d) = t_size t" by (simp add: push_entry_def)
  have "live ?s (d, i)" if "i \<le> ?n" for i
  proof (cases "i = ?n")
    case False
    then have "live s (d, i)" using all that by simp
    then show ?thesis using new live_slot by (auto simp: live_def)
  qed (use new in \<open>simp add: live_def\<close>)
  moreover have "t_size t = t_size (Ip2Macs s d) \<or>
      ?n = t_size (Ip2Macs s d) \<and> t_size t = t_size (Ip2Macs s d) + 1024"
    using t le by (auto simp: grow_def split: if_splits)
  ultimately show ?thesis
    unfolding table_post_def using other self by metis
qed

lemma free_ok_None: "free_ok s d None"
  by (simp add: free_ok_def)

text \<open>The table grows when all entries are in use.\<close>

lemma Ip2MacSearch_grows:
  assumes inv: "inv s X R" and d: "d < 2" and mem: "o_malloc_table e"
    and na: "\<forall>j. live s (d, j) \<longrightarrow> i_addr (ent s (d, j)) \<noteq> a"
    and all: "\<forall>j < t_no (Ip2Macs s d). live s (d, j)"
  shows "\<exists>t. grow e (Ip2Macs s d) = Some t \<and> t_no t = t_no (Ip2Macs s d) \<and>
    (let n = t_no (Ip2Macs s d); s' = push_entry d t (init_entry e d a hw) s
     in inv s' (X((d, n) := [])) R \<and> same_world s s' \<and> slots s' = insert (d, n) (slots s) \<and>
       ent s' (d, n) = init_entry e d a hw \<and> (\<forall>k \<in> slots s. k \<noteq> (d, n) \<longrightarrow> ent s' k = ent s k) \<and>
       \<not> live s (d, n) \<and> table_post s s' \<and> (\<forall>j. (d, j) \<in> slots s \<longrightarrow> live s (d, j)))"
proof -
  obtain t where t: "grow e (Ip2Macs s d) = Some t"
    using mem by (cases "grow e (Ip2Macs s d)") (auto simp: grow_def split: if_splits)
  let ?n = "t_no (Ip2Macs s d)" and ?s = "push_entry d t (init_entry e d a hw) s"
  have "t_no t = ?n" using t by (auto simp: grow_def split: if_splits)
  moreover have I: "inv ?s (X((d, ?n) := [])) R \<and> same_world s ?s \<and>
      slots ?s = insert (d, ?n) (slots s) \<and> (d, ?n) \<notin> slots s \<and>
      ent ?s (d, ?n) = init_entry e d a hw \<and> (\<forall>k \<in> slots s. ent ?s k = ent s k)"
    using inv d t na by (rule inv_push) simp_all
  moreover have "\<forall>j. (d, j) \<in> slots s \<longrightarrow> live s (d, j)"
    using all inv d by (auto simp: slots_def inv_def tables_ok_def)
  moreover have "table_post s ?s" using inv d t all by (rule grow_table_post) (use I in auto)
  ultimately show ?thesis using t by (auto simp: Let_def live_def)
qed

lemma Ip2MacSearch_post:
  assumes inv: "inv s X R" and d: "d < 2" and mem: "o_malloc_table e"
  shows "\<exists>i s' X' R'. Ip2MacSearch e d a hw s = Some (i, s') \<and> search_post e d a hw s X R i s' X' R'"
proof -
  let ?is = "[0..<t_no (Ip2Macs s d)]"
  have idx: "\<forall>j. (d, j) \<in> slots s \<longrightarrow> j \<in> set ?is" and slot: "\<forall>j \<in> set ?is. (d, j) \<in> slots s"
    using inv d by (auto simp: slots_def inv_def tables_ok_def)
  obtain r s1 X1 R1 where L: "search_loop e d a hw ?is None s = Some (r, s1)"
    "loop_post e d a hw ?is None s X R r s1 X1 R1"
    using search_loop_post [OF inv distinct_upt slot free_ok_None, of e a hw]
    unfolding searched_def by (elim exE conjE) (rule that)
  show ?thesis
  proof (cases r)
    case (Inl i)
    with L Ip2MacSearch_hit show ?thesis by (fastforce simp: Ip2MacSearch_def)
  next
    case (Inr f)
    note L' = L(2) [unfolded Inr]
    have R1: "R1 = R" using L' by (simp add: loop_post_def)
    have P: "inv s1 X1 R" "same_shape s s1" using L' R1 by (simp_all add: loop_post_def)
    have na: "\<forall>j. live s1 (d, j) \<longrightarrow> i_addr (ent s1 (d, j)) \<noteq> a"
      using no_addr_left [OF L' idx] by blast
    show ?thesis
    proof (cases f)
      case (Some i)
      then have i: "(d, i) \<in> slots s1" "\<not> live s1 (d, i)"
        using L' same_shape_slots [OF P(2)] by (simp_all add: loop_post_def)
      let ?s = "put_entry d i (init_entry e d a hw) s1"
      have "Ip2MacSearch e d a hw s = Some (i, ?s)"
        using L(1) Inr Some by (simp add: Ip2MacSearch_def)
      moreover have "inv ?s (X1((d, i) := [])) R" using P(1) i(1) by (rule inv_reuse) (use na in simp)
      then have "search_post e d a hw s X R i ?s (X1((d, i) := [])) R"
        using i same_shape_put [of s1 d i]
        by (intro Ip2MacSearch_install [OF inv L' idx])
          (auto simp: ent_put live_put same_shape_def intro: same_shape_table_post)
      ultimately show ?thesis by blast
    next
      case None
      have "\<forall>j < t_no (Ip2Macs s1 d). live s1 (d, j)"
        using L' None same_shape_t_no [OF P(2)] by (simp add: loop_post_def)
      from Ip2MacSearch_grows [OF P(1) d mem na this] obtain t where
        t: "grow e (Ip2Macs s1 d) = Some t" "t_no t = t_no (Ip2Macs s1 d)" and
        I: "let n = t_no (Ip2Macs s1 d); s' = push_entry d t (init_entry e d a hw) s1
          in inv s' (X1((d, n) := [])) R \<and> same_world s1 s' \<and> slots s' = insert (d, n) (slots s1) \<and>
            ent s' (d, n) = init_entry e d a hw \<and> (\<forall>k \<in> slots s1. k \<noteq> (d, n) \<longrightarrow> ent s' k = ent s1 k) \<and>
            \<not> live s1 (d, n) \<and> table_post s1 s' \<and> (\<forall>j. (d, j) \<in> slots s1 \<longrightarrow> live s1 (d, j))"
        by blast
      have "Ip2MacSearch e d a hw s =
          Some (t_no (Ip2Macs s1 d), push_entry d t (init_entry e d a hw) s1)"
        using L(1) Inr None t by (simp add: Ip2MacSearch_def push_entry_def Let_def)
      moreover have "search_post e d a hw s X R (t_no (Ip2Macs s1 d)) (push_entry d t (init_entry e d a hw) s1)
          (X1((d, t_no (Ip2Macs s1 d)) := [])) R"
        using I by (intro Ip2MacSearch_install [OF inv L' idx]) (simp_all add: Let_def)
      ultimately show ?thesis by blast
    qed
  qed
qed

end
