(* ===== verification/Forward.thy ===== *)
theory Forward
  imports Checksum Structs
begin

text \<open>
  What forwarding does to a frame, as a function on bytes: the header fields it changes, the new
  checksum and the frame sent. \<open>AnalyzePacket\<close> (\<open>router/main.c\<close>) and \<open>BufferSendOne\<close>
  (\<open>router/ip2mac.c\<close>) are both shown to compute it.
\<close>

section \<open>The parts of a frame\<close>

definition eh_of :: "bytes \<Rightarrow> ether_header" where
  "eh_of f = dec_ether_header (take 14 f)"

definition ip_of :: "bytes \<Rightarrow> iphdr" where
  "ip_of f = dec_iphdr (take 20 (drop 14 f))"

definition opts_of :: "bytes \<Rightarrow> bytes" where
  "opts_of f = take (nat (option_len (ip_ihl (ip_of f)))) (drop 34 f)"

text \<open>The frame is long enough for the header length its \<open>ihl\<close> field announces.\<close>

definition complete :: "bytes \<Rightarrow> bool" where
  "complete f \<longleftrightarrow> 34 + nat (option_len (ip_ihl (ip_of f))) \<le> length f"

lemma complete_lengthD: "complete f \<Longrightarrow> 34 \<le> length f"
  by (simp add: complete_def)

lemma length_opts_of:
  "complete f \<Longrightarrow> length (opts_of f) = nat (option_len (ip_ihl (ip_of f)))"
  by (simp add: complete_def opts_of_def)

lemma frame_split:
  assumes "34 \<le> length f"
  shows "f = enc_ether_header (eh_of f) @ enc_iphdr (ip_of f) @ drop 34 f"
proof -
  have "enc_ether_header (eh_of f) = take 14 f" "enc_iphdr (ip_of f) = take 20 (drop 14 f)"
    using assms by (simp_all add: eh_of_def ip_of_def codec_inverse')
  moreover have "f = take 14 f @ take 20 (drop 14 f) @ drop 20 (drop 14 f)"
    by (metis append_take_drop_id)
  ultimately show ?thesis by simp
qed

text \<open>Storing the two headers\<close>

lemma mwrite_eh:
  "14 \<le> length f \<Longrightarrow> mwrite f 0 (enc_ether_header eh) = Some (enc_ether_header eh @ drop 14 f)"
  by (simp add: mwrite_Some)

lemma mwrite_ip:
  "34 \<le> length f \<Longrightarrow> mwrite (enc_ether_header eh @ drop 14 f) 14 (enc_iphdr ih) =
    Some (enc_ether_header eh @ enc_iphdr ih @ drop 34 f)"
  by (simp add: mwrite_Some)

section \<open>The new header\<close>

definition fwd_iphdr :: "iphdr \<Rightarrow> bytes \<Rightarrow> iphdr" where
  "fwd_iphdr ih opts =
     (let ih = ih\<lparr>ip_ttl := ip_ttl ih - 1\<rparr>
      in ih\<lparr>ip_check := checksum2_at 20 (enc_iphdr (ih\<lparr>ip_check := 0\<rparr>) @ opts)\<rparr>)"

text \<open>\<open>checksum2((u_char *)&iphdr, 20, option, optionLen)\<close> for every \<open>optionLen\<close>\<close>

lemma checksum2_header:
  assumes "length opts = nat ol"
  shows "checksum2 (enc_iphdr ih) 20 opts ol = Some (checksum2_at 20 (enc_iphdr ih @ opts))"
proof (cases "0 < ol")
  case True
  then show ?thesis
    using assms checksum2_eq [of 20 "enc_iphdr ih" "nat ol" opts] by (simp add: checksum2_at_def)
next
  case False
  then have o: "opts = []" "ol \<le> 0" using assms by simp_all
  have "checksum (enc_iphdr ih) 20 \<noteq> None" using checksum_eq [of 20 "enc_iphdr ih"] by simp
  then show ?thesis
    using o checksum2_nonpos [of 20 "enc_iphdr ih" ol opts]
      checksum2_nonpos [of 20 "enc_iphdr ih" 0 opts]
    by (simp add: checksum2_at_def)
qed

lemma fwd_iphdr_simps [simp]:
  "ip_ihl (fwd_iphdr ih opts) = ip_ihl ih" "ip_version (fwd_iphdr ih opts) = ip_version ih"
  "ip_tos (fwd_iphdr ih opts) = ip_tos ih" "ip_tot_len (fwd_iphdr ih opts) = ip_tot_len ih"
  "ip_id (fwd_iphdr ih opts) = ip_id ih" "ip_frag_off (fwd_iphdr ih opts) = ip_frag_off ih"
  "ip_ttl (fwd_iphdr ih opts) = ip_ttl ih - 1" "ip_protocol (fwd_iphdr ih opts) = ip_protocol ih"
  "ip_saddr (fwd_iphdr ih opts) = ip_saddr ih" "ip_daddr (fwd_iphdr ih opts) = ip_daddr ih"
  by (simp_all add: fwd_iphdr_def Let_def)

lemma fwd_iphdr_sum: "wsum (enc_iphdr (fwd_iphdr ih opts) @ opts) mod 65535 = 0"
proof -
  let ?h = "ih\<lparr>ip_ttl := ip_ttl ih - 1\<rparr>"
  have e: "enc_iphdr (?h\<lparr>ip_check := c\<rparr>) @ opts = iphdr_pre ?h @ bytes16 c @ (iphdr_post ?h @ opts)"
    for c by (simp add: enc_iphdr_check)
  have ok: "20 \<le> length (iphdr_pre ?h @ bytes16 c @ iphdr_post ?h @ opts)" for c
    by (simp add: iphdr_post_def)
  have "checksum2_at 20 (enc_iphdr (fwd_iphdr ih opts) @ opts) = 0"
    using split20.fill_accepted [of "iphdr_pre ?h" "iphdr_post ?h @ opts"] ok
    by (simp add: fwd_iphdr_def Let_def e del: append_assoc)
  moreover have "20 \<le> length (enc_iphdr (fwd_iphdr ih opts) @ opts)" by simp
  ultimately show ?thesis using split20.accept_iff by blast
qed

text \<open>The next router accepts the header.\<close>

lemma fwd_iphdr_accepted:
  "length opts = nat ol \<Longrightarrow> checkIPchecksum (enc_iphdr (fwd_iphdr ih opts)) opts ol = Some 1"
  by (simp add: checkIPchecksum_iff fwd_iphdr_sum)

section \<open>The frame sent\<close>

text \<open>\<open>shost\<close> is \<open>None\<close> where the code leaves the source address as it was received.\<close>

definition fwd_frame :: "mac \<Rightarrow> mac option \<Rightarrow> bytes \<Rightarrow> bytes" where
  "fwd_frame dhost shost f =
     enc_ether_header ((eh_of f)\<lparr>ether_dhost := dhost,
       ether_shost := (case shost of None \<Rightarrow> ether_shost (eh_of f) | Some m \<Rightarrow> m)\<rparr>) @
     enc_iphdr (fwd_iphdr (ip_of f) (opts_of f)) @ drop 34 f"

lemma length_fwd_frame [simp]: "34 \<le> length f \<Longrightarrow> length (fwd_frame dm sm f) = length f"
  by (simp add: fwd_frame_def)

lemma eh_of_fwd_frame:
  "eh_of (fwd_frame dm sm f) = (eh_of f)\<lparr>ether_dhost := dm,
     ether_shost := (case sm of None \<Rightarrow> ether_shost (eh_of f) | Some m \<Rightarrow> m)\<rparr>"
  by (simp add: eh_of_def fwd_frame_def)

lemma ip_of_fwd_frame: "ip_of (fwd_frame dm sm f) = fwd_iphdr (ip_of f) (opts_of f)"
  by (simp add: ip_of_def fwd_frame_def)

lemma drop_fwd_frame: "drop 34 (fwd_frame dm sm f) = drop 34 f"
  by (simp add: fwd_frame_def)

lemma opts_of_fwd_frame: "opts_of (fwd_frame dm sm f) = opts_of f"
  by (simp add: opts_of_def ip_of_fwd_frame drop_fwd_frame)

lemma complete_fwd_frame: "34 \<le> length f \<Longrightarrow> complete (fwd_frame dm sm f) = complete f"
  by (simp add: complete_def ip_of_fwd_frame)

text \<open>Only the bytes of the frame matter when it is complete.\<close>

lemma ip_of_take: "34 \<le> n \<Longrightarrow> ip_of (take n f) = ip_of f"
  by (simp add: ip_of_def drop_take min_def)

lemma eh_of_take: "14 \<le> n \<Longrightarrow> eh_of (take n f) = eh_of f"
  by (simp add: eh_of_def min_def)

lemma opts_of_take:
  assumes "complete (take n f)"
  shows "opts_of (take n f) = opts_of f"
proof -
  let ?m = "nat (option_len (ip_ihl (ip_of f)))"
  have n: "34 \<le> n" using complete_lengthD [OF assms] by simp
  then have "34 + ?m \<le> n" using assms by (simp add: complete_def ip_of_take)
  then show ?thesis by (simp add: opts_of_def ip_of_take [OF n] drop_take min_def)
qed

lemma fwd_frame_take:
  assumes "complete (take n f)"
  shows "take n (fwd_frame dm sm f) = fwd_frame dm sm (take n f)"
proof -
  have "34 \<le> n" using complete_lengthD [OF assms] by simp
  then show ?thesis
    by (cases sm) (simp_all add: fwd_frame_def ip_of_take eh_of_take opts_of_take [OF assms] drop_take)
qed

text \<open>What a receiver of the forwarded frame finds in it\<close>

lemma fwd_frame_correct:
  assumes c: "complete f" and g_def: "g = fwd_frame dm (Some sm) f"
  shows "eh_of g = \<lparr>ether_dhost = dm, ether_shost = sm, ether_type = ether_type (eh_of f)\<rparr>"
    and "ip_ttl (ip_of g) = ip_ttl (ip_of f) - 1"
    and "(ip_of g)\<lparr>ip_ttl := ip_ttl (ip_of f), ip_check := ip_check (ip_of f)\<rparr> = ip_of f"
    and "checkIPchecksum (enc_iphdr (ip_of g)) (opts_of g) (option_len (ip_ihl (ip_of g))) = Some 1"
    and "drop 34 g = drop 34 f" and "length g = length f"
proof -
  note g = g_def ip_of_fwd_frame
  show "eh_of g = \<lparr>ether_dhost = dm, ether_shost = sm, ether_type = ether_type (eh_of f)\<rparr>"
    by (simp add: g_def eh_of_fwd_frame)
  show "ip_ttl (ip_of g) = ip_ttl (ip_of f) - 1" by (simp add: g)
  show "(ip_of g)\<lparr>ip_ttl := ip_ttl (ip_of f), ip_check := ip_check (ip_of f)\<rparr> = ip_of f"
    by (cases "ip_of f") (simp add: g fwd_iphdr_def Let_def)
  have "length (opts_of f) = nat (option_len (ip_ihl (ip_of g)))"
    using length_opts_of [OF c] by (simp add: g)
  then show "checkIPchecksum (enc_iphdr (ip_of g)) (opts_of g) (option_len (ip_ihl (ip_of g))) = Some 1"
    by (simp add: g opts_of_fwd_frame fwd_iphdr_accepted)
  show "drop 34 g = drop 34 f" "length g = length f"
    using complete_lengthD [OF c] by (simp_all add: g_def drop_fwd_frame)
qed

end
