(* ===== verification/BufferInv.thy ===== *)
theory BufferInv
  imports Ip2MacInv Forward
begin

text \<open>
  \<open>Ip2Mac\<close>, buffering a frame in a table entry, and the buffer thread (\<open>BufferSendOne\<close>, the
  inner loop of \<open>BufferSend\<close>) under the invariant of theory \<open>Ip2MacInv\<close>.
\<close>

section \<open>\<open>Ip2Mac\<close>\<close>

lemma inv_out [simp]: "inv (s\<lparr>out := w\<rparr>) X R = inv s X R"
  by (simp add: inv_def tables_ok_def unique_addr_def queues_ok_def counts_ok_def reqs_ok_def
      live_def)

lemma live_out [simp]: "live (s\<lparr>out := w\<rparr>) k = live s k"
  by (simp add: live_def)

text \<open>The log after \<open>Ip2Mac\<close>: one ARP request is broadcast unless the entry is resolved.\<close>

definition arp_log :: "router \<Rightarrow> nat \<Rightarrow> in_addr_t \<Rightarrow> IP2MAC \<Rightarrow> sent" where
  "arp_log s d a m =
     (if i_flag m = FLAG_OK then out s
      else SendArpRequestB (soc (Device s d)) a bcast (addr (Device s d)) (hwaddr (Device s d))
             (out s))"

lemma Ip2Mac_post:
  assumes "inv s X R" and "d < 2" and "o_malloc_table e"
  shows "\<exists>i t X' R'. search_post e d a hw s X R i t X' R' \<and>
    Ip2Mac e d a hw s = Some (i, t\<lparr>out := arp_log s d a (ent t (d, i))\<rparr>)"
proof -
  from Ip2MacSearch_post [OF assms, of a hw]
  obtain i t X' R' where t: "Ip2MacSearch e d a hw s = Some (i, t)" "search_post e d a hw s X R i t X' R'"
    by blast
  have "(d, i) \<in> slots t" and w: "same_world s t"
    using t(2) live_slot unfolding search_post_def by blast+
  then have "Ip2Mac e d a hw s = Some (i, t\<lparr>out := arp_log s d a (ent t (d, i))\<rparr>)"
    using t(1) by (simp add: Ip2Mac_def entry_ent arp_log_def same_world_def)
  with t(2) show ?thesis by blast
qed

section \<open>Steps on the queue of one entry\<close>

text \<open>
  \<open>q_step s t k ys\<close>: going from \<open>s\<close> to \<open>t\<close>, only the queue of entry \<open>k\<close> changed (and the log).
\<close>

definition q_step :: "router \<Rightarrow> router \<Rightarrow> nat \<times> nat \<Rightarrow> bool" where
  "q_step s t k \<longleftrightarrow> same_shape s (t\<lparr>out := out s\<rparr>) \<and> (\<forall>l. l \<noteq> k \<longrightarrow> ent t l = ent s l) \<and>
     (\<exists>sd. ent t k = (ent s k)\<lparr>i_sd := sd\<rparr>)"

lemma q_step_refl [simp]: "q_step s s k"
  by (auto simp: q_step_def intro: exI [of _ "i_sd (ent s k)"])

lemma q_step_trans:
  assumes a: "q_step s t k" and b: "q_step t u k"
  shows "q_step s u k"
proof -
  have "same_shape s (u\<lparr>out := out s\<rparr>)"
    using a b by (simp add: q_step_def same_shape_def same_world_def)
  moreover have "\<forall>l. l \<noteq> k \<longrightarrow> ent u l = ent s l" using a b unfolding q_step_def by metis
  moreover obtain sd sd' where "ent t k = (ent s k)\<lparr>i_sd := sd\<rparr>" "ent u k = (ent t k)\<lparr>i_sd := sd'\<rparr>"
    using a b unfolding q_step_def by blast
  then have "\<exists>sd. ent u k = (ent s k)\<lparr>i_sd := sd\<rparr>" by auto
  ultimately show ?thesis unfolding q_step_def by blast
qed

lemma q_step_slots: "q_step s t k \<Longrightarrow> slots t = slots s"
  by (auto simp: q_step_def same_shape_def slots_def)

lemma q_step_fields:
  assumes "q_step s t k"
  shows "i_flag (ent t l) = i_flag (ent s l)" "i_addr (ent t l) = i_addr (ent s l)"
    "i_hwaddr (ent t l) = i_hwaddr (ent s l)" "i_lastTime (ent t l) = i_lastTime (ent s l)"
    "Device t = Device s" "NextRouter t = NextRouter s" "EndFlag t = EndFlag s"
proof -
  have "(\<exists>sd. ent t k = (ent s k)\<lparr>i_sd := sd\<rparr>)" "l \<noteq> k \<longrightarrow> ent t l = ent s l"
    using assms unfolding q_step_def by blast+
  then show "i_flag (ent t l) = i_flag (ent s l)" "i_addr (ent t l) = i_addr (ent s l)"
    "i_hwaddr (ent t l) = i_hwaddr (ent s l)" "i_lastTime (ent t l) = i_lastTime (ent s l)"
    by (cases "l = k"; auto)+
  show "Device t = Device s" "NextRouter t = NextRouter s" "EndFlag t = EndFlag s"
    using assms by (simp_all add: q_step_def same_shape_def same_world_def)
qed

lemma q_step_live: "q_step s t k \<Longrightarrow> live t l = live s l"
  using q_step_slots q_step_fields(1) unfolding live_def by metis

lemma q_step_out: "q_step s t k \<Longrightarrow> q_step s (t\<lparr>out := w\<rparr>) k"
  by (simp add: q_step_def)

lemma q_step_put:
  "(d, i) \<in> slots s \<Longrightarrow> q_step s (put_entry d i ((ent s (d, i))\<lparr>i_sd := sd\<rparr>) (s\<lparr>bufs := h\<rparr>)) (d, i)"
  using same_shape_put [of "s\<lparr>bufs := h\<rparr>" d i]
  by (auto simp: q_step_def ent_put same_shape_def same_world_def)

text \<open>Replacing the queue of an entry\<close>

lemma inv_queue:
  assumes inv: "inv s X R" and k: "(d, i) \<in> slots s" and Q: "queues_ok s P X"
    and new: "sdrep h sd ps ys" and frame: "others sdrep (bufs s) (P (d, i)) h ps"
    and counts: "live s (d, i) \<Longrightarrow> sd_counts sd ys"
  shows "inv (put_entry d i ((ent s (d, i))\<lparr>i_sd := sd\<rparr>) (s\<lparr>bufs := h\<rparr>)) (X((d, i) := ys)) R"
  using inv k Q
proof (rule inv_update)
  assume "i_flag ((ent s (d, i))\<lparr>i_sd := sd\<rparr>) \<noteq> FLAG_FREE"
  then have l: "live s (d, i)" using k by (simp add: live_def)
  then show "sd_counts (i_sd ((ent s (d, i))\<lparr>i_sd := sd\<rparr>)) ys" using counts by simp
  from l show "(live s (d, i) \<and> i_addr ((ent s (d, i))\<lparr>i_sd := sd\<rparr>) = i_addr (ent s (d, i))) \<or>
      (\<forall>j. live s (d, j) \<and> j \<noteq> i \<longrightarrow> i_addr (ent s (d, j)) \<noteq> i_addr ((ent s (d, i))\<lparr>i_sd := sd\<rparr>))"
    by simp
qed (use new frame in simp_all)

text \<open>\<open>AppendSendData\<close> on an entry: the frame is the last of the queue, or nothing happens.\<close>

lemma inv_AppendSendData:
  assumes inv: "inv s X R" and k: "live s (d, i)"
    and n: "0 < n" "n \<le> 2048" "n \<le> length data"
  shows "\<exists>c h sd. AppendSendData e (bufs s) (i_sd (ent s (d, i))) data (int n) = Some (c, h, sd) \<and>
    inv (put_entry d i ((ent s (d, i))\<lparr>i_sd := sd\<rparr>) (s\<lparr>bufs := h\<rparr>))
      (X((d, i) := X (d, i) @ (if append_succeeds e (i_sd (ent s (d, i))) then [take n data] else []))) R"
proof -
  let ?sd = "i_sd (ent s (d, i))"
  have sl: "(d, i) \<in> slots s" using k by (rule live_slot)
  obtain P where Q: "queues_ok s P X" using inv by (auto simp: inv_def)
  have rep: "sdrep (bufs s) ?sd (P (d, i)) (X (d, i))" using Q sl by (rule queues_ok_slot)
  show ?thesis
  proof (cases "append_succeeds e ?sd")
    case False
    obtain h where h: "AppendSendData e (bufs s) ?sd data (int n) = Some (-1, h, ?sd)"
      "sdrep h ?sd (P (d, i)) (X (d, i))" "others sdrep (bufs s) (P (d, i)) h (P (d, i))"
      using AppendSendData_fails [OF rep n(3) False] by blast
    have "inv (put_entry d i ((ent s (d, i))\<lparr>i_sd := ?sd\<rparr>) (s\<lparr>bufs := h\<rparr>))
        (X((d, i) := X (d, i))) R"
      using inv sl Q h(2,3) inv_counts [OF inv k] by (rule inv_queue)
    with h(1) show ?thesis unfolding if_not_P [OF False] append_Nil2 by blast
  next
    case True
    obtain h sd where h: "AppendSendData e (bufs s) ?sd data (int n) = Some (0, h, sd)"
      "sdrep h sd (P (d, i) @ [brk (bufs s)]) (X (d, i) @ [take n data])"
      "others sdrep (bufs s) (P (d, i)) h (P (d, i) @ [brk (bufs s)])"
      "dno sd = dno ?sd + 1" "inBucketSize sd = inBucketSize ?sd + of_nat n"
      using AppendSendData_ok [OF rep n True] by blast
    have "sd_counts sd (X (d, i) @ [take n data])"
      using inv_counts [OF inv k] by (rule sd_counts_append)
        (use True n h(4,5) in \<open>auto simp: append_succeeds_def frame_ok_def min_def\<close>)
    then have "inv (put_entry d i ((ent s (d, i))\<lparr>i_sd := sd\<rparr>) (s\<lparr>bufs := h\<rparr>))
        (X((d, i) := X (d, i) @ [take n data])) R"
      by (intro inv_queue [OF inv sl Q h(2,3)])
    with h(1) show ?thesis unfolding if_P [OF True] by blast
  qed
qed

section \<open>Rewriting a buffered frame\<close>

lemma mread_headers:
  "34 \<le> length f \<Longrightarrow> mread f 0 14 = Some (take 14 f)"
  "34 \<le> length f \<Longrightarrow> mread f 14 20 = Some (take 20 (drop 14 f))"
  by (simp_all add: mem_simps)

lemma rewrite_buffered_eq:
  assumes "complete f"
  shows "rewrite_buffered dm f = Some (fwd_frame dm None f)"
proof -
  let ?ol = "option_len (ip_ihl (ip_of f))"
  have n: "34 \<le> length f" "34 + nat ?ol \<le> length f"
    using assms by (simp_all add: complete_def)
  have o: "(if 0 < ?ol then mread f 34 (nat ?ol) else Some []) = Some (opts_of f)"
    using n by (simp add: mem_simps opts_of_def)
  have l: "length (opts_of f) = nat ?ol" using assms by (rule length_opts_of)
  have e: "(eh_of f)\<lparr>ether_dhost := dm\<rparr> =
      (eh_of f)\<lparr>ether_dhost := dm, ether_shost := ether_shost (eh_of f)\<rparr>" by simp
  have "enc_ether_header ((eh_of f)\<lparr>ether_dhost := dm\<rparr>) @ enc_iphdr (fwd_iphdr (ip_of f) (opts_of f)) @
      drop 34 f = fwd_frame dm None f"
    unfolding fwd_frame_def option.case e [symmetric] ..
  then show ?thesis
    using n
    by (simp add: rewrite_buffered_def Let_def mread_headers o mwrite_Some eh_of_def [symmetric]
        ip_of_def [symmetric] checksum2_header [OF l] fwd_iphdr_def split del: if_split cong: if_cong)
qed

text \<open>A frame shorter than its header announces is read beyond its end.\<close>

lemma rewrite_buffered_None: "34 \<le> length f \<Longrightarrow> \<not> complete f \<Longrightarrow> rewrite_buffered dm f = None"
  by (cases "0 < option_len (ip_ihl (ip_of f))")
    (simp_all add: rewrite_buffered_def Let_def mem_simps complete_def ip_of_def [symmetric])

section \<open>\<open>BufferSendOne\<close>\<close>

lemma inv_GetSendData:
  assumes inv: "inv s X R" and k: "(d, i) \<in> slots s" and X: "X (d, i) = f # fs"
  shows "\<exists>h sd. GetSendData 0 (bufs s) (i_sd (ent s (d, i))) = Some (Some (int (length f), Some f), h, sd) \<and>
    inv (put_entry d i ((ent s (d, i))\<lparr>i_sd := sd\<rparr>) (s\<lparr>bufs := h\<rparr>)) (X((d, i) := fs)) R"
proof -
  obtain P where Q: "queues_ok s P X" using inv by (auto simp: inv_def)
  have rep: "sdrep (bufs s) (i_sd (ent s (d, i))) (P (d, i)) (f # fs)"
    using queues_ok_slot [OF Q k] X by simp
  obtain h sd where h: "GetSendData 0 (bufs s) (i_sd (ent s (d, i))) = Some (Some (int (length f), Some f), h, sd)"
    "sdrep h sd (tl (P (d, i))) fs" "others sdrep (bufs s) (P (d, i)) h (tl (P (d, i)))"
    "dno sd = dno (i_sd (ent s (d, i))) - 1"
    "inBucketSize sd = inBucketSize (i_sd (ent s (d, i))) - of_nat (length f)"
    using GetSendData_Cons [OF rep] by blast
  have "sd_counts sd fs" if "live s (d, i)"
    using inv_counts [OF inv that] h(4,5) unfolding X by (rule sd_counts_get)
  then show ?thesis using inv_queue [OF inv k Q h(2,3)] h(1) by blast
qed

text \<open>The frames sent to a neighbour with MAC address \<open>dm\<close>\<close>

definition resend :: "int \<Rightarrow> mac \<Rightarrow> bytes list \<Rightarrow> sent" where
  "resend so dm fs = map (\<lambda>f. (so, fwd_frame dm None f)) fs"

lemma BufferSendOne_Nil:
  assumes inv: "inv s X R" and k: "(d, i) \<in> slots s" and X: "X (d, i) = []"
  shows "BufferSendOne lock d i s = Some s"
proof -
  have "q_top (i_sd (ent s (d, i))) = None" using inv_top [OF inv k] X by simp
  then show ?thesis
    using k put_same [OF k] by (subst BufferSendOne.simps) (simp add: entry_ent GetSendData_def)
qed

lemma BufferSendOne_post:
  assumes "inv s X R" and "(d, i) \<in> slots s" and "\<forall>f \<in> set (X (d, i)). complete f"
  shows "\<exists>t. BufferSendOne 0 d i s = Some t \<and> inv t (X((d, i) := [])) R \<and> q_step s t (d, i) \<and>
    out t = out s @ resend (soc (Device s d)) (i_hwaddr (ent s (d, i))) (X (d, i))"
  using assms
proof (induction "X (d, i)" arbitrary: s X)
  case Nil
  then have "BufferSendOne 0 d i s = Some s" "X((d, i) := []) = X"
    using BufferSendOne_Nil by (metis, metis fun_upd_triv)
  with Nil show ?case by (simp add: resend_def)
next
  case (Cons f fs)
  note k = Cons.prems(2)
  let ?m = "ent s (d, i)"
  obtain h sd where h: "GetSendData 0 (bufs s) (i_sd ?m) = Some (Some (int (length f), Some f), h, sd)"
    "inv (put_entry d i (?m\<lparr>i_sd := sd\<rparr>) (s\<lparr>bufs := h\<rparr>)) (X((d, i) := fs)) R"
    using inv_GetSendData [OF Cons.prems(1) k Cons.hyps(2) [symmetric]] by blast
  let ?s = "put_entry d i (?m\<lparr>i_sd := sd\<rparr>) (s\<lparr>bufs := h\<rparr>)"
  let ?w = "sock_write (soc (Device s d)) (fwd_frame (i_hwaddr ?m) None f) (out s)"
  have f: "complete f" "\<forall>f \<in> set fs. complete f"
    using Cons.prems(3) Cons.hyps(2) [symmetric] by simp_all
  have step: "BufferSendOne 0 d i s = BufferSendOne 0 d i (?s\<lparr>out := ?w\<rparr>)"
    using k h(1) f(1) complete_lengthD [OF f(1)]
    by (subst BufferSendOne.simps) (simp add: entry_ent Let_def rewrite_buffered_eq mem_simps)
  have q: "q_step s (?s\<lparr>out := ?w\<rparr>) (d, i)" using k by (intro q_step_out q_step_put)
  have "fs = (X((d, i) := fs)) (d, i)" "inv (?s\<lparr>out := ?w\<rparr>) (X((d, i) := fs)) R"
    "(d, i) \<in> slots (?s\<lparr>out := ?w\<rparr>)" "\<forall>g \<in> set ((X((d, i) := fs)) (d, i)). complete g"
    using h(2) q_step_slots [OF q] k f(2) by simp_all
  from Cons.hyps(1) [OF this, unfolded fun_upd_upd fun_upd_same] obtain t where t: "BufferSendOne 0 d i (?s\<lparr>out := ?w\<rparr>) = Some t"
    "inv t (X((d, i) := [])) R" "q_step (?s\<lparr>out := ?w\<rparr>) t (d, i)"
    "out t = ?w @ resend (soc (Device s d)) (i_hwaddr (ent (?s\<lparr>out := ?w\<rparr>) (d, i))) fs"
    by (elim exE conjE) (rule that, simp_all)
  have "out t = out s @ resend (soc (Device s d)) (i_hwaddr ?m) (f # fs)"
    using t(4) q_step_fields(3) [OF q, of "(d, i)"] by (simp add: sock_write_def resend_def)
  then show ?case using t step q_step_trans [OF q t(3)] Cons.hyps(2) by auto
qed

section \<open>The inner loop of \<open>BufferSend\<close>\<close>

lemma live_reqs [simp]:
  "live (s\<lparr>reqs := h\<rparr>) k = live s k" "live (s\<lparr>SendReq := q\<rparr>) k = live s k"
  by (simp_all add: live_def)

lemma inv_GetSendReqData:
  assumes inv: "inv s X (r # R)"
  shows "\<exists>h q. GetSendReqData 0 s = Some (Some r, s\<lparr>reqs := h, SendReq := q\<rparr>) \<and>
    inv (s\<lparr>reqs := h, SendReq := q\<rparr>) X R"
proof -
  obtain ps where "rrep (reqs s) (SendReq s) ps (r # R)" using inv by (auto simp: inv_def reqs_ok_def)
  from GetSendReqData_Cons [OF this]
  obtain h q where h: "GetSendReqData 0 s = Some (Some r, s\<lparr>reqs := h, SendReq := q\<rparr>)"
    "rrep h q (tl ps) R" by blast
  have "inv (s\<lparr>reqs := h, SendReq := q\<rparr>) X R"
    using inv h(2)
    by (auto simp: inv_def tables_ok_def unique_addr_def queues_ok_def counts_ok_def reqs_ok_def)
  with h(1) show ?thesis by blast
qed

lemma GetSendReqData_none:
  assumes "inv s X []"
  shows "GetSendReqData lock s = Some (None, s)"
proof -
  obtain ps where "rrep (reqs s) (SendReq s) ps []" using assms by (auto simp: inv_def reqs_ok_def)
  then show ?thesis by (rule GetSendReqData_Nil)
qed

text \<open>What a drain writes: the queues of the requested entries, in the order of the requests\<close>

definition drained :: "router \<Rightarrow> (nat \<times> nat \<Rightarrow> bytes list) \<Rightarrow> (nat \<times> nat) list \<Rightarrow> sent" where
  "drained s X R =
     concat (map (\<lambda>k. resend (soc (Device s (fst k))) (i_hwaddr (ent s k)) (X k)) R)"

text \<open>Only queues and the log changed\<close>

definition qs_step :: "router \<Rightarrow> router \<Rightarrow> bool" where
  "qs_step s t \<longleftrightarrow> same_shape s (t\<lparr>out := out s\<rparr>) \<and>
     (\<forall>k. \<exists>sd. ent t k = (ent s k)\<lparr>i_sd := sd\<rparr>)"

lemma q_step_qs_step: "q_step s t k \<Longrightarrow> qs_step s t"
  unfolding q_step_def qs_step_def
  by (metis IP2MAC.surjective IP2MAC.update_convs(6))

lemma qs_step_trans:
  assumes "qs_step s t" and "qs_step t u"
  shows "qs_step s u"
proof -
  have "\<exists>sd. ent u k = (ent s k)\<lparr>i_sd := sd\<rparr>" for k
  proof -
    obtain sd sd' where "ent t k = (ent s k)\<lparr>i_sd := sd\<rparr>" "ent u k = (ent t k)\<lparr>i_sd := sd'\<rparr>"
      using assms unfolding qs_step_def by blast
    then show ?thesis by auto
  qed
  moreover have "same_shape s (u\<lparr>out := out s\<rparr>)"
    using assms by (simp add: qs_step_def same_shape_def same_world_def)
  ultimately show ?thesis unfolding qs_step_def by blast
qed

lemma qs_step_refl [simp]: "qs_step s s"
  using q_step_qs_step [OF q_step_refl [of s "(0, 0)"]] .

lemma qs_step_reqs: "qs_step s (s\<lparr>reqs := h, SendReq := q\<rparr>)"
  using qs_step_refl [of s] unfolding qs_step_def same_shape_def same_world_def ent_bufs by simp

lemma qs_step_fields:
  assumes "qs_step s t"
  shows "slots t = slots s" "live t k = live s k" "Device t = Device s" "EndFlag t = EndFlag s"
    "NextRouter t = NextRouter s" "i_flag (ent t k) = i_flag (ent s k)"
    "i_addr (ent t k) = i_addr (ent s k)" "i_hwaddr (ent t k) = i_hwaddr (ent s k)"
    "i_lastTime (ent t k) = i_lastTime (ent s k)"
proof -
  show sl: "slots t = slots s" using assms by (auto simp: qs_step_def same_shape_def slots_def)
  obtain sd where sd: "ent t k = (ent s k)\<lparr>i_sd := sd\<rparr>" using assms unfolding qs_step_def by blast
  then show "i_flag (ent t k) = i_flag (ent s k)" "i_addr (ent t k) = i_addr (ent s k)"
    "i_hwaddr (ent t k) = i_hwaddr (ent s k)" "i_lastTime (ent t k) = i_lastTime (ent s k)"
    by simp_all
  then show "live t k = live s k" using sl by (simp add: live_def)
  show "Device t = Device s" "EndFlag t = EndFlag s" "NextRouter t = NextRouter s"
    using assms by (simp_all add: qs_step_def same_shape_def same_world_def)
qed

lemma drained_cong:
  assumes "qs_step s t" and "\<forall>k \<in> set R. Y k = X k"
  shows "drained t Y R = drained s X R"
  unfolding drained_def using assms by (intro arg_cong [of _ _ concat] map_cong)
    (simp_all add: qs_step_fields)

lemma BufferSendOne_locked:
  assumes "(d, i) \<in> slots s" and "lock \<noteq> 0"
  shows "BufferSendOne lock d i s = Some s"
  using assms put_same [OF assms(1)]
  by (subst BufferSendOne.simps) (simp add: entry_ent GetSendData_def)

lemma buffer_drain_locked: "lock \<noteq> 0 \<Longrightarrow> buffer_drain lock lock_sd s = Some s"
  by (subst buffer_drain.simps) (simp add: GetSendReqData_def)

text \<open>The requests served are those whose queue can be locked; the others are dropped.\<close>

definition served :: "(nat \<Rightarrow> int) \<Rightarrow> (nat \<times> nat) list \<Rightarrow> (nat \<times> nat) list" where
  "served lock_sd R = filter (\<lambda>k. lock_sd (snd k) = 0) R"

lemma served_simps [simp]:
  "served lock_sd [] = []" "set (served lock_sd R) = {k \<in> set R. lock_sd (snd k) = 0}"
  "served (\<lambda>_. 0) R = R"
  by (simp_all add: served_def)

lemma BufferSendOne_any:
  assumes "inv s X R" and "(d, i) \<in> slots s" and "\<forall>f \<in> set (X (d, i)). complete f"
  shows "\<exists>t. BufferSendOne lock d i s = Some t \<and>
    inv t (if lock = 0 then X((d, i) := []) else X) R \<and> qs_step s t \<and>
    out t = out s @ (if lock = 0 then resend (soc (Device s d)) (i_hwaddr (ent s (d, i))) (X (d, i)) else [])"
proof (cases "lock = 0")
  case True
  then show ?thesis using BufferSendOne_post [OF assms] q_step_qs_step by auto
next
  case False
  then show ?thesis using assms(1) BufferSendOne_locked [OF assms(2) False] by simp
qed

lemma buffer_drain_post:
  assumes "inv s X R" and "\<forall>k \<in> set R. \<forall>f \<in> set (X k). complete f"
  shows "\<exists>t. buffer_drain 0 lock_sd s = Some t \<and>
    inv t (\<lambda>k. if k \<in> set (served lock_sd R) then [] else X k) [] \<and> qs_step s t \<and>
    out t = out s @ drained s X (served lock_sd R)"
  using assms
proof (induction R arbitrary: s X)
  case Nil
  then show ?case
    by (subst buffer_drain.simps) (simp add: GetSendReqData_none drained_def)
next
  case (Cons r R)
  obtain d i where r: "r = (d, i)" by (cases r)
  obtain h q where h: "GetSendReqData 0 s = Some (Some r, s\<lparr>reqs := h, SendReq := q\<rparr>)"
    "inv (s\<lparr>reqs := h, SendReq := q\<rparr>) X R"
    using inv_GetSendReqData [OF Cons.prems(1)] by blast
  let ?s = "s\<lparr>reqs := h, SendReq := q\<rparr>"
  define Y where "Y = (if lock_sd i = 0 then X((d, i) := []) else X)"
  have k: "(d, i) \<in> slots ?s" and nr: "r \<notin> set R"
    using Cons.prems(1) r by (simp_all add: inv_def reqs_ok_def)
  have c: "\<forall>f \<in> set (X (d, i)). complete f" using Cons.prems(2) r by simp
  obtain u where u: "BufferSendOne (lock_sd i) d i ?s = Some u" "inv u Y R" "qs_step ?s u"
    "out u = out s @ (if lock_sd i = 0 then resend (soc (Device s d)) (i_hwaddr (ent s (d, i))) (X (d, i)) else [])"
    using BufferSendOne_any [OF h(2) k c, of "lock_sd i"] unfolding Y_def by auto
  have Y: "\<forall>k \<in> set R. Y k = X k" using nr r by (auto simp: Y_def)
  then have "\<forall>k \<in> set R. \<forall>f \<in> set (Y k). complete f" using Cons.prems(2) by simp
  from Cons.IH [OF u(2) this] obtain t where t: "buffer_drain 0 lock_sd u = Some t"
    "inv t (\<lambda>k. if k \<in> set (served lock_sd R) then [] else Y k) []" "qs_step u t"
    "out t = out u @ drained u Y (served lock_sd R)"
    by (elim exE conjE) (rule that)
  have su: "qs_step s u" using qs_step_reqs u(3) by (rule qs_step_trans)
  have X: "(\<lambda>k. if k \<in> set (served lock_sd R) then [] else Y k) =
      (\<lambda>k. if k \<in> set (served lock_sd (r # R)) then [] else X k)"
    using r by (auto simp: fun_eq_iff Y_def)
  have "drained u Y (served lock_sd R) = drained s X (served lock_sd R)"
    using su by (rule drained_cong) (use Y in simp)
  then have "out t = out s @ drained s X (served lock_sd (r # R))"
    using t(4) u(4) r by (simp add: drained_def served_def)
  moreover have "buffer_drain 0 lock_sd s = Some t"
    using h(1) u(1) t(1) r by (subst buffer_drain.simps) simp
  ultimately show ?case using t(2) X qs_step_trans [OF su t(3)] by auto
qed

end
