(* ===== verification/PacketSpec.thy ===== *)
theory PacketSpec
  imports RouterMain BufferInv
begin

text \<open>
  What the router decides for a received frame, as a total function of the frame and the
  configuration (\<open>classify\<close>), and the proof that \<open>AnalyzePacket\<close> carries the decision out, for
  every content of the 2048 byte buffer.
\<close>

section \<open>The decision\<close>

datatype action =
    Drop
  | Ignore
  | Learn in_addr_t mac
  | Expire
  | Mine
  | Forward in_addr_t

definition arp_of :: "bytes \<Rightarrow> ether_arp" where
  "arp_of f = dec_ether_arp (take 28 (drop 14 f))"

definition other :: "nat \<Rightarrow> nat" where
  "other d = (if d = 0 then 1 else 0)"

text \<open>The header and its options add up to a multiple of 65535 (the one's complement zero).\<close>

definition header_ok :: "bytes \<Rightarrow> bool" where
  "header_ok f \<longleftrightarrow> wsum (take 20 (drop 14 f) @ opts_of f) mod 65535 = 0"

definition next_hop_addr :: "router \<Rightarrow> nat \<Rightarrow> in_addr_t \<Rightarrow> in_addr_t" where
  "next_hop_addr s d a =
     (if a AND netmask (Device s d) = subnet (Device s d) then a else NextRouter s)"

definition classify_ip :: "router \<Rightarrow> nat \<Rightarrow> bytes \<Rightarrow> action" where
  "classify_ip s d f =
     (if \<not> header_ok f then Drop
      else if ip_ttl (ip_of f) = 1 then Expire
      else if ip_daddr (ip_of f) AND netmask (Device s (other d)) = subnet (Device s (other d)) \<and>
              ip_daddr (ip_of f) = addr (Device s (other d)) then Mine
      else Forward (next_hop_addr s (other d) (ip_daddr (ip_of f))))"

definition classify :: "router \<Rightarrow> nat \<Rightarrow> bytes \<Rightarrow> nat \<Rightarrow> action" where
  "classify s d f n =
     (if n < 14 \<or> ether_dhost (eh_of f) \<noteq> hwaddr (Device s d) then Drop
      else if ether_type (eh_of f) = htons ETHERTYPE_ARP then
        (if n < 42 then Drop
         else if arp_op (arp_of f) \<in> {htons ARPOP_REQUEST, htons ARPOP_REPLY}
           then Learn (in_addr_of (arp_spa (arp_of f))) (arp_sha (arp_of f))
         else Ignore)
      else if ether_type (eh_of f) = htons ETHERTYPE_IP then
        (if n < 34 then Drop else classify_ip s d f)
      else Ignore)"

text \<open>The decision depends on the configuration only, which no operation changes.\<close>

definition same_config :: "router \<Rightarrow> router \<Rightarrow> bool" where
  "same_config s t \<longleftrightarrow> Device t = Device s \<and> NextRouter t = NextRouter s"

lemma classify_world:
  assumes "Device t = Device s" and "NextRouter t = NextRouter s"
  shows "classify t d f n = classify s d f n"
  unfolding classify_def classify_ip_def next_hop_addr_def assms ..

lemma classify_config: "same_config s t \<Longrightarrow> classify t d f n = classify s d f n"
  by (rule classify_world) (simp_all add: same_config_def)

text \<open>And on the bytes received, not on what the buffer holds behind them.\<close>

lemma classify_buffer:
  assumes c: "ether_type (eh_of bs) = htons ETHERTYPE_IP \<and> 34 \<le> length bs \<longrightarrow> complete bs"
  shows "classify s d (bs @ rest) (length bs) = classify s d bs (length bs)"
proof (cases "length bs < 14")
  case False
  then have e: "eh_of (bs @ rest) = eh_of bs" by (simp add: eh_of_def)
  have "classify_ip s d (bs @ rest) = classify_ip s d bs"
    if "ether_type (eh_of bs) = htons ETHERTYPE_IP" "34 \<le> length bs"
  proof -
    have b: "complete bs" using c that by simp
    have t: "take (length bs) (bs @ rest) = bs" by simp
    have h: "ip_of (bs @ rest) = ip_of bs" "opts_of (bs @ rest) = opts_of bs"
      using ip_of_take [of "length bs" "bs @ rest"] opts_of_take [of "length bs" "bs @ rest"] that(2) b
      by (simp_all add: t)
    have "header_ok (bs @ rest) = header_ok bs" using that(2) by (simp add: header_ok_def h)
    then show ?thesis by (simp only: classify_ip_def h)
  qed
  moreover have "arp_of (bs @ rest) = arp_of bs" if "42 \<le> length bs" using that by (simp add: arp_of_def)
  ultimately show ?thesis using False by (simp add: classify_def e not_less)
qed (simp add: classify_def)

section \<open>The frames sent\<close>

text \<open>The time exceeded message, with the 64 bytes of the buffer from the IP header on\<close>

definition icmp_ip :: "in_addr_t \<Rightarrow> in_addr_t \<Rightarrow> iphdr" where
  "icmp_ip src dst =
     \<lparr>ip_ihl = 5, ip_version = 4, ip_tos = 0, ip_tot_len = htons 92, ip_id = 0,
      ip_frag_off = 0, ip_ttl = 64, ip_protocol = IPPROTO_ICMP, ip_check = 0, ip_saddr = src,
      ip_daddr = dst\<rparr>"

definition icmp_te :: icmp where
  "icmp_te = \<lparr>icmp_type = ICMP_TIME_EXCEEDED, icmp_code = ICMP_TIMXCEED_INTRANS, icmp_cksum = 0,
     icmp_void = 0\<rparr>"

definition time_exceeded :: "router \<Rightarrow> nat \<Rightarrow> bytes \<Rightarrow> bytes" where
  "time_exceeded s d f =
     (let ih = icmp_ip (addr (Device s d)) (ip_saddr (ip_of f));
          payload = take 64 (drop 14 f)
      in enc_ether_header \<lparr>ether_dhost = ether_shost (eh_of f), ether_shost = hwaddr (Device s d),
                          ether_type = htons ETHERTYPE_IP\<rparr> @
         enc_iphdr (ih\<lparr>ip_check := checksum_all (enc_iphdr ih)\<rparr>) @
         enc_icmp (icmp_te\<lparr>icmp_cksum := checksum2_at 8 (enc_icmp icmp_te @ payload)\<rparr>) @ payload)"

lemma SendIcmpTimeExceeded_eq:
  assumes "78 \<le> length data"
  shows "SendIcmpTimeExceeded d (eh_of data) (ip_of data) data sz s =
    Some (s\<lparr>out := out s @ [(soc (Device s d), time_exceeded s d data)]\<rparr>)"
proof -
  have a: "checksum (enc_iphdr ih) 20 = Some (checksum_all (enc_iphdr ih))" for ih
    using checksum_eq [of 20 "enc_iphdr ih"] by (simp add: checksum_all_def)
  have "length (drop 14 data) \<ge> 64" using assms by simp
  then have b: "checksum2 (enc_icmp ic) 8 (drop 14 data) 64 =
      Some (checksum2_at 8 (enc_icmp ic @ take 64 (drop 14 data)))" for ic
    using checksum2_eq [of 8 "enc_icmp ic" 64 "drop 14 data"]
      checksum2_eq [of 8 "enc_icmp ic" 64 "take 64 (drop 14 data)"]
    by (simp add: checksum2_at_def)
  have "mread data 14 64 = Some (take 64 (drop 14 data))" using assms by (simp add: mem_simps)
  then show ?thesis
    by (simp add: SendIcmpTimeExceeded_def Let_def a b time_exceeded_def icmp_ip_def icmp_te_def
        sock_write_def sizeof_icmp_def)
qed

text \<open>What the receiver of the message finds in it\<close>

lemma checksum2_at_all:
  "even n \<Longrightarrow> n \<le> length bs \<Longrightarrow> checksum2_at n bs = checksum_all bs"
  using checksum2_at_oc [of n bs] whole.ck_oc [of bs] by (metis word_unat_eq_iff)

lemma iphdr_filled:
  "checksum_all (enc_iphdr (ih\<lparr>ip_check := checksum_all (enc_iphdr (ih\<lparr>ip_check := 0\<rparr>))\<rparr>)) = 0"
  using whole.fill_accepted [of "iphdr_pre ih" "iphdr_post ih"] by (simp add: enc_iphdr_check)

lemma icmp_filled:
  "checksum_all (enc_icmp (ic\<lparr>icmp_cksum := checksum_all (enc_icmp (ic\<lparr>icmp_cksum := 0\<rparr>) @ p)\<rparr>) @ p) = 0"
  using whole.fill_accepted [of "[icmp_type ic, icmp_code ic]" "bytes32 (icmp_void ic) @ p"]
  by (simp add: enc_icmp_def)

lemma time_exceeded_correct:
  assumes l: "length (take 64 (drop 14 data)) = 64" and f: "f = time_exceeded s d data"
  shows "length f = 106 \<and>
    eh_of f = \<lparr>ether_dhost = ether_shost (eh_of data), ether_shost = hwaddr (Device s d),
      ether_type = htons ETHERTYPE_IP\<rparr> \<and>
    ip_saddr (ip_of f) = addr (Device s d) \<and> ip_daddr (ip_of f) = ip_saddr (ip_of data) \<and>
    ip_protocol (ip_of f) = IPPROTO_ICMP \<and> ip_ttl (ip_of f) = 64 \<and>
    unat (ntohs (ip_tot_len (ip_of f))) = length f - 14 \<and>
    checkIPchecksum (enc_iphdr (ip_of f)) [] (option_len (ip_ihl (ip_of f))) = Some 1 \<and>
    icmp_type (dec_icmp (take 8 (drop 34 f))) = 11 \<and> icmp_code (dec_icmp (take 8 (drop 34 f))) = 0 \<and>
    checksum (drop 34 f) 72 = Some 0 \<and> drop 42 f = take 64 (drop 14 data)"
proof -
  let ?ih = "icmp_ip (addr (Device s d)) (ip_saddr (ip_of data))"
  let ?ihc = "?ih\<lparr>ip_check := checksum_all (enc_iphdr ?ih)\<rparr>"
  let ?p = "take 64 (drop 14 data)"
  let ?ic = "icmp_te\<lparr>icmp_cksum := checksum2_at 8 (enc_icmp icmp_te @ ?p)\<rparr>"
  have f': "f = enc_ether_header \<lparr>ether_dhost = ether_shost (eh_of data),
      ether_shost = hwaddr (Device s d), ether_type = htons ETHERTYPE_IP\<rparr> @ enc_iphdr ?ihc @
      enc_icmp ?ic @ ?p"
    by (simp only: f time_exceeded_def Let_def)
  have ip: "ip_of f = ?ihc" and rest: "drop 34 f = enc_icmp ?ic @ ?p"
    by (simp_all add: f' ip_of_def)
  have "?ih = ?ih\<lparr>ip_check := 0\<rparr>" by (simp add: icmp_ip_def)
  then have "checksum_all (enc_iphdr ?ihc) = 0" using iphdr_filled [of ?ih] by simp
  then have "wsum (enc_iphdr ?ihc) mod 65535 = 0" using whole.accept_iff by blast
  then have "checkIPchecksum (enc_iphdr (ip_of f)) [] (option_len (ip_ihl (ip_of f))) = Some 1"
    by (simp add: ip checkIPchecksum_iff icmp_ip_def option_len_eq)
  moreover have "checksum2_at 8 (enc_icmp icmp_te @ ?p) = checksum_all (enc_icmp icmp_te @ ?p)"
    by (rule checksum2_at_all) simp_all
  then have "checksum_all (drop 34 f) = 0"
    using icmp_filled [of icmp_te ?p] by (simp add: rest icmp_te_def)
  then have "checksum (drop 34 f) 72 = Some 0"
    using checksum_eq [of 72 "drop 34 f"] l by (simp add: rest checksum_all_def)
  ultimately show ?thesis
    using l by (simp add: ip rest) (simp add: f' eh_of_def icmp_ip_def icmp_te_def ICMP_TIME_EXCEEDED_def
        ICMP_TIMXCEED_INTRANS_def)
qed

text \<open>Forwarding rewrites the two headers in the buffer and sends its first \<open>size\<close> bytes.\<close>

lemma forward_eq:
  assumes "complete data" and "n \<le> length data"
  shows "forward tno dm (eh_of data) (ip_of data) (opts_of data) (option_len (ip_ihl (ip_of data)))
      data (int n) s =
    Some (fwd_frame dm (Some (hwaddr (Device s tno))) data,
      s\<lparr>out := out s @ [(soc (Device s tno),
        take n (fwd_frame dm (Some (hwaddr (Device s tno))) data))]\<rparr>)"
proof -
  have n: "34 \<le> length data" using assms(1) by (rule complete_lengthD)
  have l: "length (opts_of data) = nat (option_len (ip_ihl (ip_of data)))"
    using assms(1) by (rule length_opts_of)
  have "enc_ether_header ((eh_of data)\<lparr>ether_dhost := dm, ether_shost := hwaddr (Device s tno)\<rparr>) @
      enc_iphdr (fwd_iphdr (ip_of data) (opts_of data)) @ drop 34 data =
      fwd_frame dm (Some (hwaddr (Device s tno))) data"
    by (simp add: fwd_frame_def)
  then show ?thesis
    using n assms(2) length_fwd_frame [OF n]
    by (simp add: forward_def Let_def mwrite_eh mwrite_ip checksum2_header [OF l] fwd_iphdr_def
        mread_Some sock_write_def del: take_append)
qed

section \<open>What the table operations give\<close>

lemma search_post_learn:
  assumes "search_post e d a (Some m) s X R i t X' R'"
  shows "i_flag (ent t (d, i)) = FLAG_OK" "i_hwaddr (ent t (d, i)) = m" "i_addr (ent t (d, i)) = a"
  using assms by (auto simp: search_post_def hit_entry_def init_entry_def split: if_splits)

lemma search_post_out: "search_post e d a hw s X R i t X' R' \<Longrightarrow> out t = out s"
  by (simp add: search_post_def same_world_def)

lemma Ip2Mac_learn:
  assumes "inv s X R" and "d < 2" and "o_malloc_table e"
  shows "\<exists>i t X' R'. search_post e d a (Some m) s X R i t X' R' \<and> Ip2Mac e d a (Some m) s = Some (i, t)"
proof -
  obtain i t X' R' where t: "search_post e d a (Some m) s X R i t X' R'"
    "Ip2Mac e d a (Some m) s = Some (i, t\<lparr>out := arp_log s d a (ent t (d, i))\<rparr>)"
    using Ip2Mac_post [OF assms] by blast
  have "t\<lparr>out := arp_log s d a (ent t (d, i))\<rparr> = t"
    using search_post_learn(1) [OF t(1)] search_post_out [OF t(1)]
    by (simp add: arp_log_def flip: search_post_out [OF t(1)])
  with t show ?thesis by metis
qed

text \<open>A frame handed to entry \<open>k\<close> in state \<open>t\<close>\<close>

definition queued ::
  "os \<Rightarrow> router \<Rightarrow> nat \<times> nat \<Rightarrow> bytes \<Rightarrow> (nat \<times> nat \<Rightarrow> bytes list) \<Rightarrow> nat \<times> nat \<Rightarrow> bytes list" where
  "queued e t k f X =
     X(k := X k @ (if append_succeeds (o_send e) (i_sd (ent t k)) then [f] else []))"

definition ready :: "router \<Rightarrow> nat \<times> nat \<Rightarrow> (nat \<times> nat \<Rightarrow> bytes list) \<Rightarrow> bool" where
  "ready t k X \<longleftrightarrow> i_flag (ent t k) = FLAG_OK \<and> X k = []"

lemma next_hop_post:
  assumes inv: "inv s X R" and d: "d < 2" and mem: "o_malloc_table e"
    and n: "0 < n" "n \<le> 2048" "n \<le> length data"
  shows "\<exists>i t X1 R1. search_post e d a None s X R i t X1 R1 \<and>
    (if ready t (d, i) X1
     then next_hop e d a data (int n) s = Some (Inr (i_hwaddr (ent t (d, i)), t))
     else \<exists>t'. next_hop e d a data (int n) s = Some (Inl t') \<and>
       inv t' (queued e t (d, i) (take n data) X1) R1 \<and> q_step t t' (d, i) \<and>
       out t' = arp_log s d a (ent t (d, i)))"
proof -
  obtain i t X1 R1 where t: "search_post e d a None s X R i t X1 R1"
    "Ip2Mac e d a None s = Some (i, t\<lparr>out := arp_log s d a (ent t (d, i))\<rparr>)"
    using Ip2Mac_post [OF inv d mem] by blast
  let ?k = "(d, i)"
  let ?m = "ent t ?k" and ?u = "t\<lparr>out := arp_log s d a (ent t ?k)\<rparr>"
  have I: "inv t X1 R1" and lv: "live t ?k" using t(1) unfolding search_post_def by blast+
  have sl: "?k \<in> slots t" using lv by (rule live_slot)
  have dn: "dno (i_sd ?m) = 0 \<longleftrightarrow> X1 ?k = []" using inv_dno [OF I lv] .
  have flag: "i_flag ?m \<noteq> FLAG_NG \<longleftrightarrow> i_flag ?m = FLAG_OK"
    using lv by (cases "i_flag ?m") (simp_all add: live_def)
  show ?thesis
  proof (cases "ready t ?k X1")
    case True
    then have "?u = t" using search_post_out [OF t(1)] by (simp add: arp_log_def ready_def)
    then have "next_hop e d a data (int n) s = Some (Inr (i_hwaddr ?m, t))"
      using True t(2) sl dn by (simp add: next_hop_def entry_ent ready_def)
    with True t(1) show ?thesis by (metis (full_types))
  next
    case False
    have Iu: "inv ?u X1 R1" "live ?u ?k" using I lv by simp_all
    obtain c h sd where A: "AppendSendData (o_send e) (bufs ?u) (i_sd (ent ?u ?k)) data (int n) = Some (c, h, sd)"
      "inv (put_entry d i ((ent ?u ?k)\<lparr>i_sd := sd\<rparr>) (?u\<lparr>bufs := h\<rparr>))
        (X1(?k := X1 ?k @ (if append_succeeds (o_send e) (i_sd (ent ?u ?k)) then [take n data] else []))) R1"
      using inv_AppendSendData [OF Iu n, of "o_send e"] by blast
    let ?v = "put_entry d i (?m\<lparr>i_sd := sd\<rparr>) (?u\<lparr>bufs := h\<rparr>)"
    have "next_hop e d a data (int n) s = Some (Inl ?v)"
      using False t(2) sl dn A(1) flag by (simp add: next_hop_def entry_ent ready_def)
    moreover have "inv ?v (queued e t ?k (take n data) X1) R1"
      using A(2) unfolding queued_def ent_bufs .
    moreover have "q_step t ?v ?k"
      using q_step_out [OF q_step_refl] q_step_put [of d i ?u sd h, unfolded ent_bufs slots_bufs, OF sl]
      by (rule q_step_trans)
    ultimately show ?thesis using False t(1) by (intro exI [of _ i] exI [of _ t]) auto
  qed
qed

section \<open>\<open>AnalyzePacket\<close> carries out the decision\<close>

lemma htons_eq_iff: "htons x = y \<longleftrightarrow> x = htons y"
  by (metis htons_htons)

lemma arp_ops_differ: "htons ARPOP_REQUEST \<noteq> htons ARPOP_REPLY"
  by (simp add: htons_eq_iff ether_consts)

lemma complete_buffer: "2048 \<le> length f \<Longrightarrow> complete f"
  using option_len_bounds(2) [of "ip_ihl (ip_of f)"] by (simp add: complete_def)

text \<open>
  The buffer of the frames received: the outcome, the buffer, the state and what it represents
  (\<open>X'\<close>, \<open>R'\<close>), for each decision.
\<close>

definition forward_post ::
  "os \<Rightarrow> nat \<Rightarrow> in_addr_t \<Rightarrow> bytes \<Rightarrow> nat \<Rightarrow> router \<Rightarrow> (nat \<times> nat \<Rightarrow> bytes list) \<Rightarrow> (nat \<times> nat) list \<Rightarrow>
   int \<Rightarrow> bytes \<Rightarrow> router \<Rightarrow> (nat \<times> nat \<Rightarrow> bytes list) \<Rightarrow> (nat \<times> nat) list \<Rightarrow> bool" where
  "forward_post e o' a data n s X R r data' s' X' R' \<longleftrightarrow>
     (\<exists>i t X1. search_post e o' a None s X R i t X1 R' \<and>
       (let k = (o', i); f = fwd_frame (i_hwaddr (ent t k)) (Some (hwaddr (Device s o'))) data
        in if ready t k X1
           then r = 0 \<and> data' = f \<and> X' = X1 \<and>
             s' = t\<lparr>out := out s @ [(soc (Device s o'), take n f)]\<rparr>
           else r = -1 \<and> data' = data \<and> X' = queued e t k (take n data) X1 \<and>
             q_step t s' k \<and> out s' = arp_log s o' a (ent t k)))"

definition packet_post ::
  "os \<Rightarrow> nat \<Rightarrow> bytes \<Rightarrow> nat \<Rightarrow> router \<Rightarrow> (nat \<times> nat \<Rightarrow> bytes list) \<Rightarrow> (nat \<times> nat) list \<Rightarrow>
   int \<Rightarrow> bytes \<Rightarrow> router \<Rightarrow> (nat \<times> nat \<Rightarrow> bytes list) \<Rightarrow> (nat \<times> nat) list \<Rightarrow> bool" where
  "packet_post e d data n s X R r data' s' X' R' \<longleftrightarrow> inv s' X' R' \<and>
     (case classify s d data n of
        Drop \<Rightarrow> r = -1 \<and> data' = data \<and> s' = s \<and> X' = X \<and> R' = R
      | Ignore \<Rightarrow> r = 0 \<and> data' = data \<and> s' = s \<and> X' = X \<and> R' = R
      | Mine \<Rightarrow> r = 1 \<and> data' = data \<and> s' = s \<and> X' = X \<and> R' = R
      | Expire \<Rightarrow> r = -1 \<and> data' = data \<and> X' = X \<and> R' = R \<and>
          s' = s\<lparr>out := out s @ [(soc (Device s d), time_exceeded s d data)]\<rparr>
      | Learn a m \<Rightarrow> r = 0 \<and> data' = data \<and> (\<exists>i. search_post e d a (Some m) s X R i s' X' R')
      | Forward a \<Rightarrow> forward_post e (other d) a data n s X R r data' s' X' R')"

lemma search_post_inv: "search_post e d a hw s X R i t X' R' \<Longrightarrow> inv t X' R'"
  by (simp add: search_post_def)

lemma search_post_world: "search_post e d a hw s X R i t X' R' \<Longrightarrow> same_world s t"
  by (simp add: search_post_def)

lemma AnalyzePacket_arp_post:
  assumes inv: "inv s X R" and d: "d < 2" and mem: "o_malloc_table e"
    and data: "length data = 2048" and n: "14 \<le> n" "n \<le> 2048"
    and dst: "ether_dhost (eh_of data) = hwaddr (Device s d)"
    and ty: "ether_type (eh_of data) = htons ETHERTYPE_ARP"
  shows "\<exists>r s' X' R'. AnalyzePacket_arp e d data (int n - 14) s = Some (r, data, s') \<and>
    packet_post e d data n s X R r data s' X' R'"
proof -
  let ?a = "in_addr_of (arp_spa (arp_of data))" and ?m = "arp_sha (arp_of data)"
  have b: "mread data 14 28 = Some (take 28 (drop 14 data))" using data by (simp add: mread_Some)
  have sz: "lt_sizeof (int n - 14) 28 \<longleftrightarrow> n < 42" using n by (subst lt_sizeof_nonneg) auto
  note def = AnalyzePacket_arp_def sz b Let_def arp_of_def [symmetric]
  consider "n < 42" | "42 \<le> n" "arp_op (arp_of data) \<in> {htons ARPOP_REQUEST, htons ARPOP_REPLY}"
    | "42 \<le> n" "arp_op (arp_of data) \<notin> {htons ARPOP_REQUEST, htons ARPOP_REPLY}"
    by linarith
  then show ?thesis
  proof cases
    case 1
    then have "classify s d data n = Drop" using dst ty n by (simp add: classify_def)
    with 1 inv show ?thesis by (simp add: def packet_post_def)
  next
    case 2
    then have c: "classify s d data n = Learn ?a ?m" using dst ty n by (simp add: classify_def)
    obtain i t X' R' where t: "search_post e d ?a (Some ?m) s X R i t X' R'"
      "Ip2Mac e d ?a (Some ?m) s = Some (i, t)"
      using Ip2Mac_learn [OF inv d mem] by blast
    have "AnalyzePacket_arp e d data (int n - 14) s = Some (0, data, t)"
      using 2 t(2) arp_ops_differ by (auto simp: def)
    with c t(1) search_post_inv [OF t(1)] show ?thesis by (auto simp: packet_post_def)
  next
    case 3
    then have "classify s d data n = Ignore" using dst ty n by (simp add: classify_def)
    with 3 inv show ?thesis by (simp add: def packet_post_def)
  qed
qed

text \<open>The IP branch up to the choice of the next hop\<close>

lemma AnalyzePacket_ip_start:
  assumes data: "length data = 2048" and n: "34 \<le> n" "n \<le> 2048"
  shows "AnalyzePacket_ip e d (eh_of data) data (int n) (int n - 14) s =
    (if \<not> header_ok data then Some (-1, data, s)
     else if ip_ttl (ip_of data) = 1 then
       Some (-1, data, s\<lparr>out := out s @ [(soc (Device s d), time_exceeded s d data)]\<rparr>)
     else if ip_daddr (ip_of data) AND netmask (Device s (other d)) = subnet (Device s (other d)) \<and>
       ip_daddr (ip_of data) = addr (Device s (other d)) then Some (1, data, s)
     else do {
       r \<leftarrow> next_hop e (other d) (next_hop_addr s (other d) (ip_daddr (ip_of data))) data (int n) s;
       (case r of
          Inl s \<Rightarrow> Some (-1, data, s)
        | Inr (mac, s) \<Rightarrow> do {
            (data, s) \<leftarrow> forward (other d) mac (eh_of data) (ip_of data) (opts_of data)
              (option_len (ip_ihl (ip_of data))) data (int n) s;
            Some (0, data, s)
          })
     })"
proof -
  let ?ih = "ip_of data"
  let ?ol = "option_len (ip_ihl ?ih)"
  have c: "complete data" using data by (simp add: complete_buffer)
  have b: "mread data 14 20 = Some (take 20 (drop 14 data))" using data by (simp add: mread_Some)
  have sz: "\<not> lt_sizeof (int n - 14) 20" using n by (subst lt_sizeof_nonneg) auto
  have big: "\<not> (0 < ?ol \<and> 1500 \<le> ?ol)" using option_len_bounds(2) [of "ip_ihl ?ih"] by linarith
  have "34 + nat ?ol \<le> length data" using c by (simp add: complete_def)
  then have o: "(if 0 < ?ol then mread data 34 (nat ?ol) else Some []) = Some (opts_of data)"
    by (simp add: mread_Some opts_of_def)
  have "enc_iphdr ?ih = take 20 (drop 14 data)" using data by (simp add: ip_of_def codec_inverse')
  moreover have "length (opts_of data) = nat ?ol" using c by (rule length_opts_of)
  ultimately have ck: "checkIPchecksum (enc_iphdr ?ih) (opts_of data) ?ol =
      Some (if header_ok data then 1 else 0)"
    using data by (simp add: checkIPchecksum_iff header_ok_def)
  have ttl: "uint (ip_ttl ?ih) - 1 = 0 \<longleftrightarrow> ip_ttl ?ih = 1"
    using uint_1_eq [where 'a = 8] by (metis diff_eq_eq add_0 word_uint_eq_iff)
  have te: "SendIcmpTimeExceeded d (eh_of data) ?ih data (int n) s =
      Some (s\<lparr>out := out s @ [(soc (Device s d), time_exceeded s d data)]\<rparr>)"
    using data by (intro SendIcmpTimeExceeded_eq) simp
  show ?thesis
    unfolding AnalyzePacket_ip_def if_not_P [OF sz] Let_def b bind.bind_lunit ip_of_def [symmetric]
      if_not_P [OF big] o ck ttl te
    by (cases "header_ok data"; cases "ip_ttl ?ih = 1";
        cases "ip_daddr ?ih AND netmask (Device s (other d)) = subnet (Device s (other d))")
      (simp_all add: other_def [symmetric] next_hop_addr_def)
qed

lemma AnalyzePacket_ip_forward:
  assumes inv: "inv s X R" and d: "d < 2" and mem: "o_malloc_table e"
    and data: "length data = 2048" and n: "34 \<le> n" "n \<le> 2048"
    and c: "classify s d data n = classify_ip s d data" and Forward: "classify_ip s d data = Forward a"
  shows "\<exists>r data' s' X' R'.
    AnalyzePacket_ip e d (eh_of data) data (int n) (int n - 14) s = Some (r, data', s') \<and>
    packet_post e d data n s X R r data' s' X' R'"
proof -
  note start = AnalyzePacket_ip_start [OF data n, of e d s]
  have a: "header_ok data" "ip_ttl (ip_of data) \<noteq> 1"
    "\<not> (ip_daddr (ip_of data) AND netmask (Device s (other d)) = subnet (Device s (other d)) \<and>
       ip_daddr (ip_of data) = addr (Device s (other d)))"
    "a = next_hop_addr s (other d) (ip_daddr (ip_of data))"
    using Forward by (auto simp: classify_ip_def split: if_splits)
  have o: "other d < 2" and n': "0 < n" "n \<le> 2048" "n \<le> length data"
    using n data by (simp_all add: other_def)
  from next_hop_post [OF inv o mem n', of a]
  obtain i t X1 R1 where t: "search_post e (other d) a None s X R i t X1 R1"
    "if ready t (other d, i) X1
     then next_hop e (other d) a data (int n) s = Some (Inr (i_hwaddr (ent t (other d, i)), t))
     else \<exists>t'. next_hop e (other d) a data (int n) s = Some (Inl t') \<and>
       inv t' (queued e t (other d, i) (take n data) X1) R1 \<and> q_step t t' (other d, i) \<and>
       out t' = arp_log s (other d) a (ent t (other d, i))"
    by blast
  show ?thesis
  proof (cases "ready t (other d, i) X1")
    case True
    let ?f = "fwd_frame (i_hwaddr (ent t (other d, i))) (Some (hwaddr (Device s (other d)))) data"
    let ?s = "t\<lparr>out := out s @ [(soc (Device s (other d)), take n ?f)]\<rparr>"
    have w: "Device t = Device s" "out t = out s"
      using search_post_world [OF t(1)] by (simp_all add: same_world_def)
    have "AnalyzePacket_ip e d (eh_of data) data (int n) (int n - 14) s = Some (0, ?f, ?s)"
      using start a t(2) True forward_eq [OF complete_buffer n'(3), of "other d" _ t] data
      by (simp add: w)
    moreover have "forward_post e (other d) a data n s X R 0 ?f ?s X1 R1"
      unfolding forward_post_def Let_def
      by (intro exI [of _ i] exI [of _ t] exI [of _ X1]) (simp add: t(1) True)
    ultimately show ?thesis
      using c Forward search_post_inv [OF t(1)] by (auto simp: packet_post_def)
  next
    case False
    then obtain t' where t': "next_hop e (other d) a data (int n) s = Some (Inl t')"
      "inv t' (queued e t (other d, i) (take n data) X1) R1" "q_step t t' (other d, i)"
      "out t' = arp_log s (other d) a (ent t (other d, i))"
      using t(2) by auto
    have "AnalyzePacket_ip e d (eh_of data) data (int n) (int n - 14) s = Some (-1, data, t')"
      using start a t'(1) by simp
    moreover have "forward_post e (other d) a data n s X R (-1) data t'
        (queued e t (other d, i) (take n data) X1) R1"
      unfolding forward_post_def Let_def
      by (intro exI [of _ i] exI [of _ t] exI [of _ X1]) (simp add: t(1) False t')
    ultimately show ?thesis using c Forward t'(2) by (auto simp: packet_post_def)
  qed
qed

lemma AnalyzePacket_ip_post:
  assumes inv: "inv s X R" and d: "d < 2" and mem: "o_malloc_table e"
    and data: "length data = 2048" and n: "14 \<le> n" "n \<le> 2048"
    and dst: "ether_dhost (eh_of data) = hwaddr (Device s d)"
    and ty: "ether_type (eh_of data) = htons ETHERTYPE_IP"
  shows "\<exists>r data' s' X' R'.
    AnalyzePacket_ip e d (eh_of data) data (int n) (int n - 14) s = Some (r, data', s') \<and>
    packet_post e d data n s X R r data' s' X' R'"
proof (cases "34 \<le> n")
  case False
  then have "lt_sizeof (int n - 14) 20" using n by (subst lt_sizeof_nonneg) auto
  moreover have "classify s d data n = Drop"
    using False dst ty n by (simp add: classify_def htons_eq_iff ether_consts)
  ultimately show ?thesis using inv by (simp add: AnalyzePacket_ip_def packet_post_def)
next
  case True
  note start = AnalyzePacket_ip_start [OF data True n(2), of e d s]
  have c: "classify s d data n = classify_ip s d data"
    using True dst ty by (simp add: classify_def htons_eq_iff ether_consts)
  show ?thesis
  proof (cases "classify_ip s d data")
    case (Forward a)
    from AnalyzePacket_ip_forward [OF inv d mem data True n(2) c this] show ?thesis .
  qed (use c start inv in \<open>auto simp: classify_ip_def packet_post_def split: if_splits\<close>)
qed

text \<open>
  The main theorem on \<open>AnalyzePacket\<close>: for every content of the receive buffer and every number
  of bytes received, no access is out of bounds and the decision is carried out.
\<close>

lemma AnalyzePacket_post:
  assumes inv: "inv s X R" and d: "d < 2" and mem: "o_malloc_table e"
    and data: "length data = 2048" and n: "0 < n" "n \<le> 2048"
  shows "\<exists>r data' s' X' R'. AnalyzePacket e d data (int n) s = Some (r, data', s') \<and>
    packet_post e d data n s X R r data' s' X' R'"
proof -
  have b: "mread data 0 14 = Some (take 14 data)" using data by (simp add: mread_Some)
  have sz: "lt_sizeof (int n) 14 \<longleftrightarrow> n < 14" using n by (subst lt_sizeof_nonneg) auto
  note def = AnalyzePacket_def sz b Let_def eh_of_def [symmetric] htons_eq_iff
  have ne: "htons ETHERTYPE_IP \<noteq> htons ETHERTYPE_ARP" by (simp add: htons_eq_iff ether_consts)
  consider (drop) "n < 14 \<or> ether_dhost (eh_of data) \<noteq> hwaddr (Device s d)"
    | (arp) "14 \<le> n" "ether_dhost (eh_of data) = hwaddr (Device s d)"
        "ether_type (eh_of data) = htons ETHERTYPE_ARP"
    | (ip) "14 \<le> n" "ether_dhost (eh_of data) = hwaddr (Device s d)"
        "ether_type (eh_of data) = htons ETHERTYPE_IP" "htons ETHERTYPE_IP \<noteq> htons ETHERTYPE_ARP"
    | (ignore) "14 \<le> n" "ether_dhost (eh_of data) = hwaddr (Device s d)"
        "ether_type (eh_of data) \<notin> {htons ETHERTYPE_ARP, htons ETHERTYPE_IP}"
    using ne leI by blast
  then show ?thesis
  proof cases
    case drop
    then have "classify s d data n = Drop" by (simp add: classify_def)
    with drop d inv show ?thesis by (auto simp: def packet_post_def)
  next
    case arp
    then have E: "AnalyzePacket e d data (int n) s = AnalyzePacket_arp e d data (int n - 14) s"
      using d by (simp add: def)
    show ?thesis
      unfolding E using AnalyzePacket_arp_post [OF inv d mem data arp(1) n(2) arp(2,3)] by blast
  next
    case ip
    then have E: "AnalyzePacket e d data (int n) s =
        AnalyzePacket_ip e d (eh_of data) data (int n) (int n - 14) s"
      using d by (simp add: def)
    show ?thesis
      unfolding E using AnalyzePacket_ip_post [OF inv d mem data ip(1) n(2) ip(2,3)] by blast
  next
    case ignore
    then have "classify s d data n = Ignore" by (simp add: classify_def)
    with ignore d inv show ?thesis by (auto simp: def packet_post_def)
  qed
qed

end
