(* ===== verification/RouterSystem.thy ===== *)
theory RouterSystem
  imports PacketSpec
begin

text \<open>
  The running router: the receive loop, the buffer thread and the signal handler interleave. A
  step is one call of \<open>AnalyzePacket\<close> with the frame just read, one wake-up of \<open>BufferSend\<close> that
  empties the request queue, or one run of the handler; each is taken as a whole. A step may
  happen after \<open>EndFlag\<close> is set, because the loops test it only once per turn.
\<close>

section \<open>Steps\<close>

type_synonym world = "bytes \<times> router"

datatype event = Recv nat turn | Wake int "nat \<Rightarrow> int" | Signal

inductive sys_step :: "world \<Rightarrow> event \<Rightarrow> world \<Rightarrow> bool" where
  recv: "d < 2 \<Longrightarrow> Router_recv t d (buf, s) = Some x \<Longrightarrow> sys_step (buf, s) (Recv d t) x"
| wake: "buffer_drain lock lock_sd s = Some s' \<Longrightarrow> sys_step (buf, s) (Wake lock lock_sd) (buf, s')"
| signal: "sys_step (buf, s) Signal (buf, EndSignal s)"

inductive_cases sys_stepE: "sys_step w ev w'"
inductive_simps sys_step_simps:
  "sys_step (buf, s) (Recv d t) x" "sys_step (buf, s) (Wake lock lock_sd) x"
  "sys_step (buf, s) Signal x"

text \<open>
  What the environment guarantees: \<open>read\<close> stores as many bytes as it returns, at most as many as
  asked for; an IP frame has all the bytes its header length announces; the table can be
  allocated.
\<close>

definition recv_ok :: "turn \<Rightarrow> nat \<Rightarrow> bool" where
  "recv_ok t d \<longleftrightarrow> o_malloc_table (t_os t d) \<and>
     (let (n, bs) = t_read t d
      in n \<le> 0 \<or> n = int (length bs) \<and> length bs \<le> 2048 \<and>
        (ether_type (eh_of bs) = htons ETHERTYPE_IP \<and> 34 \<le> length bs \<longrightarrow> complete bs))"

primrec event_ok :: "event \<Rightarrow> bool" where
  "event_ok (Recv d t) \<longleftrightarrow> d < 2 \<and> recv_ok t d"
| "event_ok (Wake lock lock_sd) \<longleftrightarrow> True"
| "event_ok Signal \<longleftrightarrow> True"

text \<open>No \<open>malloc\<close> and no lock of the request path fails.\<close>

primrec no_failure :: "event \<Rightarrow> bool" where
  "no_failure (Recv d t) \<longleftrightarrow> o_lock_req (t_os t d) = 0 \<and> o_malloc_req (t_os t d)"
| "no_failure (Wake lock lock_sd) \<longleftrightarrow> lock_sd = (\<lambda>_. 0)"
| "no_failure Signal \<longleftrightarrow> True"

section \<open>Invariants\<close>

definition sys_inv :: "world \<Rightarrow> (nat \<times> nat \<Rightarrow> bytes list) \<Rightarrow> (nat \<times> nat) list \<Rightarrow> bool" where
  "sys_inv w X R \<longleftrightarrow> length (fst w) = 2048 \<and> inv (snd w) X R \<and> (\<forall>k. \<forall>f \<in> set (X k). complete f)"

text \<open>A resolved entry with waiting frames has a pending request.\<close>

definition pending :: "router \<Rightarrow> (nat \<times> nat \<Rightarrow> bytes list) \<Rightarrow> (nat \<times> nat) list \<Rightarrow> bool" where
  "pending s X R \<longleftrightarrow>
     (\<forall>k. live s k \<and> i_flag (ent s k) = FLAG_OK \<and> X k \<noteq> [] \<longrightarrow> k \<in> set R)"

lemma pendingD:
  "pending s X R \<Longrightarrow> live s k \<Longrightarrow> i_flag (ent s k) = FLAG_OK \<Longrightarrow> X k \<noteq> [] \<Longrightarrow> k \<in> set R"
  unfolding pending_def by blast

lemma add_req_mono: "set R \<subseteq> set (add_req e k R)"
  by (auto simp: add_req_def)

lemma add_req_in: "o_lock_req e = 0 \<Longrightarrow> o_malloc_req e \<Longrightarrow> k \<in> set (add_req e k R)"
  by (auto simp: add_req_def)

lemma search_post_frames:
  assumes S: "search_post e d a hw s X R i t X' R'" and c: "\<forall>k. \<forall>f \<in> set (X k). complete f"
  shows "\<forall>k. \<forall>f \<in> set (X' k). complete f"
proof (intro allI ballI)
  fix k f assume f: "f \<in> set (X' k)"
  have "X' (d, i) = X (d, i) \<or> X' (d, i) = []"
    using S unfolding search_post_def by (auto split: if_splits)
  moreover have "k \<noteq> (d, i) \<Longrightarrow> X' k = X k \<or> X' k = []"
    using S unfolding search_post_def others_post_def by blast
  ultimately have "f \<in> set (X k)" using f by (cases "k = (d, i)") auto
  with c show "complete f" by blast
qed

lemma search_post_pending:
  assumes S: "search_post e d a hw s X R i t X' R'" and p: "pending s X R"
    and e: "o_lock_req e = 0" "o_malloc_req e"
  shows "pending t X' R'"
  unfolding pending_def
proof (intro allI impI; elim conjE)
  fix k assume k: "live t k" "i_flag (ent t k) = FLAG_OK" "X' k \<noteq> []"
  have R: "set R \<subseteq> set R'"
    using S add_req_mono unfolding search_post_def by (auto split: if_splits)
  show "k \<in> set R'"
  proof (cases "k = (d, i)")
    case False
    then have "live s k" "ent t k = ent s k" "X' k = X k"
      using S k(1) unfolding search_post_def others_post_def by blast+
    with pendingD [OF p, of k] k(2,3) R show ?thesis by auto
  next
    case True
    then have h: "is_hit e d a hw s i" "ent t k = hit_entry e hw (ent s k)" "X' k = X k"
      "R' = (if hw \<noteq> None \<and> X k \<noteq> [] then add_req e k R else R)"
      using S k(3) unfolding search_post_def by (auto split: if_splits)
    show ?thesis
    proof (cases "hw = None")
      case False
      then show ?thesis using h(3,4) k(3) add_req_in [OF e] by simp
    next
      case None: True
      then have "i_flag (ent s k) = FLAG_OK" using h(2) k(2) by (simp add: hit_entry_def)
      moreover have "live s k" using h(1) True by (simp add: is_hit_def)
      ultimately show ?thesis using pendingD [OF p, of k] h(3) k(3) R by auto
    qed
  qed
qed

lemma pending_q_step:
  assumes "pending t X R" and "q_step t s' k" and "\<forall>l. l \<noteq> k \<longrightarrow> Y l = X l"
    and "i_flag (ent t k) = FLAG_OK \<longrightarrow> X k \<noteq> []"
  shows "pending s' Y R"
  unfolding pending_def
proof (intro allI impI; elim conjE)
  fix l assume l: "live s' l" "i_flag (ent s' l) = FLAG_OK" "Y l \<noteq> []"
  then have "live t l" "i_flag (ent t l) = FLAG_OK"
    using q_step_live [OF assms(2)] q_step_fields(1) [OF assms(2)] by simp_all
  moreover have "X l \<noteq> []" using l(3) assms(3,4) calculation(2) by metis
  ultimately show "l \<in> set R" by (rule pendingD [OF assms(1)])
qed

lemma pending_out [simp]: "pending (s\<lparr>out := w\<rparr>) X R = pending s X R"
  by (simp add: pending_def)

section \<open>Every step keeps them\<close>

lemma take_received: "length bs \<le> 2048 \<Longrightarrow> take (length bs) (bs @ rest) = bs"
  by simp

text \<open>A frame that is to be forwarded is an IP frame with its complete header.\<close>

lemma classify_Forward:
  assumes "classify s d (bs @ rest) (length bs) = Forward a"
  shows "ether_type (eh_of bs) = htons ETHERTYPE_IP" "34 \<le> length bs"
  using assms by (auto simp: classify_def eh_of_def split: if_splits)

lemma packet_post_keeps:
  assumes P: "packet_post e d (bs @ rest) (length bs) s X R r data' s' X' R'"
    and c: "\<forall>k. \<forall>f \<in> set (X k). complete f"
    and bs: "ether_type (eh_of bs) = htons ETHERTYPE_IP \<and> 34 \<le> length bs \<longrightarrow> complete bs"
  shows "\<forall>k. \<forall>f \<in> set (X' k). complete f"
proof (cases "classify s d (bs @ rest) (length bs)")
  case (Learn a m)
  with P c show ?thesis by (auto simp: packet_post_def dest: search_post_frames)
next
  case (Forward a)
  then have cb: "complete bs" using classify_Forward bs by blast
  obtain i t X1 where t: "search_post e (other d) a None s X R i t X1 R'"
    "X' = X1 \<or> X' = queued e t (other d, i) bs X1"
    using P Forward by (auto simp: packet_post_def forward_post_def Let_def split: if_splits)
  have "\<forall>k. \<forall>f \<in> set (X1 k). complete f" using t(1) c by (rule search_post_frames)
  with t(2) cb show ?thesis by (auto simp: queued_def split: if_splits)
qed (use P c in \<open>simp_all add: packet_post_def\<close>)

lemma packet_post_pending:
  assumes P: "packet_post e d data n s X R r data' s' X' R'" and p: "pending s X R"
    and e: "o_lock_req e = 0" "o_malloc_req e"
  shows "pending s' X' R'"
proof (cases "classify s d data n")
  case (Learn a m)
  with P p e show ?thesis by (auto simp: packet_post_def dest: search_post_pending)
next
  case (Forward a)
  have "forward_post e (other d) a data n s X R r data' s' X' R'"
    using P Forward by (simp add: packet_post_def)
  then obtain i t X1 where t: "search_post e (other d) a None s X R i t X1 R'"
    and o: "ready t (other d, i) X1 \<Longrightarrow> X' = X1 \<and> (\<exists>w. s' = t\<lparr>out := w\<rparr>)"
    "\<not> ready t (other d, i) X1 \<Longrightarrow>
      X' = queued e t (other d, i) (take n data) X1 \<and> q_step t s' (other d, i)"
    unfolding forward_post_def Let_def by (elim exE conjE) (erule that, simp_all, blast)
  have p1: "pending t X1 R'" using t p e by (rule search_post_pending)
  show ?thesis
  proof (cases "ready t (other d, i) X1")
    case True
    with o(1) p1 show ?thesis by auto
  next
    case False
    then have q: "q_step t s' (other d, i)" "X' = queued e t (other d, i) (take n data) X1"
      using o(2) by simp_all
    show ?thesis
      using p1 q(1) by (rule pending_q_step) (use False q(2) in \<open>auto simp: queued_def ready_def\<close>)
  qed
qed (use P p in \<open>simp_all add: packet_post_def\<close>)

lemma packet_post_length:
  assumes "packet_post e d data n s X R r data' s' X' R'" and "length data = 2048"
  shows "length data' = 2048"
  using assms by (auto simp: packet_post_def forward_post_def Let_def split: action.splits if_splits)

lemma Router_recv_ok:
  assumes inv: "sys_inv (buf, s) X R" and d: "d < 2" and t: "recv_ok t d"
  shows "\<exists>buf' s' X' R'. Router_recv t d (buf, s) = Some (buf', s') \<and> sys_inv (buf', s') X' R' \<and>
    (pending s X R \<and> no_failure (Recv d t) \<longrightarrow> pending s' X' R')"
proof (cases "t_ready t d \<and> 0 < fst (t_read t d)")
  case False
  then have "Router_recv t d (buf, s) = Some (buf, s)"
    by (cases "t_read t d") (auto simp: Router_recv_def)
  with inv show ?thesis by blast
next
  case True
  obtain n bs where r: "t_read t d = (n, bs)" by (cases "t_read t d")
  let ?e = "t_os t d" and ?buf = "bs @ drop (length bs) buf"
  have b: "n = int (length bs)" "length bs \<le> 2048" "0 < length bs" "o_malloc_table ?e"
    "ether_type (eh_of bs) = htons ETHERTYPE_IP \<and> 34 \<le> length bs \<longrightarrow> complete bs"
    using t True r by (auto simp: recv_ok_def)
  have I: "inv s X R" "length buf = 2048" "\<forall>k. \<forall>f \<in> set (X k). complete f"
    using inv by (simp_all add: sys_inv_def)
  have l: "length ?buf = 2048" using I(2) b(2) by simp
  obtain c buf' s' X' R' where A: "AnalyzePacket ?e d ?buf (int (length bs)) s = Some (c, buf', s')"
    "packet_post ?e d ?buf (length bs) s X R c buf' s' X' R'"
    using AnalyzePacket_post [OF I(1) d b(4) l b(3,2)] by blast
  have "mwrite buf 0 bs = Some ?buf" using I(2) b(2) by (simp add: mwrite_Some)
  then have "Router_recv t d (buf, s) = Some (buf', s')"
    using True r b(1,3) A(1) by (simp add: Router_recv_def)
  moreover have "sys_inv (buf', s') X' R'"
    using A(2) packet_post_length [OF A(2) l] packet_post_keeps [OF A(2) I(3) b(5)]
    by (simp add: sys_inv_def packet_post_def)
  moreover have "pending s X R \<and> no_failure (Recv d t) \<longrightarrow> pending s' X' R'"
    using packet_post_pending [OF A(2)] by simp
  ultimately show ?thesis by blast
qed

text \<open>The state after a wake-up: with the lock, no request is left.\<close>

lemma drain_ok:
  assumes inv: "sys_inv (buf, s) X R"
  shows "\<exists>s' X' R'. buffer_drain lock lock_sd s = Some s' \<and> sys_inv (buf, s') X' R' \<and>
    (lock = 0 \<longrightarrow> R' = []) \<and> (pending s X R \<and> lock_sd = (\<lambda>_. 0) \<longrightarrow> pending s' X' R')"
proof (cases "lock = 0")
  case False
  with inv buffer_drain_locked show ?thesis by blast
next
  case True
  let ?X = "\<lambda>k. if k \<in> set (served lock_sd R) then [] else X k"
  have I: "inv s X R" "\<forall>k \<in> set R. \<forall>f \<in> set (X k). complete f"
    using inv unfolding sys_inv_def snd_conv by blast+
  obtain s' where s': "buffer_drain 0 lock_sd s = Some s'" "inv s' ?X []" "qs_step s s'"
    using buffer_drain_post [OF I, of lock_sd] by blast
  have "sys_inv (buf, s') ?X []" using inv s'(2) by (simp add: sys_inv_def)
  moreover have "pending s' ?X []" if "pending s X R" "lock_sd = (\<lambda>_. 0)"
    unfolding pending_def
  proof (intro allI impI; elim conjE)
    fix k assume "live s' k" "i_flag (ent s' k) = FLAG_OK" "?X k \<noteq> []"
    with that pendingD [OF that(1), of k] show "k \<in> set []"
      by (simp add: qs_step_fields [OF s'(3)] split: if_splits)
  qed
  ultimately show ?thesis using True s'(1) by blast
qed

lemma EndFlag_update [simp]:
  "ent (s\<lparr>EndFlag := b\<rparr>) k = ent s k" "slots (s\<lparr>EndFlag := b\<rparr>) = slots s"
  by (simp_all add: ent_def slots_def)

lemma live_EndFlag [simp]: "live (s\<lparr>EndFlag := b\<rparr>) k = live s k"
  by (simp add: live_def)

lemma EndSignal_ok:
  "sys_inv (buf, s) X R \<Longrightarrow> sys_inv (buf, EndSignal s) X R"
  "pending s X R \<Longrightarrow> pending (EndSignal s) X R"
  by (simp_all add: EndSignal_def sys_inv_def pending_def inv_def tables_ok_def unique_addr_def
      queues_ok_def counts_ok_def reqs_ok_def)

section \<open>Reachable states\<close>

text \<open>
  At start the tables and the queues are empty; \<open>main\<close> has filled in the devices.
  \<open>reach G\<close>: what is reachable by events that satisfy \<open>G\<close>.
\<close>

definition initial :: "router \<Rightarrow> bool" where
  "initial s \<longleftrightarrow> (\<forall>d. Ip2Macs s d = \<lparr>t_data = [], t_size = 0, t_no = 0\<rparr>) \<and>
     (\<forall>p. cells (bufs s) p = None) \<and> (\<forall>p. cells (reqs s) p = None) \<and>
     SendReq s = \<lparr>q_top = None, q_bottom = None\<rparr> \<and> \<not> EndFlag s"

inductive reach :: "(event \<Rightarrow> bool) \<Rightarrow> world \<Rightarrow> bool" for G where
  init: "initial s \<Longrightarrow> length buf = 2048 \<Longrightarrow> reach G (buf, s)"
| step: "reach G w \<Longrightarrow> G ev \<Longrightarrow> sys_step w ev w' \<Longrightarrow> reach G w'"

lemma initial_inv:
  assumes "initial s"
  shows "inv s (\<lambda>_. []) []" "pending s (\<lambda>_. []) []"
proof -
  have "slots s = {}" using assms by (auto simp: initial_def slots_def)
  then have "live s k = False" for k by (simp add: live_def)
  moreover have "rrep (reqs s) (SendReq s) [] []"
    using assms by (simp add: initial_def rrep_def dlrep_Nil heap_ok_def dom_def)
  moreover have "heap_ok (bufs s)" using assms by (simp add: initial_def heap_ok_def dom_def)
  ultimately show "inv s (\<lambda>_. []) []"
    using assms \<open>slots s = {}\<close>
    by (auto simp: inv_def tables_ok_def unique_addr_def queues_ok_def family_def counts_ok_def
        reqs_ok_def initial_def)
qed (simp add: pending_def)

lemma sys_step_ok:
  assumes inv: "sys_inv w X R" and ev: "event_ok ev"
  shows "\<exists>w' X' R'. sys_step w ev w' \<and> sys_inv w' X' R' \<and>
    (pending (snd w) X R \<and> no_failure ev \<longrightarrow> pending (snd w') X' R')"
proof -
  obtain buf s where w: "w = (buf, s)" by (cases w)
  show ?thesis
  proof (cases ev)
    case (Recv d t)
    with ev inv w show ?thesis
      using Router_recv_ok [of buf s X R d t] by (fastforce simp: sys_step_simps)
  next
    case (Wake lock lock_sd)
    with inv w show ?thesis
      using drain_ok [of buf s X R lock lock_sd] by (fastforce simp: sys_step_simps)
  next
    case Signal
    with inv w EndSignal_ok show ?thesis by (fastforce simp: sys_step_simps)
  qed
qed

lemma sys_step_det: "sys_step w ev w1 \<Longrightarrow> sys_step w ev w2 \<Longrightarrow> w1 = w2"
  by (cases w; cases ev) (auto simp: sys_step_simps)

lemma reach_sys_inv:
  "reach G w \<Longrightarrow> (\<And>ev. G ev \<Longrightarrow> event_ok ev) \<Longrightarrow> \<exists>X R. sys_inv w X R"
proof (induction rule: reach.induct)
  case (init s buf)
  then show ?case using initial_inv by (fastforce simp: sys_inv_def)
next
  case (step w ev w')
  then show ?case using sys_step_ok sys_step_det by metis
qed

lemma reach_pending:
  "reach G w \<Longrightarrow> (\<And>ev. G ev \<Longrightarrow> event_ok ev \<and> no_failure ev) \<Longrightarrow>
   \<exists>X R. sys_inv w X R \<and> pending (snd w) X R"
proof (induction rule: reach.induct)
  case (init s buf)
  then show ?case using initial_inv by (fastforce simp: sys_inv_def)
next
  case (step w ev w')
  then show ?case using sys_step_ok sys_step_det by metis
qed

text \<open>A frame received is one call of \<open>AnalyzePacket\<close> on the buffer.\<close>

lemma Recv_step_cases:
  assumes "sys_step (buf, s) (Recv d t) (buf', s')" and inv: "sys_inv (buf, s) X R" and d: "d < 2"
    and t: "recv_ok t d" "t_read t d = (n, bs)"
  shows "if t_ready t d \<and> 0 < n
    then n = int (length bs) \<and> (\<exists>r X' R'. packet_post (t_os t d) d (bs @ drop (length bs) buf)
      (length bs) s X R r buf' s' X' R')
    else s' = s \<and> buf' = buf"
proof (cases "t_ready t d \<and> 0 < n")
  case False
  then show ?thesis using assms(1) t(2) by (auto simp: sys_step_simps Router_recv_def split: if_splits)
next
  case True
  let ?buf = "bs @ drop (length bs) buf"
  have b: "n = int (length bs)" "length bs \<le> 2048" "0 < length bs" "o_malloc_table (t_os t d)"
    using t True by (auto simp: recv_ok_def)
  have I: "inv s X R" "length buf = 2048" using inv by (simp_all add: sys_inv_def)
  have l: "length ?buf = 2048" using I(2) b(2) by simp
  obtain c b' u X' R' where A: "AnalyzePacket (t_os t d) d ?buf (int (length bs)) s = Some (c, b', u)"
    "packet_post (t_os t d) d ?buf (length bs) s X R c b' u X' R'"
    using AnalyzePacket_post [OF I(1) d b(4) l b(3,2)] by blast
  have "mwrite buf 0 bs = Some ?buf" using I(2) b(2) by (simp add: mwrite_Some)
  then have "buf' = b' \<and> s' = u"
    using assms(1) True t(2) b(1,3) A(1) by (simp add: sys_step_simps Router_recv_def)
  then show ?thesis using A(2) b(1) True by auto
qed

lemma Recv_step:
  assumes "sys_step (buf, s) (Recv d t) (buf', s')" and "sys_inv (buf, s) X R" and "d < 2"
    and "recv_ok t d" "t_read t d = (n, bs)"
  shows "s' = s \<or> (0 < n \<and> n = int (length bs) \<and> (\<exists>r X' R'. packet_post (t_os t d) d (bs @ drop (length bs) buf)
      (length bs) s X R r buf' s' X' R'))"
  using Recv_step_cases [OF assms] by (auto split: if_splits)

section \<open>The two loops make system steps\<close>

inductive steps :: "(event \<Rightarrow> bool) \<Rightarrow> world \<Rightarrow> world \<Rightarrow> bool" for G where
  stop: "steps G w w"
| more: "steps G w u \<Longrightarrow> G ev \<Longrightarrow> sys_step u ev v \<Longrightarrow> steps G w v"

lemma steps_trans: "steps G u v \<Longrightarrow> steps G w u \<Longrightarrow> steps G w v"
  by (induction rule: steps.induct) (auto intro: steps.more)

lemma steps_one: "G ev \<Longrightarrow> sys_step w ev v \<Longrightarrow> steps G w v"
  by (blast intro: steps.intros)

lemma reach_steps: "steps G w v \<Longrightarrow> reach G w \<Longrightarrow> reach G v"
  by (induction rule: steps.induct) (auto intro: reach.step)

definition turn_event :: "turn list \<Rightarrow> event \<Rightarrow> bool" where
  "turn_event ts ev \<longleftrightarrow> ev = Signal \<or> (\<exists>t \<in> set ts. ev = Recv 0 t \<or> ev = Recv 1 t)"

lemma Router_turn_steps:
  assumes "Router_turn t x = Some y" and "t \<in> set ts"
  shows "steps (turn_event ts) x y"
proof (cases "t_poll t = -1 \<or> t_poll t = 0")
  case True
  with assms(1) show ?thesis by (auto simp: Router_turn_def intro: steps.stop)
next
  case False
  then obtain z where z: "Router_recv t 0 x = Some z" "Router_recv t 1 z = Some y"
    using assms(1) by (auto simp: Router_turn_def bind_eq_Some_conv)
  have "sys_step x (Recv 0 t) z" "sys_step z (Recv 1 t) y"
    using z by (cases x; cases z; simp add: sys_step_simps)+
  moreover have "turn_event ts (Recv 0 t)" "turn_event ts (Recv 1 t)"
    using assms(2) by (auto simp: turn_event_def)
  ultimately show ?thesis by (blast intro: steps.intros)
qed

lemma steps_mono: "steps G w v \<Longrightarrow> (\<And>ev. G ev \<Longrightarrow> H ev) \<Longrightarrow> steps H w v"
  by (induction rule: steps.induct) (auto intro: steps.intros)

lemma Router_steps: "Router ts x = Some y \<Longrightarrow> steps (turn_event ts) x y"
proof (induction ts arbitrary: x)
  case Nil
  then show ?case by (auto intro: steps.stop)
next
  case (Cons t ts)
  show ?case
  proof (cases "EndFlag (snd x)")
    case True
    with Cons.prems show ?thesis by (auto intro: steps.stop)
  next
    case False
    then obtain buf s where u: "Router_turn t x = Some (buf, s)"
      "Router ts (buf, if t_signal t then EndSignal s else s) = Some y"
      using Cons.prems by (auto simp: bind_eq_Some_conv)
    have "steps (turn_event (t # ts)) x (buf, s)" using u(1) by (rule Router_turn_steps) simp
    moreover have "steps (turn_event (t # ts)) (buf, s) (buf, if t_signal t then EndSignal s else s)"
      using steps_one [OF _ sys_step.signal] by (auto simp: turn_event_def intro: steps.stop)
    moreover have "steps (turn_event (t # ts)) (buf, if t_signal t then EndSignal s else s) y"
      using Cons.IH [OF u(2)] by (rule steps_mono) (auto simp: turn_event_def)
    ultimately show ?thesis using steps_trans by blast
  qed
qed

lemma BufferSend_steps:
  "BufferSend ts s = Some s' \<Longrightarrow> steps (\<lambda>ev. \<exists>(l, m) \<in> set ts. ev = Wake l m) (buf, s) (buf, s')"
proof (induction ts s rule: BufferSend.induct)
  case (1 s)
  then show ?case by (auto intro: steps.stop)
next
  case (2 l m ts s)
  show ?case
  proof (cases "EndFlag s")
    case True
    with 2(2) show ?thesis by (auto intro: steps.stop)
  next
    case False
    then obtain u where u: "buffer_drain l m s = Some u" "BufferSend ts u = Some s'"
      using 2(2) by (auto simp: bind_eq_Some_conv)
    let ?G = "\<lambda>ev. \<exists>(l', m') \<in> set ((l, m) # ts). ev = Wake l' m'"
    have "steps ?G (buf, s) (buf, u)"
      by (rule steps_one [OF _ sys_step.wake [OF u(1)]]) simp
    moreover have "steps ?G (buf, u) (buf, s')"
      using 2(1) [OF False u] by (rule steps_mono) auto
    ultimately show ?thesis using steps_trans by blast
  qed
qed

text \<open>No turn of the receive loop is undefined.\<close>

lemma Router_turn_ok:
  assumes inv: "sys_inv x X R" and t: "recv_ok t 0" "recv_ok t 1"
  shows "\<exists>y X' R'. Router_turn t x = Some y \<and> sys_inv y X' R'"
proof (cases "t_poll t = -1 \<or> t_poll t = 0")
  case True
  with inv show ?thesis by (auto simp: Router_turn_def)
next
  case False
  obtain y X1 R1 where y: "Router_recv t 0 x = Some y" "sys_inv y X1 R1"
    using Router_recv_ok [of "fst x" "snd x" X R 0 t] inv t(1) by auto
  obtain z X2 R2 where "Router_recv t 1 y = Some z" "sys_inv z X2 R2"
    using Router_recv_ok [of "fst y" "snd y" X1 R1 1 t] y(2) t(2) by auto
  with y(1) False show ?thesis by (auto simp: Router_turn_def)
qed

lemma Router_total:
  "sys_inv x X R \<Longrightarrow> \<forall>t \<in> set ts. recv_ok t 0 \<and> recv_ok t 1 \<Longrightarrow>
   \<exists>y X' R'. Router ts x = Some y \<and> sys_inv y X' R'"
proof (induction ts arbitrary: x X R)
  case (Cons t ts)
  show ?case
  proof (cases "EndFlag (snd x)")
    case True
    with Cons.prems(1) show ?thesis by auto
  next
    case False
    obtain y X1 R1 where y: "Router_turn t x = Some y" "sys_inv y X1 R1"
      using Router_turn_ok [OF Cons.prems(1)] Cons.prems(2) by fastforce
    obtain buf s where bs: "y = (buf, s)" by (cases y)
    have "sys_inv (buf, if t_signal t then EndSignal s else s) X1 R1"
      using y(2) EndSignal_ok(1) bs by simp
    with Cons.IH Cons.prems(2) y(1) bs False show ?thesis by fastforce
  qed
qed auto

lemma Router_append: "Router (ts @ us) x = do { y \<leftarrow> Router ts x; Router us y }"
proof (induction ts arbitrary: x)
  case (Cons t ts)
  show ?case
  proof (cases "EndFlag (snd x)")
    case True
    then show ?thesis by (cases us) simp_all
  next
    case False
    with Cons.IH show ?thesis by (cases "Router_turn t x") (auto split: prod.splits)
  qed
qed simp

lemma Router_stopped: "EndFlag (snd x) \<Longrightarrow> Router ts x = Some x"
  by (cases ts) simp_all

end
