(* ===== verification/Resolver.thy ===== *)
theory Resolver
  imports BufferInv
begin

text \<open>
  The IP-to-MAC table as its clients see it: a cache from addresses to MAC addresses and the time
  of the last use. The locale \<open>resolver\<close> is the contract of \<open>Ip2Mac\<close> towards
  \<open>AnalyzePacket\<close>; what follows from it for every sequence of calls is proved in the locale, and
  the interpretation on \<open>Ip2Mac\<close> discharges it.
\<close>

section \<open>The contract\<close>

text \<open>A call: the environment, the device, the address and the MAC address if one was received\<close>

type_synonym 'e call = "'e \<times> nat \<times> in_addr_t \<times> mac option"

fun run_calls ::
  "('e \<Rightarrow> nat \<Rightarrow> in_addr_t \<Rightarrow> mac option \<Rightarrow> 's \<Rightarrow> (nat \<times> 's) option) \<Rightarrow> 'e call list \<Rightarrow> 's \<Rightarrow> 's option"
  where
  "run_calls f [] s = Some s"
| "run_calls f ((e, d, a, hw) # cs) s = do { (i, s) \<leftarrow> f e d a hw s; run_calls f cs s }"

locale resolver =
  fixes ok :: "'s \<Rightarrow> bool"
    and look :: "'s \<Rightarrow> nat \<Rightarrow> in_addr_t \<Rightarrow> (mac \<times> int) option"
    and env_ok :: "'e \<Rightarrow> bool" and now :: "'e \<Rightarrow> int" and ttl :: int
    and resolve :: "'e \<Rightarrow> nat \<Rightarrow> in_addr_t \<Rightarrow> mac option \<Rightarrow> 's \<Rightarrow> (nat \<times> 's) option"
  assumes total: "ok s \<Longrightarrow> d < 2 \<Longrightarrow> env_ok e \<Longrightarrow> \<exists>i s'. resolve e d a hw s = Some (i, s') \<and> ok s'"
    and learn: "ok s \<Longrightarrow> d < 2 \<Longrightarrow> env_ok e \<Longrightarrow> resolve e d a (Some m) s = Some (i, s') \<Longrightarrow>
      \<exists>t. look s' d a = Some (m, t)"
    and lookup: "ok s \<Longrightarrow> d < 2 \<Longrightarrow> env_ok e \<Longrightarrow> resolve e d a None s = Some (i, s') \<Longrightarrow>
      look s' d a = map_option (\<lambda>(m, _). (m, now e)) (look s d a)"
    and keep: "ok s \<Longrightarrow> d < 2 \<Longrightarrow> env_ok e \<Longrightarrow> resolve e d a hw s = Some (i, s') \<Longrightarrow> d' < 2 \<Longrightarrow>
      (d', b) \<noteq> (d, a) \<Longrightarrow> look s d' b = Some (m, t) \<Longrightarrow> now e - t \<le> ttl \<Longrightarrow>
      look s' d' b = Some (m, t)"
    and new_only: "ok s \<Longrightarrow> d < 2 \<Longrightarrow> env_ok e \<Longrightarrow> resolve e d a hw s = Some (i, s') \<Longrightarrow> d' < 2 \<Longrightarrow>
      (d', b) \<noteq> (d, a) \<Longrightarrow> look s' d' b = Some x \<Longrightarrow> look s d' b = Some x"
begin

lemma ok_after: "ok s \<Longrightarrow> d < 2 \<Longrightarrow> env_ok e \<Longrightarrow> resolve e d a hw s = Some (i, s') \<Longrightarrow> ok s'"
  using total [of s d e a hw] by auto

lemma run_total:
  "ok s \<Longrightarrow> \<forall>(e, d, a, hw) \<in> set cs. d < 2 \<and> env_ok e \<Longrightarrow>
   \<exists>s'. run_calls resolve cs s = Some s' \<and> ok s'"
proof (induction cs arbitrary: s)
  case (Cons c cs)
  obtain e d a hw where c: "c = (e, d, a, hw)" by (cases c)
  then obtain i u where u: "resolve e d a hw s = Some (i, u)" "ok u"
    using Cons.prems total [of s d e a hw] by auto
  with Cons.IH [OF u(2)] Cons.prems c show ?case by auto
qed simp

text \<open>
  What was learnt stays known, whatever happens to other addresses, as long as no call is made
  later than \<open>ttl\<close> after the last use and no other MAC address is learnt for it.
\<close>

lemma run_keep:
  "ok s \<Longrightarrow> \<forall>(e, d, a, hw) \<in> set cs. d < 2 \<and> env_ok e \<and> t \<le> now e \<and> now e - t \<le> ttl \<and>
     ((d, a) = (d', b) \<longrightarrow> hw = None) \<Longrightarrow>
   d' < 2 \<Longrightarrow> look s d' b = Some (m, t0) \<Longrightarrow> t \<le> t0 \<Longrightarrow> run_calls resolve cs s = Some s' \<Longrightarrow>
   \<exists>t'. look s' d' b = Some (m, t') \<and> t \<le> t'"
proof (induction cs arbitrary: s t0)
  case (Cons c cs)
  obtain e d a hw where c: "c = (e, d, a, hw)" by (cases c)
  then obtain i u where u: "resolve e d a hw s = Some (i, u)" "run_calls resolve cs u = Some s'"
    using Cons.prems(6) by (auto simp: bind_eq_Some_conv)
  have e: "d < 2" "env_ok e" "t \<le> now e" "now e - t \<le> ttl" "(d, a) = (d', b) \<longrightarrow> hw = None"
    using Cons.prems(2) c by simp_all
  have "\<exists>t1. look u d' b = Some (m, t1) \<and> t \<le> t1"
  proof (cases "(d', b) = (d, a)")
    case True
    then have "resolve e d a None s = Some (i, u)" using u(1) e(5) by auto
    from lookup [OF Cons.prems(1) e(1,2) this] True Cons.prems(4) e(3) show ?thesis by auto
  next
    case False
    have "now e - t0 \<le> ttl" using e(4) Cons.prems(5) by linarith
    from keep [OF Cons.prems(1) e(1,2) u(1) Cons.prems(3) False Cons.prems(4) this] Cons.prems(5)
    show ?thesis by blast
  qed
  then obtain t1 where t1: "look u d' b = Some (m, t1)" "t \<le> t1" by blast
  have "\<forall>(e, d, a, hw) \<in> set cs. d < 2 \<and> env_ok e \<and> t \<le> now e \<and> now e - t \<le> ttl \<and>
     ((d, a) = (d', b) \<longrightarrow> hw = None)"
    using Cons.prems(2) by simp
  from Cons.IH [OF ok_after [OF Cons.prems(1) e(1,2) u(1)] this Cons.prems(3) t1 u(2)]
  show ?case .
qed auto

text \<open>Every MAC address handed out was received in some call for this address.\<close>

lemma run_origin:
  "ok s \<Longrightarrow> \<forall>(e, d, a, hw) \<in> set cs. d < 2 \<and> env_ok e \<Longrightarrow> d' < 2 \<Longrightarrow>
   run_calls resolve cs s = Some s' \<Longrightarrow> look s' d' b = Some (m, t) \<Longrightarrow>
   (\<exists>e. (e, d', b, Some m) \<in> set cs) \<or> (\<exists>t0. look s d' b = Some (m, t0))"
proof (induction cs arbitrary: s)
  case (Cons c cs)
  obtain e d a hw where c: "c = (e, d, a, hw)" by (cases c)
  then obtain i u where u: "resolve e d a hw s = Some (i, u)" "run_calls resolve cs u = Some s'"
    using Cons.prems(4) by (auto simp: bind_eq_Some_conv)
  have e: "d < 2" "env_ok e" using Cons.prems(2) c by simp_all
  have cs: "\<forall>(e, d, a, hw) \<in> set cs. d < 2 \<and> env_ok e" using Cons.prems(2) by simp
  from Cons.IH [OF ok_after [OF Cons.prems(1) e u(1)] cs Cons.prems(3) u(2) Cons.prems(5)]
  consider "\<exists>e. (e, d', b, Some m) \<in> set cs" | t0 where "look u d' b = Some (m, t0)" by blast
  then show ?case
  proof cases
    case 2
    show ?thesis
    proof (cases "(d', b) = (d, a)")
      case False
      with new_only [OF Cons.prems(1) e u(1) Cons.prems(3) False 2] show ?thesis by blast
    next
      case True
      show ?thesis
      proof (cases hw)
        case None
        with u(1) have "resolve e d a None s = Some (i, u)" by simp
        from lookup [OF Cons.prems(1) e this] 2 True show ?thesis by auto
      next
        case (Some m')
        with u(1) have "resolve e d a (Some m') s = Some (i, u)" by simp
        from learn [OF Cons.prems(1) e this] 2 True have "m' = m" by auto
        with Some True c show ?thesis by auto
      qed
    qed
  qed auto
qed auto

end

section \<open>The table as a cache\<close>

definition cached :: "router \<Rightarrow> nat \<Rightarrow> in_addr_t \<Rightarrow> (mac \<times> int) option" where
  "cached s d a =
     map_option (\<lambda>m. (i_hwaddr m, i_lastTime m))
       (find (\<lambda>m. i_flag m = FLAG_OK \<and> i_addr m = a) (t_data (Ip2Macs s d)))"

definition resolved_at :: "router \<Rightarrow> nat \<times> nat \<Rightarrow> in_addr_t \<Rightarrow> bool" where
  "resolved_at s k a \<longleftrightarrow> live s k \<and> i_flag (ent s k) = FLAG_OK \<and> i_addr (ent s k) = a"

lemma resolved_unique:
  "inv s X R \<Longrightarrow> resolved_at s (d, i) a \<Longrightarrow> live s (d, j) \<Longrightarrow> i_addr (ent s (d, j)) = a \<Longrightarrow> i = j"
  unfolding inv_def unique_addr_def resolved_at_def by (metis Pair_inject fst_conv)

lemma cached_SomeD:
  assumes "d < 2" and "cached s d a = Some x"
  shows "\<exists>i. resolved_at s (d, i) a \<and> x = (i_hwaddr (ent s (d, i)), i_lastTime (ent s (d, i)))"
proof -
  obtain m where m: "find (\<lambda>m. i_flag m = FLAG_OK \<and> i_addr m = a) (t_data (Ip2Macs s d)) = Some m"
    "x = (i_hwaddr m, i_lastTime m)"
    using assms(2) by (auto simp: cached_def)
  then obtain i where i: "i < length (t_data (Ip2Macs s d))" "m = t_data (Ip2Macs s d) ! i"
    "i_flag m = FLAG_OK" "i_addr m = a"
    by (auto simp: find_Some_iff)
  have "(d, i) \<in> slots s" "ent s (d, i) = m" using assms(1) i by (simp_all add: slots_def ent_def)
  with i m(2) show ?thesis by (auto simp: resolved_at_def live_def)
qed

lemma cached_SomeI:
  assumes inv: "inv s X R" and k: "resolved_at s (d, i) a"
  shows "cached s d a = Some (i_hwaddr (ent s (d, i)), i_lastTime (ent s (d, i)))"
proof -
  let ?P = "\<lambda>m. i_flag m = FLAG_OK \<and> i_addr m = a"
  have "(d, i) \<in> slots s" using k by (simp add: resolved_at_def live_def)
  then have i: "i < length (t_data (Ip2Macs s d))" "d < 2" by (simp_all add: slots_def)
  then have "?P (t_data (Ip2Macs s d) ! i)" using k by (simp add: resolved_at_def ent_def)
  then have "find ?P (t_data (Ip2Macs s d)) \<noteq> None"
    using nth_mem [OF i(1)] unfolding find_None_iff by blast
  then obtain x where x: "cached s d a = Some x" by (auto simp: cached_def)
  then obtain j where j: "resolved_at s (d, j) a"
    "x = (i_hwaddr (ent s (d, j)), i_lastTime (ent s (d, j)))"
    using cached_SomeD [OF i(2)] by blast
  have "i = j" using inv k by (rule resolved_unique) (use j(1) in \<open>simp_all add: resolved_at_def\<close>)
  with x j(2) show ?thesis by simp
qed

lemma cached_out [simp]: "cached (s\<lparr>out := w\<rparr>) d a = cached s d a"
  by (simp add: cached_def)

text \<open>An entry that is resolved and not expired survives every search for another address.\<close>

lemma search_post_keep:
  assumes S: "search_post e d a hw s X R i t X' R'"
    and k: "resolved_at s (d', j) b" "(d', b) \<noteq> (d, a)" "\<not> expired (o_now e) (ent s (d', j))"
  shows "resolved_at t (d', j) b" "ent t (d', j) = ent s (d', j)"
proof -
  have lv: "live s (d', j)" using k(1) by (simp add: resolved_at_def)
  have "(d', j) \<noteq> (d, i)"
  proof
    assume eq: "(d', j) = (d, i)"
    show False
    proof (cases "\<exists>j. is_hit e d a hw s j")
      case True
      then have "i_addr (ent s (d, i)) = a" using S by (simp add: search_post_def is_hit_def)
      with eq k(1,2) show False by (simp add: resolved_at_def)
    next
      case False
      with S eq lv k(3) show False by (simp add: search_post_def)
    qed
  qed
  then have "live t (d', j) \<and> ent t (d', j) = ent s (d', j)"
    using S lv k(3) unfolding search_post_def others_post_def by metis
  with k(1) show "resolved_at t (d', j) b" "ent t (d', j) = ent s (d', j)"
    by (simp_all add: resolved_at_def)
qed

lemma search_post_found:
  assumes S: "search_post e d a None s X R i t X' R'" and inv: "inv s X R"
    and k: "resolved_at s (d, j) a"
  shows "j = i \<and> ent t (d, i) = (ent s (d, i))\<lparr>i_lastTime := o_now e\<rparr>"
proof -
  have "is_hit e d a None s j" using k by (simp add: is_hit_def resolved_at_def resolves_def)
  then have hit: "\<exists>j. is_hit e d a None s j" ..
  have "is_hit e d a None s i \<and> ent t (d, i) = hit_entry e None (ent s (d, i))"
    using S unfolding search_post_def if_P [OF hit] by blast
  moreover from this have "j = i"
    using resolved_unique [OF inv k] by (simp add: is_hit_def)
  ultimately show ?thesis using k by (simp add: hit_entry_def touch_def resolved_at_def)
qed

text \<open>No address is resolved by a search without a MAC address.\<close>

lemma search_post_none:
  assumes S: "search_post e d a None s X R i t X' R'" and k: "resolved_at t (d, j) a"
  shows "\<exists>l. resolved_at s (d, l) a"
proof -
  have t: "inv t X' R'" "live t (d, i)" "i_addr (ent t (d, i)) = a"
    using S unfolding search_post_def by blast+
  have ji: "j = i" using resolved_unique [OF t(1) k t(2,3)] .
  then have ok: "i_flag (ent t (d, i)) = FLAG_OK" using k by (simp add: resolved_at_def)
  have hit: "\<exists>j. is_hit e d a None s j"
  proof (rule ccontr)
    assume n: "\<not> ?thesis"
    have "ent t (d, i) = init_entry e d a None" using S unfolding search_post_def if_not_P [OF n] by blast
    with ok show False by (simp add: init_entry_def)
  qed
  have "is_hit e d a None s i" "ent t (d, i) = hit_entry e None (ent s (d, i))"
    using S unfolding search_post_def if_P [OF hit] by blast+
  with ok show ?thesis by (auto simp: resolved_at_def is_hit_def hit_entry_def)
qed

lemma search_post_new_only:
  assumes S: "search_post e d a hw s X R i t X' R'" and k: "resolved_at t (d', j) b" "(d', b) \<noteq> (d, a)"
  shows "resolved_at s (d', j) b \<and> ent t (d', j) = ent s (d', j)"
proof -
  have "(d', j) \<noteq> (d, i)"
    using S k by (auto simp: search_post_def resolved_at_def)
  then have "live s (d', j) \<and> ent t (d', j) = ent s (d', j)"
    using S k(1) unfolding search_post_def others_post_def resolved_at_def by blast
  with k(1) show ?thesis by (simp add: resolved_at_def)
qed

lemma expired_ok: "i_flag m = FLAG_OK \<Longrightarrow> now - i_lastTime m \<le> 60 \<Longrightarrow> \<not> expired now m"
  by (simp add: expired_def IP2MAC_TIMEOUT_SEC_def)

definition table_ok :: "router \<Rightarrow> bool" where
  "table_ok s \<longleftrightarrow> (\<exists>X R. inv s X R)"

lemma Ip2Mac_search:
  assumes "inv s X R" and "d < 2" and "o_malloc_table e" and "Ip2Mac e d a hw s = Some (i, s')"
  shows "\<exists>t X' R'. search_post e d a hw s X R i t X' R' \<and> cached s' = cached t \<and> table_ok s'"
proof -
  obtain j t X' R' where t: "search_post e d a hw s X R j t X' R'"
    "Ip2Mac e d a hw s = Some (j, t\<lparr>out := arp_log s d a (ent t (d, j))\<rparr>)"
    using Ip2Mac_post [OF assms(1-3)] by blast
  have "inv t X' R'" using t(1) unfolding search_post_def by blast
  then have "table_ok (t\<lparr>out := w\<rparr>)" for w by (auto simp: table_ok_def)
  with t assms(4) show ?thesis by (auto simp: fun_eq_iff)
qed

interpretation ip2mac: resolver table_ok cached o_malloc_table o_now 60 Ip2Mac
proof
  fix s d and e :: os and a hw assume "table_ok s" "d < (2 :: nat)" "o_malloc_table e"
  then show "\<exists>i s'. Ip2Mac e d a hw s = Some (i, s') \<and> table_ok s'"
    using Ip2Mac_post Ip2Mac_search unfolding table_ok_def by metis
next
  fix s d and e :: os and a m i s'
  assume A: "table_ok s" "d < (2 :: nat)" "o_malloc_table e" "Ip2Mac e d a (Some m) s = Some (i, s')"
  then obtain X R t X' R' where t: "search_post e d a (Some m) s X R i t X' R'" "cached s' = cached t"
    unfolding table_ok_def using Ip2Mac_search by metis
  have "resolved_at t (d, i) a" "i_hwaddr (ent t (d, i)) = m" "inv t X' R'"
    using t(1) by (auto simp: search_post_def hit_entry_def init_entry_def resolved_at_def split: if_splits)
  with t(2) show "\<exists>t. cached s' d a = Some (m, t)" using cached_SomeI by metis
next
  fix s d and e :: os and a i s'
  assume A: "table_ok s" "d < (2 :: nat)" "o_malloc_table e" "Ip2Mac e d a None s = Some (i, s')"
  then obtain X R t X' R' where t: "inv s X R" "search_post e d a None s X R i t X' R'" "cached s' = cached t"
    unfolding table_ok_def using Ip2Mac_search by metis
  have it: "inv t X' R'" using t(2) unfolding search_post_def by blast
  show "cached s' d a = map_option (\<lambda>(m, _). (m, o_now e)) (cached s d a)"
  proof (cases "cached s d a")
    case None
    have "cached t d a = None"
      using cached_SomeD [OF A(2)] search_post_none [OF t(2)] cached_SomeI [OF t(1)] None
      by (metis option.exhaust option.simps(3))
    with None t(3) show ?thesis by simp
  next
    case (Some x)
    then obtain j where j: "resolved_at s (d, j) a" "x = (i_hwaddr (ent s (d, j)), i_lastTime (ent s (d, j)))"
      using cached_SomeD [OF A(2)] by blast
    from search_post_found [OF t(2,1) j(1)]
    have f: "j = i" "ent t (d, i) = (ent s (d, i))\<lparr>i_lastTime := o_now e\<rparr>" by auto
    have "live t (d, i)" using t(2) unfolding search_post_def by blast
    with f j(1) have "resolved_at t (d, i) a" by (simp add: resolved_at_def)
    from cached_SomeI [OF it this] show ?thesis using t(3) Some j(2) f by simp
  qed
next
  fix s d and e :: os and a hw i s' d' b m tm
  assume A: "table_ok s" "d < (2 :: nat)" "o_malloc_table e" "Ip2Mac e d a hw s = Some (i, s')"
    "d' < (2 :: nat)" "(d', b) \<noteq> (d, a)" "cached s d' b = Some (m, tm)" "o_now e - tm \<le> 60"
  then obtain X R t X' R' where t: "search_post e d a hw s X R i t X' R'" "cached s' = cached t"
    unfolding table_ok_def using Ip2Mac_search by metis
  have it: "inv t X' R'" using t(1) unfolding search_post_def by blast
  obtain j where j: "resolved_at s (d', j) b" "m = i_hwaddr (ent s (d', j))" "tm = i_lastTime (ent s (d', j))"
    using cached_SomeD [OF A(5,7)] by blast
  have "\<not> expired (o_now e) (ent s (d', j))"
    using j(1,3) A(8) by (intro expired_ok) (simp_all add: resolved_at_def)
  from search_post_keep [OF t(1) j(1) A(6) this]
  show "cached s' d' b = Some (m, tm)" using cached_SomeI [OF it] j(2,3) t(2) by metis
next
  fix s d and e :: os and a hw i s' d' b x
  assume A: "table_ok s" "d < (2 :: nat)" "o_malloc_table e" "Ip2Mac e d a hw s = Some (i, s')"
    "d' < (2 :: nat)" "(d', b) \<noteq> (d, a)" "cached s' d' b = Some x"
  then obtain X R t X' R' where t: "inv s X R" "search_post e d a hw s X R i t X' R'" "cached s' = cached t"
    unfolding table_ok_def using Ip2Mac_search by metis
  obtain j where j: "resolved_at t (d', j) b" "x = (i_hwaddr (ent t (d', j)), i_lastTime (ent t (d', j)))"
    using cached_SomeD [OF A(5)] A(7) t(3) by metis
  from search_post_new_only [OF t(2) j(1) A(6)]
  show "cached s d' b = Some x" using cached_SomeI [OF t(1)] j(2) by metis
qed

end
