(* ===== verification/Examples.thy ===== *)
theory Examples
  imports RouterSystem Resolver
begin

text \<open>
  A concrete router and concrete frames, on which the hypotheses of the properties hold: device 0
  is 192.168.0.1/24, device 1 is 192.168.1.1/24, the next router is 192.168.1.254 as in \<open>main\<close>.
\<close>

section \<open>The router\<close>

definition mac_of :: "u8 \<Rightarrow> mac" where "mac_of b = MAC 2 0 0 0 0 b"
definition addr_of :: "u8 \<Rightarrow> u8 \<Rightarrow> in_addr_t" where "addr_of n h = le32 192 168 n h"

definition ex_device :: "nat \<Rightarrow> DEVICE" where
  "ex_device d = (if d = 0
     then \<lparr>soc = 3, hwaddr = mac_of 1, addr = addr_of 0 1, subnet = addr_of 0 0, netmask = 0x00FFFFFF\<rparr>
     else \<lparr>soc = 4, hwaddr = mac_of 2, addr = addr_of 1 1, subnet = addr_of 1 0, netmask = 0x00FFFFFF\<rparr>)"

definition no_heap :: "'a heap" where "no_heap = \<lparr>cells = (\<lambda>_. None), brk = 0\<rparr>"

definition ex_router0 :: router where
  "ex_router0 = \<lparr>Device = ex_device, NextRouter = addr_of 1 254,
     Ip2Macs = (\<lambda>_. \<lparr>t_data = [], t_size = 0, t_no = 0\<rparr>), bufs = no_heap, reqs = no_heap,
     SendReq = \<lparr>q_top = None, q_bottom = None\<rparr>, out = [], EndFlag = False\<rparr>"

definition ex_os :: os where
  "ex_os = \<lparr>o_now = 100, o_lock_sd = (\<lambda>_. 0), o_lock_req = 0, o_malloc_req = True,
     o_malloc_table = True, o_send = send_ok 100\<rparr>"

lemma ex_os_simps [simp]:
  "o_now ex_os = 100" "o_lock_req ex_os = 0" "o_malloc_req ex_os" "o_malloc_table ex_os"
  "e_malloc_node (o_send ex_os)" "e_malloc_data (o_send ex_os)" "e_lock (o_send ex_os) = 0"
  by (simp_all add: ex_os_def send_ok_def)

lemma ex_router0_initial: "initial ex_router0"
  by (simp add: initial_def ex_router0_def no_heap_def)

lemma ex_router0_inv: "inv ex_router0 (\<lambda>_. []) []"
  using ex_router0_initial by (rule initial_inv)

text \<open>The table of device 1 has one entry in use, for 192.168.1.2, with no waiting frames.\<close>

definition ex_entry :: "flag \<Rightarrow> int \<Rightarrow> IP2MAC" where
  "ex_entry fl t = \<lparr>i_flag = fl, i_deviceNo = 1, i_addr = addr_of 1 2, i_hwaddr = mac_of 0x22,
     i_lastTime = t, i_sd = sd_empty\<rparr>"

definition ex_router1 :: "flag \<Rightarrow> int \<Rightarrow> router" where
  "ex_router1 fl t = ex_router0\<lparr>Ip2Macs := (\<lambda>d. if d = 1
     then \<lparr>t_data = [ex_entry fl t], t_size = 1024, t_no = 1\<rparr>
     else \<lparr>t_data = [], t_size = 0, t_no = 0\<rparr>)\<rparr>"

lemma ex_router1_slots [simp]: "slots (ex_router1 fl t) = {(1, 0)}"
  by (auto simp: slots_def ex_router1_def split: if_splits)

lemma ex_router1_ent [simp]:
  "ent (ex_router1 fl t) (1, 0) = ex_entry fl t" "ent (ex_router1 fl t) (Suc 0, 0) = ex_entry fl t"
  by (simp_all add: ent_def ex_router1_def)

lemma ex_router1_live: "live (ex_router1 fl t) k \<longleftrightarrow> k = (1, 0) \<and> fl \<noteq> FLAG_FREE"
  by (auto simp: live_def ex_entry_def)

lemma ex_router1_inv: "inv (ex_router1 fl t) (\<lambda>_. []) []"
proof -
  have "queues_ok (ex_router1 fl t) (\<lambda>_. []) (\<lambda>_. [])"
    by (simp add: queues_ok_def family_def)
      (simp add: ex_entry_def ex_router1_def ex_router0_def no_heap_def heap_ok_def)
  moreover have "tables_ok (ex_router1 fl t)" by (simp add: tables_ok_def ex_router1_def)
  moreover have "unique_addr (ex_router1 fl t)" by (simp add: unique_addr_def ex_router1_live)
  moreover have "heap_ok (bufs (ex_router1 fl t))"
    by (simp add: ex_router1_def ex_router0_def no_heap_def heap_ok_def)
  moreover have "counts_ok (ex_router1 fl t) (\<lambda>_. [])"
    by (simp add: counts_ok_def ex_router1_live ex_entry_def)
  moreover have "rrep no_heap \<lparr>q_top = None, q_bottom = None\<rparr> [] []"
    by (simp add: no_heap_def heap_ok_def rrep_def dlrep_Nil)
  then have "reqs_ok (ex_router1 fl t) []"
    by (auto simp: reqs_ok_def ex_router1_def ex_router0_def)
  ultimately show ?thesis unfolding inv_def by blast
qed

section \<open>Frames\<close>

text \<open>A UDP packet from 192.168.0.2 to 192.168.1.2 sent to device 0, by its time to live\<close>

definition ex_packet :: "u8 \<Rightarrow> u8 \<Rightarrow> u8 \<Rightarrow> bytes" where
  "ex_packet ttl c0 c1 =
     [2, 0, 0, 0, 0, 1, 2, 0, 0, 0, 0, 0x11, 8, 0,
      0x45, 0, 0, 40, 0, 1, 0, 0, ttl, 17, c0, c1, 192, 168, 0, 2, 192, 168, 1, 2,
      0x10, 0, 0x20, 0, 0, 20, 0, 0, 1, 2, 3, 4, 5, 6, 7, 8, 9, 10, 11, 12]"

definition ex_frame64 :: bytes where "ex_frame64 = ex_packet 64 248 111"
definition ex_frame1 :: bytes where "ex_frame1 = ex_packet 1 55 112"
definition ex_frame0 :: bytes where "ex_frame0 = ex_packet 0 56 112"

text \<open>The ARP reply of 192.168.1.2 to device 1\<close>

definition ex_reply :: bytes where
  "ex_reply = [2, 0, 0, 0, 0, 2, 2, 0, 0, 0, 0, 0x22, 8, 6,
     0, 1, 8, 0, 6, 4, 0, 2, 2, 0, 0, 0, 0, 0x22, 192, 168, 1, 2, 2, 0, 0, 0, 0, 2, 192, 168, 1, 1]"

lemmas ex_frame_defs = ex_frame64_def ex_frame1_def ex_frame0_def ex_packet_def ex_reply_def

text \<open>The receive buffer after a frame was read into it\<close>

definition in_buffer :: "bytes \<Rightarrow> bytes" where
  "in_buffer f = f @ replicate (2048 - length f) 0"

lemma length_in_buffer [simp]: "length f \<le> 2048 \<Longrightarrow> length (in_buffer f) = 2048"
  by (simp add: in_buffer_def)

lemma take_in_buffer [simp]: "take (length f) (in_buffer f) = f"
  by (simp add: in_buffer_def)

lemma in_buffer_parts:
  "14 \<le> length f \<Longrightarrow> eh_of (in_buffer f) = eh_of f"
  "34 \<le> length f \<Longrightarrow> ip_of (in_buffer f) = ip_of f"
  "complete f \<Longrightarrow> opts_of (in_buffer f) = opts_of f"
  "42 \<le> length f \<Longrightarrow> arp_of (in_buffer f) = arp_of f"
  "34 \<le> length f \<Longrightarrow> take 20 (drop 14 (in_buffer f)) = take 20 (drop 14 f)"
  using complete_lengthD [of f] opts_of_take [of "length f" "in_buffer f"]
  by (simp_all add: in_buffer_def eh_of_def ip_of_def arp_of_def)

lemma ex_lengths [simp]:
  "length ex_frame64 = 54" "length ex_frame1 = 54" "length ex_frame0 = 54" "length ex_reply = 42"
  by (simp_all add: ex_frame_defs)

lemma ex_eh:
  "eh_of ex_frame64 = \<lparr>ether_dhost = mac_of 1, ether_shost = mac_of 0x11, ether_type = 8\<rparr>"
  "eh_of ex_frame1 = \<lparr>ether_dhost = mac_of 1, ether_shost = mac_of 0x11, ether_type = 8\<rparr>"
  "eh_of ex_frame0 = \<lparr>ether_dhost = mac_of 1, ether_shost = mac_of 0x11, ether_type = 8\<rparr>"
  "eh_of ex_reply = \<lparr>ether_dhost = mac_of 2, ether_shost = mac_of 0x22, ether_type = 0x608\<rparr>"
  by (simp_all add: eh_of_def dec_ether_header_def field_at ex_frame_defs mac_of_def le16_def)

lemma ex_ip:
  "ip_ihl (ip_of ex_frame64) = 5" "ip_ihl (ip_of ex_frame1) = 5" "ip_ihl (ip_of ex_frame0) = 5"
  "ip_ttl (ip_of ex_frame64) = 64" "ip_ttl (ip_of ex_frame1) = 1" "ip_ttl (ip_of ex_frame0) = 0"
  "ip_daddr (ip_of ex_frame64) = addr_of 1 2" "ip_daddr (ip_of ex_frame1) = addr_of 1 2"
  "ip_daddr (ip_of ex_frame0) = addr_of 1 2"
  by (simp_all add: ip_of_def dec_iphdr_def field_at ex_frame_defs addr_of_def lo_nibble_def)

lemma ex_complete [simp]: "complete ex_frame64" "complete ex_frame1" "complete ex_frame0"
  by (simp_all add: complete_def ex_ip option_len_eq)

lemma ex_header_ok: "header_ok ex_frame64" "header_ok ex_frame1" "header_ok ex_frame0"
  by (simp_all add: header_ok_def opts_of_def ex_ip option_len_eq) (simp_all add: ex_frame_defs)

lemma header_ok_in_buffer: "complete f \<Longrightarrow> header_ok (in_buffer f) = header_ok f"
  using complete_lengthD [of f] by (simp add: header_ok_def in_buffer_parts)

section \<open>The decisions\<close>

lemma ex_router_fields [simp]:
  "Device ex_router0 = ex_device" "Device (ex_router1 fl t) = ex_device"
  "NextRouter ex_router0 = addr_of 1 254" "NextRouter (ex_router1 fl t) = addr_of 1 254"
  "out ex_router0 = []" "out (ex_router1 fl t) = []"
  by (simp_all add: ex_router1_def ex_router0_def)

lemma ex_types [simp]: "htons ETHERTYPE_IP = 8" "htons ETHERTYPE_ARP = 0x608"
  by (simp_all add: ether_consts htons_def)

lemma ex_net: "addr_of 1 2 AND 0x00FFFFFF = addr_of 1 0" "addr_of 1 2 \<noteq> addr_of 1 1"
  by (simp_all add: addr_of_def le32_def)

lemma ex_other [simp]: "other 0 = 1" "other 1 = 0" "other (Suc 0) = 0"
  by (simp_all add: other_def)

lemma ex_classify:
  assumes "Device s = ex_device"
  shows "classify s 0 (in_buffer ex_frame64) 54 = Forward (addr_of 1 2)"
    and "classify s 0 (in_buffer ex_frame1) 54 = Expire"
    and "classify s 0 (in_buffer ex_frame0) 54 = Forward (addr_of 1 2)"
  using ex_net
  by (simp_all add: classify_def classify_ip_def in_buffer_parts ex_eh ex_ip ex_header_ok
      header_ok_in_buffer assms ex_device_def next_hop_addr_def)

lemma ex_arp:
  "arp_op (arp_of ex_reply) = htons ARPOP_REPLY" "arp_sha (arp_of ex_reply) = mac_of 0x22"
  "in_addr_of (arp_spa (arp_of ex_reply)) = addr_of 1 2"
  by (simp_all add: arp_of_def dec_ether_arp_def field_at ex_frame_defs addr_of_def mac_of_def
      ether_consts htons_def le16_def)

lemma ex_classify_reply:
  "Device s = ex_device \<Longrightarrow>
   classify s 1 (in_buffer ex_reply) 42 = Learn (addr_of 1 2) (mac_of 0x22)"
  by (simp add: classify_def in_buffer_parts ex_eh ex_arp ex_device_def)

lemma ex_cached:
  "cached (ex_router1 FLAG_OK t) 1 (addr_of 1 2) = Some (mac_of 0x22, t)"
  "cached (ex_router1 FLAG_NG t) 1 (addr_of 1 2) = None"
  "cached ex_router0 d a = None"
  by (simp_all add: cached_def ex_router1_def ex_router0_def ex_entry_def)

lemma ex_resolved: "resolved_at (ex_router1 FLAG_OK t) (1, 0) (addr_of 1 2)"
  by (simp add: resolved_at_def ex_router1_live) (simp add: ex_entry_def)

lemma no_live0: "\<not> live ex_router0 k"
  by (simp add: live_def slots_def ex_router0_def)

section \<open>A turn of the receive loop that reads one frame\<close>

definition ex_turn :: "bytes \<Rightarrow> turn" where
  "ex_turn f = \<lparr>t_poll = 1, t_ready = (\<lambda>_. True), t_read = (\<lambda>_. (int (length f), f)),
     t_os = (\<lambda>_. ex_os), t_signal = False\<rparr>"

lemma ex_turn_ok:
  "recv_ok (ex_turn ex_frame64) d" "recv_ok (ex_turn ex_reply) d"
  by (simp_all add: recv_ok_def ex_turn_def ex_eh)

lemma ex_turn_signal [simp]:
  "recv_ok (t\<lparr>t_signal := b\<rparr>) d = recv_ok t d" "t_signal (t\<lparr>t_signal := b\<rparr>) = b"
  by (simp_all add: recv_ok_def)

text \<open>A frame of 34 bytes whose header length field is 15, that is, 60 bytes\<close>

definition ex_short :: bytes where
  "ex_short = [2, 0, 0, 0, 0, 1, 2, 0, 0, 0, 0, 0x11, 8, 0,
     0x4F, 0, 0, 20, 0, 1, 0, 0, 64, 17, 0, 0, 192, 168, 0, 2, 192, 168, 1, 2]"

end
