(* ===== verification/RouterProps.thy ===== *)
theory RouterProps
  imports RouterSystem Resolver Examples
begin

text \<open>
  What the router guarantees to the outside: the properties of \<open>AnalyzePacket\<close>, of the buffer
  thread and of the running system, stated on frames and on the log of frames sent.
\<close>

section \<open>Undefined behaviour\<close>



section \<open>Forwarding\<close>

lemma Forward_parts:
  assumes "classify s d data n = Forward a"
  shows "14 \<le> n" "34 \<le> n" "ether_type (eh_of data) = htons ETHERTYPE_IP" "header_ok data"
  using assms by (auto simp: classify_def classify_ip_def split: if_splits)

lemma search_resolved_hit:
  assumes S: "search_post e d a None s X R i t X' R'" and inv: "inv s X R" and k: "resolved_at s (d, j) a"
  shows "i = j" "i_hwaddr (ent t (d, j)) = i_hwaddr (ent s (d, j))" "X' (d, j) = X (d, j)"
    "i_flag (ent t (d, j)) = FLAG_OK"
proof -
  from search_post_found [OF S inv k]
  have f: "j = i" "ent t (d, i) = (ent s (d, i))\<lparr>i_lastTime := o_now e\<rparr>" by auto
  have "is_hit e d a None s j" using k by (simp add: is_hit_def resolved_at_def resolves_def)
  then have hit: "\<exists>j. is_hit e d a None s j" ..
  have "X' (d, i) = X (d, i)" using S unfolding search_post_def if_P [OF hit] by blast
  with f k show "i = j" "i_hwaddr (ent t (d, j)) = i_hwaddr (ent s (d, j))" "X' (d, j) = X (d, j)"
    "i_flag (ent t (d, j)) = FLAG_OK"
    by (simp_all add: resolved_at_def)
qed

text \<open>C5: A frame to be forwarded to a next hop whose MAC address is known and for which no frame
  waits is sent at once, on the other device, as one frame of the same size: addressed to the next
  hop, from the router's own address, with the time to live decremented, all other header fields,
  the options and the payload as received, and a header checksum the next router accepts.\<close>

theorem forwarded_frame:
  assumes inv: "inv s X R" and d: "d < 2" and mem: "o_malloc_table e"
    and data: "length data = 2048" and n: "n \<le> 2048" and c: "complete (take n data)"
    and fwd: "classify s d data n = Forward a"
    and res: "resolved_at s (other d, i) a" and empty: "dno (i_sd (ent s (other d, i))) = 0"
  shows "\<exists>data' s' f. AnalyzePacket e d data (int n) s = Some (0, data', s') \<and>
    out s' = out s @ [(soc (Device s (other d)), f)] \<and> length f = n \<and>
    eh_of f = \<lparr>ether_dhost = i_hwaddr (ent s (other d, i)),
      ether_shost = hwaddr (Device s (other d)), ether_type = htons ETHERTYPE_IP\<rparr> \<and>
    ip_ttl (ip_of f) = ip_ttl (ip_of data) - 1 \<and>
    (ip_of f)\<lparr>ip_ttl := ip_ttl (ip_of data), ip_check := ip_check (ip_of data)\<rparr> = ip_of data \<and>
    checkIPchecksum (enc_iphdr (ip_of f)) (opts_of f) (option_len (ip_ihl (ip_of f))) = Some 1 \<and>
    drop 34 f = drop 34 (take n data)"
proof -
  note p = Forward_parts [OF fwd]
  have n0: "0 < n" using p(1) by simp
  obtain r data' s' X' R' where A: "AnalyzePacket e d data (int n) s = Some (r, data', s')"
    "packet_post e d data n s X R r data' s' X' R'"
    using AnalyzePacket_post [OF inv d mem data n0 n] by blast
  then have "forward_post e (other d) a data n s X R r data' s' X' R'"
    using fwd by (simp add: packet_post_def)
  then obtain j t X1 where t: "search_post e (other d) a None s X R j t X1 R'"
    and o: "ready t (other d, j) X1 \<Longrightarrow> r = 0 \<and> s' = t\<lparr>out := out s @ [(soc (Device s (other d)),
      take n (fwd_frame (i_hwaddr (ent t (other d, j))) (Some (hwaddr (Device s (other d)))) data))]\<rparr>"
    unfolding forward_post_def Let_def by (elim exE conjE) (erule that, simp)
  note hit = search_resolved_hit [OF t inv res]
  have "X (other d, i) = []"
    using inv_dno [OF inv, of "(other d, i)"] res empty by (simp add: resolved_at_def)
  then have "ready t (other d, j) X1" using hit by (simp add: ready_def)
  let ?f = "fwd_frame (i_hwaddr (ent s (other d, i))) (Some (hwaddr (Device s (other d)))) (take n data)"
  have r: "r = 0" "out s' = out s @ [(soc (Device s (other d)), ?f)]"
    using o [OF \<open>ready t (other d, j) X1\<close>] hit fwd_frame_take [OF c] by simp_all
  have h: "ip_of (take n data) = ip_of data" "eh_of (take n data) = eh_of data"
    using p(1,2) by (simp_all add: ip_of_take eh_of_take)
  have "length (take n data) = n" using n data by simp
  with fwd_frame_correct [OF c refl, of "i_hwaddr (ent s (other d, i))" "hwaddr (Device s (other d))"]
  show ?thesis using A(1) r p(3) unfolding h by metis
qed

theorem forwarded_frame_witness:
  "\<exists>data' s' f. AnalyzePacket ex_os 0 (in_buffer ex_frame64) (int 54) (ex_router1 FLAG_OK 90) =
     Some (0, data', s') \<and> out s' = [(4, f)] \<and> ip_ttl (ip_of f) = 63"
proof -
  have "\<exists>data' s' f. AnalyzePacket ex_os 0 (in_buffer ex_frame64) (int 54) (ex_router1 FLAG_OK 90) =
      Some (0, data', s') \<and> out s' = out (ex_router1 FLAG_OK 90) @
        [(soc (Device (ex_router1 FLAG_OK 90) (other 0)), f)] \<and>
      ip_ttl (ip_of f) = ip_ttl (ip_of (in_buffer ex_frame64)) - 1"
    using forwarded_frame [OF ex_router1_inv [of FLAG_OK 90], of 0 ex_os "in_buffer ex_frame64" 54
        "addr_of 1 2" 0] ex_classify(1) [of "ex_router1 FLAG_OK 90"] ex_resolved
      take_in_buffer [of ex_frame64]
    by (simp add: ex_entry_def sd_empty_def del: take_in_buffer) blast
  then show ?thesis by (simp add: ex_device_def in_buffer_parts ex_ip)
qed

lemma search_unresolved:
  assumes S: "search_post e d a None s X R i t X' R'" and none: "cached s d a = None" and inv: "inv s X R"
  shows "i_flag (ent t (d, i)) = FLAG_NG" "live t (d, i)" "i_addr (ent t (d, i)) = a"
    "X' (d, i) = [] \<and> i_sd (ent t (d, i)) = sd_empty \<or>
     (X' (d, i) = X (d, i) \<and> live s (d, i) \<and> i_addr (ent s (d, i)) = a \<and>
      i_sd (ent t (d, i)) = i_sd (ent s (d, i)))"
proof -
  show t: "live t (d, i)" "i_addr (ent t (d, i)) = a" using S unfolding search_post_def by blast+
  have "\<not> resolved_at t (d, i) a"
    using search_post_none [OF S] cached_SomeI [OF inv] none by fastforce
  then show "i_flag (ent t (d, i)) = FLAG_NG"
    using t by (cases "i_flag (ent t (d, i))") (auto simp: resolved_at_def live_def)
  show "X' (d, i) = [] \<and> i_sd (ent t (d, i)) = sd_empty \<or>
     (X' (d, i) = X (d, i) \<and> live s (d, i) \<and> i_addr (ent s (d, i)) = a \<and>
      i_sd (ent t (d, i)) = i_sd (ent s (d, i)))"
    using S by (auto simp: search_post_def is_hit_def init_entry_def split: if_splits)
qed

lemma packet_unresolved:
  assumes inv: "inv s X R" and d: "d < 2" and mem: "o_malloc_table e"
    and data: "length data = 2048" and n: "n \<le> 2048"
    and fwd: "classify s d data n = Forward a" and none: "cached s (other d) a = None"
    and calls: "e_malloc_node (o_send e)" "e_malloc_data (o_send e)" "e_lock (o_send e) = 0"
    and room: "\<forall>j. live s (other d, j) \<and> i_addr (ent s (other d, j)) = a \<longrightarrow>
      inBucketSize (i_sd (ent s (other d, j))) \<le> MAX_BUCKET_SIZE"
  shows "\<exists>s' X' R' i q. AnalyzePacket e d data (int n) s = Some (-1, data, s') \<and> inv s' X' R' \<and>
    live s' (other d, i) \<and> i_addr (ent s' (other d, i)) = a \<and> i_flag (ent s' (other d, i)) = FLAG_NG \<and>
    X' (other d, i) = q @ [take n data] \<and> (q = [] \<or> q = X (other d, i)) \<and>
    out s' = SendArpRequestB (soc (Device s (other d))) a bcast (addr (Device s (other d)))
      (hwaddr (Device s (other d))) (out s) \<and>
    packet_post e d data n s X R (-1) data s' X' R' \<and> Device s' = Device s \<and> NextRouter s' = NextRouter s"
proof -
  have n0: "0 < n" using Forward_parts [OF fwd] by simp
  obtain r data' s' X' R' where A: "AnalyzePacket e d data (int n) s = Some (r, data', s')"
    "packet_post e d data n s X R r data' s' X' R'"
    using AnalyzePacket_post [OF inv d mem data n0 n] by blast
  then have "forward_post e (other d) a data n s X R r data' s' X' R'" and I: "inv s' X' R'"
    using fwd by (simp_all add: packet_post_def)
  then obtain i t X1 where t: "search_post e (other d) a None s X R i t X1 R'"
    and o: "\<not> ready t (other d, i) X1 \<Longrightarrow> r = -1 \<and> data' = data \<and>
      X' = queued e t (other d, i) (take n data) X1 \<and> q_step t s' (other d, i) \<and>
      out s' = arp_log s (other d) a (ent t (other d, i))"
    unfolding forward_post_def Let_def by (elim exE conjE) (erule that, simp)
  note u = search_unresolved [OF t none inv]
  have q: "r = -1" "data' = data" "X' = queued e t (other d, i) (take n data) X1"
    "q_step t s' (other d, i)" "out s' = arp_log s (other d) a (ent t (other d, i))"
    using o u(1) by (simp_all add: ready_def)
  have "inBucketSize (i_sd (ent t (other d, i))) \<le> MAX_BUCKET_SIZE"
    using u(4) room by (auto simp: sd_empty_def)
  then have "append_succeeds (o_send e) (i_sd (ent t (other d, i)))"
    using calls by (simp add: append_succeeds_def)
  then have "X' (other d, i) = X1 (other d, i) @ [take n data]" using q(3) by (simp add: queued_def)
  moreover have "X1 (other d, i) = [] \<or> X1 (other d, i) = X (other d, i)" using u(4) by blast
  ultimately show ?thesis
    using A I q(1,2,5) u(1-3) q_step_fields(1,2,5,6) [OF q(4)] q_step_live [OF q(4)]
      search_post_world [OF t]
    by (intro exI [of _ s'] exI [of _ X'] exI [of _ R'] exI [of _ i] exI [of _ "X1 (other d, i)"])
      (simp add: arp_log_def same_world_def)
qed

text \<open>C7: A frame to be forwarded to a next hop whose MAC address is not known is not sent. An ARP
  request for the next hop is broadcast on its network, and the frame becomes the last of the
  queue of the next hop's entry, unless the queue already exceeds \<open>MAX_BUCKET_SIZE\<close> or a library
  call fails.\<close>

theorem unresolved_frame_queued:
  assumes inv: "inv s X R" and d: "d < 2" and mem: "o_malloc_table e"
    and data: "length data = 2048" and n: "n \<le> 2048"
    and fwd: "classify s d data n = Forward a" and none: "cached s (other d) a = None"
    and calls: "e_malloc_node (o_send e)" "e_malloc_data (o_send e)" "e_lock (o_send e) = 0"
    and room: "\<forall>j. live s (other d, j) \<and> i_addr (ent s (other d, j)) = a \<longrightarrow>
      inBucketSize (i_sd (ent s (other d, j))) \<le> MAX_BUCKET_SIZE"
  shows "\<exists>s' X' R' i q. AnalyzePacket e d data (int n) s = Some (-1, data, s') \<and> inv s' X' R' \<and>
    live s' (other d, i) \<and> i_addr (ent s' (other d, i)) = a \<and> i_flag (ent s' (other d, i)) = FLAG_NG \<and>
    X' (other d, i) = q @ [take n data] \<and> (q = [] \<or> q = X (other d, i)) \<and>
    out s' = SendArpRequestB (soc (Device s (other d))) a bcast (addr (Device s (other d)))
      (hwaddr (Device s (other d))) (out s)"
  using packet_unresolved [OF assms] by blast

theorem unresolved_frame_queued_witness:
  "\<exists>s'. AnalyzePacket ex_os 0 (in_buffer ex_frame64) (int 54) ex_router0 =
     Some (-1, in_buffer ex_frame64, s') \<and>
   out s' = SendArpRequestB 4 (addr_of 1 2) bcast (addr_of 1 1) (mac_of 2) []"
  using unresolved_frame_queued [OF ex_router0_inv, of 0 ex_os "in_buffer ex_frame64" 54 "addr_of 1 2"]
    ex_classify(1) [of ex_router0]
  by (simp add: ex_cached no_live0) (auto simp: ex_device_def)

text \<open>C28: A frame whose time to live is 1 is answered with one ICMP time exceeded message, sent back
  on the device it came from to the MAC and IP addresses it came from: type 11, code 0, followed
  by the first 64 bytes from the IP header on; both its IP header checksum and its ICMP checksum
  are right, and \<open>tot_len\<close> is the size of the message without the Ethernet header.\<close>

theorem time_exceeded_reply:
  assumes inv: "inv s X R" and d: "d < 2" and mem: "o_malloc_table e"
    and data: "length data = 2048" and n: "n \<le> 2048" and exp: "classify s d data n = Expire"
  shows "\<exists>s' f. AnalyzePacket e d data (int n) s = Some (-1, data, s') \<and>
    s' = s\<lparr>out := out s @ [(soc (Device s d), f)]\<rparr> \<and> length f = 106 \<and>
    eh_of f = \<lparr>ether_dhost = ether_shost (eh_of data), ether_shost = hwaddr (Device s d),
      ether_type = htons ETHERTYPE_IP\<rparr> \<and>
    ip_saddr (ip_of f) = addr (Device s d) \<and> ip_daddr (ip_of f) = ip_saddr (ip_of data) \<and>
    ip_protocol (ip_of f) = IPPROTO_ICMP \<and> ip_ttl (ip_of f) = 64 \<and>
    unat (ntohs (ip_tot_len (ip_of f))) = length f - 14 \<and>
    checkIPchecksum (enc_iphdr (ip_of f)) [] (option_len (ip_ihl (ip_of f))) = Some 1 \<and>
    icmp_type (dec_icmp (take 8 (drop 34 f))) = 11 \<and> icmp_code (dec_icmp (take 8 (drop 34 f))) = 0 \<and>
    checksum (drop 34 f) 72 = Some 0 \<and> drop 42 f = take 64 (drop 14 data)"
proof -
  have n0: "0 < n" using exp by (auto simp: classify_def split: if_splits)
  obtain r data' s' X' R' where A: "AnalyzePacket e d data (int n) s = Some (r, data', s')"
    "packet_post e d data n s X R r data' s' X' R'"
    using AnalyzePacket_post [OF inv d mem data n0 n] by blast
  then have r: "r = -1" "data' = data"
    "s' = s\<lparr>out := out s @ [(soc (Device s d), time_exceeded s d data)]\<rparr>"
    using exp by (simp_all add: packet_post_def)
  have "34 \<le> length data" "length (take 64 (drop 14 data)) = 64" using data by simp_all
  from time_exceeded_correct [OF this(2) refl, of s d] show ?thesis using A(1) r by blast
qed

theorem time_exceeded_reply_witness:
  "\<exists>s' f. AnalyzePacket ex_os 0 (in_buffer ex_frame1) (int 54) ex_router0 =
     Some (-1, in_buffer ex_frame1, s') \<and> out s' = [(3, f)] \<and> length f = 106 \<and>
     ip_daddr (ip_of f) = addr_of 0 2"
proof -
  have "ip_saddr (ip_of ex_frame1) = addr_of 0 2"
    by (simp add: ip_of_def dec_iphdr_def field_at ex_frame_defs addr_of_def)
  then show ?thesis
    using time_exceeded_reply [OF ex_router0_inv, of 0 ex_os "in_buffer ex_frame1" 54]
      ex_classify(2) [of ex_router0]
    by (auto simp: ex_device_def in_buffer_parts)
qed

section \<open>Corrupted headers\<close>

lemma bytes16_le16_at:
  assumes "Suc i < length f"
  shows "f = take i f @ bytes16 (u16_at f i) @ drop (i + 2) f"
proof -
  have "take (Suc (Suc i)) f = take i f @ [f ! i, f ! Suc i]"
    using assms by (simp add: take_Suc_conv_app_nth)
  moreover have "bytes16 (u16_at f i) = [f ! i, f ! Suc i]" by (simp add: u16_at_def)
  ultimately show ?thesis using append_take_drop_id [of "Suc (Suc i)" f] by simp
qed

text \<open>The header and its options are one contiguous part of the frame.\<close>

lemma header_bytes:
  "take 20 (drop 14 f) @ opts_of f = take (20 + nat (option_len (ip_ihl (ip_of f)))) (drop 14 f)"
  by (simp add: opts_of_def take_add)

lemma header_ok_corrupted:
  assumes ok: "header_ok f" and c: "complete f" and i: "even i" "16 \<le> i"
    and in_h: "i + 2 \<le> 34 + nat (option_len (ip_ihl (ip_of f)))"
    and w: "unat w mod 65535 \<noteq> unat (u16_at f i) mod 65535"
  shows "\<not> header_ok (take i f @ bytes16 w @ drop (i + 2) f)"
proof -
  let ?n = "20 + nat (option_len (ip_ihl (ip_of f)))"
  let ?g = "take i f @ bytes16 w @ drop (i + 2) f"
  let ?pre = "take (i - 14) (drop 14 f)" and ?post = "take (?n - (i - 12)) (drop (i + 2) f)"
  have l: "Suc i < length f" "14 + ?n \<le> length f" using c in_h by (simp_all add: complete_def)
  have part: "take ?n (drop 14 (take i f @ bytes16 v @ drop (i + 2) f)) = ?pre @ bytes16 v @ ?post" for v
    using l i in_h by (simp add: drop_take min_def take_Cons' bytes16_def)
  have "ip_ihl (ip_of ?g) = ip_ihl (ip_of f)"
    using i l by (simp add: ip_of_def dec_iphdr_def nth_append)
  then have hg: "take 20 (drop 14 ?g) @ opts_of ?g = ?pre @ bytes16 w @ ?post"
    unfolding header_bytes [of ?g] by (simp only: part)
  have hf: "take 20 (drop 14 f) @ opts_of f = ?pre @ bytes16 (u16_at f i) @ ?post"
    using part [of "u16_at f i"] unfolding header_bytes bytes16_le16_at [OF l(1), symmetric] .
  have "even (length ?pre)" using i l by (simp add: min_def)
  moreover have "20 \<le> length (?pre @ bytes16 (u16_at f i) @ ?post)"
    unfolding hf [symmetric] header_bytes using l(2) by simp
  moreover have "wsum (?pre @ bytes16 (u16_at f i) @ ?post) mod 65535 = 0"
    using ok unfolding header_ok_def hf .
  ultimately show ?thesis
    unfolding header_ok_def hg by (rule split20.corruption_detected) (rule w [symmetric])
qed

text \<open>C29: A frame for the router whose IP header checksum is wrong is dropped without any effect. A
  change of any 16 bit word of a good header, except the one with the header length, to a word that
  is not congruent modulo 65535 makes the checksum wrong.\<close>

theorem corrupted_header_dropped:
  assumes inv: "inv s X R" and d: "d < 2" and mem: "o_malloc_table e"
    and data: "length data = 2048" and n: "34 \<le> n" "n \<le> 2048"
    and ip: "ether_type (eh_of data) = htons ETHERTYPE_IP" and ok: "header_ok data"
    and i: "even i" "16 \<le> i" "i + 2 \<le> 34 + nat (option_len (ip_ihl (ip_of data)))"
    and w: "unat w mod 65535 \<noteq> unat (u16_at data i) mod 65535"
  shows "AnalyzePacket e d (take i data @ bytes16 w @ drop (i + 2) data) (int n) s =
    Some (-1, take i data @ bytes16 w @ drop (i + 2) data, s)"
proof -
  let ?g = "take i data @ bytes16 w @ drop (i + 2) data"
  have c: "complete data" using data by (simp add: complete_buffer)
  have l: "length ?g = 2048"
    using data i(3) option_len_bounds(2) [of "ip_ihl (ip_of data)"] by simp
  have bad: "\<not> header_ok ?g" using ok c i w by (rule header_ok_corrupted)
  have "eh_of ?g = eh_of data" using i(2) data by (simp add: eh_of_def min_def)
  then have "classify s d ?g n = Drop"
    using ip bad n by (simp add: classify_def classify_ip_def htons_eq_iff ether_consts)
  moreover have "0 < n" using n by simp
  then obtain r data' s' X' R' where "AnalyzePacket e d ?g (int n) s = Some (r, data', s')"
    "packet_post e d ?g n s X R r data' s' X' R'"
    using AnalyzePacket_post [OF inv d mem l _ n(2)] by blast
  ultimately show ?thesis by (simp add: packet_post_def)
qed

theorem corrupted_header_dropped_witness:
  "AnalyzePacket ex_os 0 (take 22 (in_buffer ex_frame64) @ bytes16 0 @ drop (22 + 2) (in_buffer ex_frame64))
     (int 54) ex_router0 =
   Some (-1, take 22 (in_buffer ex_frame64) @ bytes16 0 @ drop (22 + 2) (in_buffer ex_frame64), ex_router0)"
proof (rule corrupted_header_dropped [OF ex_router0_inv])
  show "unat (0 :: u16) mod 65535 \<noteq> unat (u16_at (in_buffer ex_frame64) 22) mod 65535"
    by (simp add: u16_at_def in_buffer_def ex_frame_defs nth_append le16_def)
qed (simp_all add: in_buffer_parts ex_eh ex_header_ok header_ok_in_buffer)

section \<open>Learning\<close>

lemma packet_learn:
  assumes inv: "inv s X R" and d: "d < 2" and mem: "o_malloc_table e"
    and data: "length data = 2048" and n: "n \<le> 2048" and learn: "classify s d data n = Learn a m"
  shows "\<exists>s' X' R' i. AnalyzePacket e d data (int n) s = Some (0, data, s') \<and> inv s' X' R' \<and>
    search_post e d a (Some m) s X R i s' X' R'"
proof -
  have n0: "0 < n" using learn by (auto simp: classify_def split: if_splits)
  obtain r data' s' X' R' where "AnalyzePacket e d data (int n) s = Some (r, data', s')"
    "packet_post e d data n s X R r data' s' X' R'"
    using AnalyzePacket_post [OF inv d mem data n0 n] by blast
  with learn show ?thesis by (auto simp: packet_post_def)
qed

text \<open>An ARP request or reply for the router is learnt: the sender's MAC address is the one
  cached for its IP address, nothing is sent, and if frames wait for it, a request for the buffer
  thread is pending, unless posting it fails.\<close>

theorem arp_learnt:
  assumes inv: "inv s X R" and d: "d < 2" and mem: "o_malloc_table e"
    and data: "length data = 2048" and n: "n \<le> 2048" and learn: "classify s d data n = Learn a m"
  shows "\<exists>s' X' R' t. AnalyzePacket e d data (int n) s = Some (0, data, s') \<and> inv s' X' R' \<and>
    cached s' d a = Some (m, t) \<and> out s' = out s \<and>
    (o_lock_req e = 0 \<and> o_malloc_req e \<longrightarrow>
      (\<forall>i. resolved_at s' (d, i) a \<and> X' (d, i) \<noteq> [] \<longrightarrow> (d, i) \<in> set R'))"
proof -
  obtain s' X' R' i where A: "AnalyzePacket e d data (int n) s = Some (0, data, s')"
    and r: "inv s' X' R'" and S: "search_post e d a (Some m) s X R i s' X' R'"
    using packet_learn [OF assms] by blast
  have k: "resolved_at s' (d, i) a" "i_hwaddr (ent s' (d, i)) = m"
    using search_post_learn [OF S] S by (auto simp: resolved_at_def search_post_def)
  have "(d, j) \<in> set R'" if "o_lock_req e = 0" "o_malloc_req e" "resolved_at s' (d, j) a" "X' (d, j) \<noteq> []" for j
  proof -
    have "i = j" using resolved_unique [OF r k(1)] that(3) by (simp add: resolved_at_def)
    moreover have "X' (d, i) = X (d, i) \<and> R' = add_req e (d, i) R" if "X' (d, i) \<noteq> []"
      using S that by (auto simp: search_post_def split: if_splits)
    ultimately show ?thesis using that add_req_in by metis
  qed
  moreover have "cached s' d a = Some (m, i_lastTime (ent s' (d, i)))"
    using cached_SomeI [OF r k(1)] k(2) by simp
  ultimately show ?thesis using A r search_post_out [OF S] by blast
qed

theorem arp_learnt_witness:
  "\<exists>s' t. AnalyzePacket ex_os 1 (in_buffer ex_reply) (int 42) ex_router0 =
     Some (0, in_buffer ex_reply, s') \<and> cached s' 1 (addr_of 1 2) = Some (mac_of 0x22, t)"
  using arp_learnt [OF ex_router0_inv, of 1 ex_os "in_buffer ex_reply" 42 "addr_of 1 2" "mac_of 0x22"]
    ex_classify_reply [of ex_router0]
  by auto

section \<open>The buffer thread\<close>




lemma ex_learnt:
  "\<exists>buf s i. reach (\<lambda>ev. event_ok ev \<and> no_failure ev) (buf, s) \<and> resolved_at s (1, i) (addr_of 1 2)"
proof -
  let ?G = "\<lambda>ev. event_ok ev \<and> no_failure ev" and ?t = "ex_turn ex_reply"
  obtain s X' R' i where A: "AnalyzePacket ex_os 1 (in_buffer ex_reply) (int 42) ex_router0 =
      Some (0, in_buffer ex_reply, s)" "inv s X' R'"
    "search_post ex_os 1 (addr_of 1 2) (Some (mac_of 0x22)) ex_router0 (\<lambda>_. []) [] i s X' R'"
    using packet_learn [OF ex_router0_inv, of 1 ex_os "in_buffer ex_reply" 42 "addr_of 1 2" "mac_of 0x22"]
      ex_classify_reply [of ex_router0] by auto
  have "mwrite (in_buffer []) 0 ex_reply = Some (in_buffer ex_reply)"
    by (simp add: in_buffer_def mwrite_Some)
  then have "sys_step (in_buffer [], ex_router0) (Recv 1 ?t) (in_buffer ex_reply, s)"
    using A(1) by (simp add: sys_step_simps Router_recv_def ex_turn_def)
  moreover have "?G (Recv 1 ?t)" using ex_turn_ok by (simp add: ex_turn_def)
  moreover have "reach ?G (in_buffer [], ex_router0)" using ex_router0_initial by (rule reach.init) simp
  ultimately have "reach ?G (in_buffer ex_reply, s)" by (metis (mono_tags, lifting) reach.step)
  moreover have "resolved_at s (1, i) (addr_of 1 2)"
    using search_post_learn [OF A(3)] A(3) by (simp add: resolved_at_def search_post_def)
  ultimately show ?thesis by blast
qed


text \<open>C10: In every reachable state, no two entries in use of a table have the same address, every
  entry's counters are the number and the total size of the frames in its queue, at most the
  bucket and one frame, and every pending request names an entry of a table, none twice.\<close>

theorem reachable_tables_consistent:
  assumes "reach event_ok (buf, s)"
  shows "\<exists>X R. unique_addr s \<and>
    (\<forall>k. live s k \<longrightarrow> (\<exists>ps. sdrep (bufs s) (i_sd (ent s k)) ps (X k)) \<and>
       unat (dno (i_sd (ent s k))) = length (X k) \<and>
       unat (inBucketSize (i_sd (ent s k))) = sum_list (map length (X k)) \<and>
       sum_list (map length (X k)) \<le> 1024 * 1024 + 2048) \<and>
    (\<exists>ps. rrep (reqs s) (SendReq s) ps R) \<and> distinct R \<and> set R \<subseteq> slots s"
proof -
  obtain X R where "sys_inv (buf, s) X R" using reach_sys_inv [OF assms] by blast
  then have I: "inv s X R" by (simp add: sys_inv_def)
  have "\<exists>ps. sdrep (bufs s) (i_sd (ent s k)) ps (X k)" "sd_counts (i_sd (ent s k)) (X k)"
    if "live s k" for k
    using inv_slot [OF I live_slot [OF that]] inv_counts [OF I that] by blast+
  then show ?thesis
    using I by (intro exI [of _ X] exI [of _ R]) (simp add: sd_counts_def inv_def reqs_ok_def)
qed

theorem reachable_tables_consistent_witness: "unique_addr ex_router0 \<and> slots ex_router0 = {}"
proof -
  have "reach event_ok (in_buffer [], ex_router0)" using ex_router0_initial by (rule reach.init) simp
  from reachable_tables_consistent [OF this] show ?thesis
    by (auto simp: slots_def ex_router0_def)
qed

section \<open>From the first frame to its delivery\<close>

lemma search_post_same:
  "search_post e d a hw s X R i t X' R' \<Longrightarrow> live s (d, j) \<Longrightarrow> i_addr (ent s (d, j)) = a \<Longrightarrow>
   inv s X R \<Longrightarrow> hw \<noteq> None \<Longrightarrow> i = j \<and> X' (d, j) = X (d, j) \<and>
   R' = (if X (d, j) \<noteq> [] then add_req e (d, j) R else R)"
proof -
  assume S: "search_post e d a hw s X R i t X' R'" and j: "live s (d, j)" "i_addr (ent s (d, j)) = a"
    and inv: "inv s X R" and hw: "hw \<noteq> None"
  have h: "is_hit e d a hw s j" using j hw by (simp add: is_hit_def resolves_def)
  then have hit: "\<exists>j. is_hit e d a hw s j" ..
  have i: "is_hit e d a hw s i" "X' (d, i) = X (d, i)"
    "R' = (if hw \<noteq> None \<and> X (d, i) \<noteq> [] then add_req e (d, i) R else R)"
    using S unfolding search_post_def if_P [OF hit] by blast+
  with is_hit_unique [OF inv i(1) h] hw show ?thesis by simp
qed

text \<open>C6: The whole path of a frame to a neighbour not known yet: it is queued and an ARP request is
  sent; when the neighbour's ARP reply arrives, nothing is sent but a request is posted; at the
  next wake-up of the buffer thread the frame is sent to the MAC address of the reply.\<close>

theorem delivery_after_reply:
  assumes inv: "inv s X R" and d: "d < 2" and data: "length data = 2048" "n \<le> 2048"
    and frames: "\<forall>k. \<forall>f \<in> set (X k). complete f" and c: "complete (take n data)"
    and fwd: "classify s d data n = Forward a" and none: "cached s (other d) a = None"
    and env1: "o_malloc_table e1" "e_malloc_node (o_send e1)" "e_malloc_data (o_send e1)"
      "e_lock (o_send e1) = 0"
    and room: "\<forall>j. live s (other d, j) \<and> i_addr (ent s (other d, j)) = a \<longrightarrow>
      inBucketSize (i_sd (ent s (other d, j))) \<le> MAX_BUCKET_SIZE"
    and reply: "length reply = 2048" "n' \<le> 2048" "classify s (other d) reply n' = Learn a m"
    and env2: "o_malloc_table e2" "o_lock_req e2 = 0" "o_malloc_req e2"
  shows "\<exists>s1 s2 s3. AnalyzePacket e1 d data (int n) s = Some (-1, data, s1) \<and>
    AnalyzePacket e2 (other d) reply (int n') s1 = Some (0, reply, s2) \<and>
    buffer_drain 0 (\<lambda>_. 0) s2 = Some s3 \<and>
    (soc (Device s (other d)), fwd_frame m None (take n data)) \<in> set (out s3)"
proof -
  let ?o = "other d"
  obtain s1 X1 R1 i q where s1: "AnalyzePacket e1 d data (int n) s = Some (-1, data, s1)" "inv s1 X1 R1"
    "live s1 (?o, i)" "i_addr (ent s1 (?o, i)) = a" "X1 (?o, i) = q @ [take n data]"
    "packet_post e1 d data n s X R (-1) data s1 X1 R1" "Device s1 = Device s" "NextRouter s1 = NextRouter s"
    using packet_unresolved [OF inv d env1(1) data fwd none env1(2-4) room] by blast
  have "length (take n data) = n" using data by simp
  then have f1: "\<forall>k. \<forall>f \<in> set (X1 k). complete f"
    using packet_post_keeps [of e1 d "take n data" "drop n data"] s1(6) frames c by fastforce
  have o: "?o < 2" by (simp add: other_def)
  have "classify s1 ?o reply n' = Learn a m"
    using reply(3) classify_world [OF s1(7,8)] by simp
  from packet_learn [OF s1(2) o env2(1) reply(1,2) this]
  obtain s2 X2 R2 j where s2: "AnalyzePacket e2 ?o reply (int n') s1 = Some (0, reply, s2)" "inv s2 X2 R2"
    "search_post e2 ?o a (Some m) s1 X1 R1 j s2 X2 R2"
    by blast
  have j: "j = i" "X2 (?o, i) = X1 (?o, i)" "(?o, i) \<in> set R2"
    using search_post_same [OF s2(3) s1(3,4,2)] s1(5) add_req_in [OF env2(2,3)] by simp_all
  have f2: "\<forall>k \<in> set R2. \<forall>f \<in> set (X2 k). complete f" using search_post_frames [OF s2(3) f1] by blast
  obtain s3 where s3: "buffer_drain 0 (\<lambda>_. 0) s2 = Some s3" "out s3 = out s2 @ drained s2 X2 R2"
    using buffer_drain_post [OF s2(2) f2, of "\<lambda>_. 0"] by auto
  have "i_hwaddr (ent s2 (?o, i)) = m" using search_post_learn(2) [OF s2(3)] j(1) by simp
  moreover have "Device s2 = Device s" using search_post_world [OF s2(3)] s1(7) by (simp add: same_world_def)
  ultimately have "(soc (Device s ?o), fwd_frame m None (take n data)) \<in> set (drained s2 X2 R2)"
    using j(2,3) s1(5) unfolding drained_def resend_def by force
  then show ?thesis using s1(1) s2(1) s3 by auto
qed

theorem delivery_after_reply_witness:
  "\<exists>s1 s2 s3. AnalyzePacket ex_os 0 (in_buffer ex_frame64) (int 54) ex_router0 =
      Some (-1, in_buffer ex_frame64, s1) \<and>
    AnalyzePacket ex_os 1 (in_buffer ex_reply) (int 42) s1 = Some (0, in_buffer ex_reply, s2) \<and>
    buffer_drain 0 (\<lambda>_. 0) s2 = Some s3 \<and> (4, fwd_frame (mac_of 0x22) None ex_frame64) \<in> set (out s3)"
  using delivery_after_reply [OF ex_router0_inv, of 0 "in_buffer ex_frame64" 54 "addr_of 1 2" ex_os
      "in_buffer ex_reply" 42 "mac_of 0x22" ex_os] ex_classify(1) [of ex_router0]
    ex_classify_reply [of ex_router0] take_in_buffer [of ex_frame64]
  by (simp add: ex_cached no_live0 ex_device_def del: take_in_buffer)

section \<open>The IP-to-MAC cache\<close>

text \<open>C27: A MAC address the router has learnt stays known through any sequence of look-ups and of
  learning on both devices, as long as none of these calls learns another MAC address for the same
  IP address and none is made more than 60 seconds after the address was last used.\<close>

theorem learnt_address_kept:
  assumes "inv s X R" and "d < 2" and "cached s d a = Some (m, t)"
    and "\<forall>(e, d', b, hw) \<in> set calls. d' < 2 \<and> o_malloc_table e \<and> t \<le> o_now e \<and>
      o_now e \<le> t + 60 \<and> ((d', b) = (d, a) \<longrightarrow> hw = None)"
  shows "\<exists>s' t'. run_calls Ip2Mac calls s = Some s' \<and> cached s' d a = Some (m, t') \<and> t \<le> t'"
proof -
  have ok: "table_ok s" using assms(1) by (auto simp: table_ok_def)
  have "\<forall>(e, d', b, hw) \<in> set calls. d' < 2 \<and> o_malloc_table e" using assms(4) by auto
  then obtain s' where s': "run_calls Ip2Mac calls s = Some s'"
    using ip2mac.run_total [OF ok] by blast
  have "\<forall>(e, d', b, hw) \<in> set calls. d' < 2 \<and> o_malloc_table e \<and> t \<le> o_now e \<and>
      o_now e - t \<le> 60 \<and> ((d', b) = (d, a) \<longrightarrow> hw = None)"
    using assms(4) by auto
  from ip2mac.run_keep [OF ok this assms(2,3) order_refl s'] s' show ?thesis by blast
qed

theorem learnt_address_kept_witness:
  "\<exists>s' t'. run_calls Ip2Mac [(ex_os, 1, addr_of 1 9, Some (mac_of 9)), (ex_os, 1, addr_of 1 2, None)]
     (ex_router1 FLAG_OK 90) = Some s' \<and> cached s' 1 (addr_of 1 2) = Some (mac_of 0x22, t') \<and> 90 \<le> t'"
  by (rule learnt_address_kept [OF ex_router1_inv _ ex_cached(1)]) (simp_all add: addr_of_def le32_def)

text \<open>The router never invents a MAC address: whatever it has cached for an IP address after a
  sequence of calls was received for this address in one of them, or was cached before.\<close>

theorem cached_address_received:
  assumes "inv s X R" and "d < 2"
    and "\<forall>(e, d', b, hw) \<in> set calls. d' < 2 \<and> o_malloc_table e"
    and "run_calls Ip2Mac calls s = Some s'" and "cached s' d a = Some (m, t)"
  shows "(\<exists>e. (e, d, a, Some m) \<in> set calls) \<or> (\<exists>t0. cached s d a = Some (m, t0))"
proof -
  have ok: "table_ok s" using assms(1) by (auto simp: table_ok_def)
  show ?thesis by (rule ip2mac.run_origin [OF ok assms(3,2,4,5)])
qed

theorem cached_address_received_witness:
  "\<exists>s' t. run_calls Ip2Mac [(ex_os, 1, addr_of 1 2, Some (mac_of 9))] ex_router0 = Some s' \<and>
     cached s' 1 (addr_of 1 2) = Some (mac_of 9, t)"
proof -
  have ok: "table_ok ex_router0" using ex_router0_inv by (auto simp: table_ok_def)
  obtain i s' where s': "Ip2Mac ex_os 1 (addr_of 1 2) (Some (mac_of 9)) ex_router0 = Some (i, s')"
    using ip2mac.total [OF ok, of 1 ex_os "addr_of 1 2" "Some (mac_of 9)"] by auto
  obtain m t where t: "cached s' 1 (addr_of 1 2) = Some (m, t)"
    using ip2mac.learn [OF ok _ _ s'] by auto
  have r: "run_calls Ip2Mac [(ex_os, 1, addr_of 1 2, Some (mac_of 9))] ex_router0 = Some s'"
    using s' by simp
  from cached_address_received [OF ex_router0_inv _ _ r t] have "m = mac_of 9"
    by (simp add: ex_cached)
  with r t show ?thesis by blast
qed

text \<open>A reply that comes more than 60 seconds after the router first asked is learnt with the
  time of the asking, so the entry is expired as soon as it is resolved: the next search for any
  other address frees it, and the frames that wait in it, before it could be used.\<close>

theorem late_reply_expires:
  assumes inv: "inv s X R" and k: "live s (d, i)" "i_flag (ent s (d, i)) = FLAG_NG"
    and late: "o_now e - i_lastTime (ent s (d, i)) > 60" and mem: "o_malloc_table e"
    and e2: "o_malloc_table e2" "o_now e \<le> o_now e2"
  shows "\<exists>t. Ip2MacSearch e d (i_addr (ent s (d, i))) (Some m) s = Some (i, t) \<and>
    i_flag (ent t (d, i)) = FLAG_OK \<and> expired (o_now e2) (ent t (d, i))"
proof -
  let ?a = "i_addr (ent s (d, i))"
  have d: "d < 2" using live_slot [OF k(1)] by (simp add: slots_def)
  obtain j t X' R' where t: "Ip2MacSearch e d ?a (Some m) s = Some (j, t)"
    "search_post e d ?a (Some m) s X R j t X' R'"
    using Ip2MacSearch_post [OF inv d mem] by blast
  have h: "is_hit e d ?a (Some m) s i" using k(1) by (simp add: is_hit_def resolves_def)
  then have hit: "\<exists>j. is_hit e d ?a (Some m) s j" ..
  have j: "is_hit e d ?a (Some m) s j" "ent t (d, j) = hit_entry e (Some m) (ent s (d, j))"
    using t(2) unfolding search_post_def if_P [OF hit] by blast+
  have "j = i" using is_hit_unique [OF inv j(1) h] .
  with j(2) k(2) have "i_flag (ent t (d, i)) = FLAG_OK"
    "i_lastTime (ent t (d, i)) = i_lastTime (ent s (d, i))"
    by (simp_all add: hit_entry_def touch_def)
  then show ?thesis
    using t(1) \<open>j = i\<close> late e2(2) by (simp add: expired_def IP2MAC_TIMEOUT_SEC_def)
qed

theorem late_reply_expires_witness:
  "\<exists>t. Ip2MacSearch ex_os 1 (addr_of 1 2) (Some (mac_of 7)) (ex_router1 FLAG_NG 30) = Some (0, t) \<and>
     i_flag (ent t (1, 0)) = FLAG_OK \<and> expired 100 (ent t (1, 0))"
  using late_reply_expires [OF ex_router1_inv [of FLAG_NG 30], of 1 0 ex_os ex_os "mac_of 7"]
  by (simp add: ex_router1_live ex_entry_def)

section \<open>Limits of the code\<close>

text \<open>A frame that arrives with time to live 0 is not dropped: the test is for 1 only. It is
  forwarded like any other, and leaves the router with time to live 255.\<close>

theorem ttl_zero_forwarded:
  assumes ip: "ether_type (eh_of f) = htons ETHERTYPE_IP" "34 \<le> n"
    "ether_dhost (eh_of f) = hwaddr (Device s d)" "header_ok f"
    and ttl: "ip_ttl (ip_of f) = 0"
    and dst: "ip_daddr (ip_of f) \<noteq> addr (Device s (other d))"
  shows "classify s d f n = Forward (next_hop_addr s (other d) (ip_daddr (ip_of f))) \<and>
    ip_ttl (ip_of (fwd_frame dm sm f)) = 255"
  using assms by (simp_all add: classify_def classify_ip_def htons_eq_iff ether_consts ip_of_fwd_frame)

theorem ttl_zero_forwarded_witness:
  "classify ex_router0 0 (in_buffer ex_frame0) 54 = Forward (addr_of 1 2) \<and>
   ip_ttl (ip_of (fwd_frame (mac_of 9) (Some (mac_of 2)) (in_buffer ex_frame0))) = 255"
  using ttl_zero_forwarded [of "in_buffer ex_frame0" 54 ex_router0 0 "mac_of 9" "Some (mac_of 2)"] ex_net
  by (simp add: in_buffer_parts ex_eh ex_ip ex_header_ok header_ok_in_buffer ex_device_def
      next_hop_addr_def)

text \<open>The buffer thread trusts the header length of a buffered frame: if a frame shorter than its
  \<open>ihl\<close> announces is at the head of the queue of a requested entry, \<open>BufferSendOne\<close> reads
  beyond the end of the allocated block.\<close>

theorem buffered_short_frame_overread:
  assumes inv: "inv s X R" and k: "(d, i) \<in> slots s" and X: "X (d, i) = f # fs"
    and short: "34 \<le> length f" "\<not> complete f"
  shows "BufferSendOne 0 d i s = None"
proof -
  obtain h sd where "GetSendData 0 (bufs s) (i_sd (ent s (d, i))) = Some (Some (int (length f), Some f), h, sd)"
    using inv_GetSendData [OF inv k X] by blast
  then show ?thesis
    using k short by (subst BufferSendOne.simps) (simp add: entry_ent Let_def rewrite_buffered_None)
qed

theorem buffered_short_frame_overread_witness:
  "\<exists>s. BufferSendOne 0 1 0 s = None"
proof -
  let ?f = "ex_short" and ?s = "ex_router1 FLAG_OK 90"
  have lv: "live ?s (1, 0)" by (simp add: ex_router1_live)
  have f: "34 \<le> length ?f" "length ?f \<le> 2048" "\<not> complete ?f"
    by (simp_all add: ex_short_def complete_def ip_of_def dec_iphdr_def lo_nibble_def option_len_eq)
  have "append_succeeds (send_ok 0) (i_sd (ent ?s (1, 0)))"
    by (simp add: append_succeeds_def send_ok_def) (simp add: ex_entry_def sd_empty_def)
  then obtain h sd where I: "inv (put_entry 1 0 ((ent ?s (1, 0))\<lparr>i_sd := sd\<rparr>) (?s\<lparr>bufs := h\<rparr>))
      ((\<lambda>_. [])((1, 0) := [take (length ?f) ?f])) []"
    using inv_AppendSendData [OF ex_router1_inv lv, of "length ?f" ?f "send_ok 0"] f by fastforce
  show ?thesis
    by (rule exI, rule buffered_short_frame_overread [OF I, of 1 0 ?f "[]"]) (use f in simp_all)
qed

text \<open>The time exceeded message always carries 64 bytes: for a shorter packet, the bytes after its
  end are those an earlier frame left in the receive buffer.\<close>

theorem time_exceeded_leaks_buffer:
  assumes "length bs \<le> 78" and "length bs + length rest = 2048" and "14 \<le> length bs"
  shows "drop (28 + length bs) (time_exceeded s d (bs @ rest)) = take (78 - length bs) rest"
proof -
  have "length (take 64 (drop 14 (bs @ rest))) = 64" using assms by simp
  from time_exceeded_correct [OF this refl, of s d]
  have "drop 42 (time_exceeded s d (bs @ rest)) = take 64 (drop 14 (bs @ rest))" by blast
  moreover have "28 + length bs = (length bs - 14) + 42" using assms(3) by linarith
  ultimately have "drop (28 + length bs) (time_exceeded s d (bs @ rest)) =
      drop (length bs - 14) (take 64 (drop 14 (bs @ rest)))"
    by (simp only: drop_drop [symmetric])
  then show ?thesis using assms by (simp add: drop_take)
qed

theorem time_exceeded_leaks_buffer_witness:
  "drop 82 (time_exceeded ex_router0 0 (ex_frame1 @ replicate 1994 0x55)) = replicate 24 0x55"
  using time_exceeded_leaks_buffer [of ex_frame1 "replicate 1994 0x55" ex_router0 0] by simp

section \<open>The loops\<close>

text \<open>The receive loop and the buffer thread make only steps of the system: every run of
  \<open>Router\<close> over observed turns and of \<open>BufferSend\<close> over observed wake-ups is a sequence of
  received frames, signals and wake-ups, so what holds in all reachable states holds in every
  interleaving of the two threads.\<close>

theorem threads_make_system_steps:
  "(Router ts (buf, s) = Some w \<longrightarrow> steps (turn_event ts) (buf, s) w) \<and>
   (BufferSend ws s = Some s' \<longrightarrow> steps (\<lambda>ev. \<exists>(l, m) \<in> set ws. ev = Wake l m) (buf, s) (buf, s'))"
  using Router_steps BufferSend_steps by blast

theorem threads_make_system_steps_witness:
  "\<exists>w. Router [ex_turn ex_frame64] (in_buffer [], ex_router0) = Some w \<and>
     steps (turn_event [ex_turn ex_frame64]) (in_buffer [], ex_router0) w"
proof -
  have "sys_inv (in_buffer [], ex_router0) (\<lambda>_. []) []"
    using ex_router0_inv by (simp add: sys_inv_def)
  then obtain w where "Router [ex_turn ex_frame64] (in_buffer [], ex_router0) = Some w"
    using Router_total [of _ _ _ "[ex_turn ex_frame64]"] ex_turn_ok by fastforce
  with threads_make_system_steps show ?thesis by blast
qed

text \<open>The receive loop runs: from every reachable state, every sequence of turns with admissible
  reads is executed to its end, and once a signal has been handled no further turn is taken,
  whatever arrives.\<close>

theorem receive_loop_runs_and_stops:
  assumes "reach event_ok x" and "\<forall>t \<in> set ts. recv_ok t 0 \<and> recv_ok t 1"
    and "recv_ok t 0" and "recv_ok t 1" and "t_signal t"
  shows "\<exists>y. Router (ts @ [t]) x = Some y \<and> EndFlag (snd y) \<and> Router (ts @ t # us) x = Some y"
proof -
  obtain X R where "sys_inv x X R" using reach_sys_inv [OF assms(1)] by blast
  then obtain y X1 R1 where y: "Router ts x = Some y" "sys_inv y X1 R1"
    using Router_total assms(2) by blast
  obtain z where z: "Router [t] y = Some z"
    using Router_total [OF y(2), of "[t]"] assms(3,4) by auto
  have e: "EndFlag (snd z)"
    using z assms(5) by (auto simp: EndSignal_def bind_eq_Some_conv split: if_splits)
  then have "Router (t # us) y = Some z"
    using Router_append [of "[t]" us y] z Router_stopped [OF e, of us] by simp
  with y(1) z e show ?thesis by (simp add: Router_append)
qed

theorem receive_loop_runs_and_stops_witness:
  "\<exists>y. Router ([ex_turn ex_frame64] @ [(ex_turn ex_reply)\<lparr>t_signal := True\<rparr>]) (in_buffer [], ex_router0)
     = Some y \<and> EndFlag (snd y)"
proof -
  have "reach event_ok (in_buffer [], ex_router0)" using ex_router0_initial by (rule reach.init) simp
  moreover have "\<forall>t \<in> set [ex_turn ex_frame64]. recv_ok t 0 \<and> recv_ok t 1"
    by (simp add: ex_turn_ok)
  moreover have "recv_ok ((ex_turn ex_reply)\<lparr>t_signal := True\<rparr>) d" for d by (simp add: ex_turn_ok)
  moreover have "t_signal ((ex_turn ex_reply)\<lparr>t_signal := True\<rparr>)" by simp
  ultimately show ?thesis using receive_loop_runs_and_stops by blast
qed

end
