(* ===== verification/Printing.thy ===== *)
theory Printing
  imports Structs
begin

text \<open>
  The C library's text output as the programs use it: the conversions \<open>%u\<close>, \<open>%d\<close>, \<open>%x\<close>,
  \<open>%02x\<close> and \<open>%02X\<close>, \<open>snprintf\<close> into a buffer, \<open>inet_ntop\<close> and \<open>inet_aton\<close> for IPv4, and the
  functions built on them in \<open>router/netutil.c\<close>, \<open>bridge/netutil.c\<close>, \<open>ltest/ltest.c\<close> and
  \<open>pcap/print.c\<close>. A C string is the list of its characters before the terminating zero.
\<close>

section \<open>Numbers\<close>

definition digit :: "nat \<Rightarrow> char" where
  "digit n = ''0123456789abcdef'' ! n"

definition upper_digit :: "nat \<Rightarrow> char" where
  "upper_digit n = ''0123456789ABCDEF'' ! n"

fun dec_str :: "nat \<Rightarrow> string" where
  "dec_str n = (if n < 10 then [digit n] else dec_str (n div 10) @ [digit (n mod 10)])"

fun hex_str :: "nat \<Rightarrow> string" where
  "hex_str n = (if n < 16 then [digit n] else hex_str (n div 16) @ [digit (n mod 16)])"

fun upper_hex_str :: "nat \<Rightarrow> string" where
  "upper_hex_str n =
     (if n < 16 then [upper_digit n] else upper_hex_str (n div 16) @ [upper_digit (n mod 16)])"

declare dec_str.simps [simp del] hex_str.simps [simp del] upper_hex_str.simps [simp del]

text \<open>A minimal width of two, filled with zeros\<close>

definition pad2 :: "string \<Rightarrow> string" where
  "pad2 s = replicate (2 - length s) (CHR ''0'') @ s"

definition int_str :: "int \<Rightarrow> string" where
  "int_str i = (if i < 0 then CHR ''-'' # dec_str (nat (- i)) else dec_str (nat i))"

abbreviation nl :: string where "nl \<equiv> [CHR 0x0A]"

fun join :: "char \<Rightarrow> string list \<Rightarrow> string" where
  "join c [] = []"
| "join c [s] = s"
| "join c (s # t # ss) = s @ c # join c (t # ss)"

text \<open>\<open>snprintf(buf, size, ...)\<close> for a positive \<open>size\<close> keeps what fits before the zero.\<close>

definition snprintf :: "nat \<Rightarrow> string \<Rightarrow> string" where
  "snprintf size' s = take (size' - 1) s"

section \<open>Addresses\<close>

primrec mac_bytes :: "mac \<Rightarrow> u8 list" where
  "mac_bytes (MAC a b c d e f) = [a, b, c, d, e, f]"

primrec ip4_bytes :: "ip4 \<Rightarrow> u8 list" where
  "ip4_bytes (IP4 a b c d) = [a, b, c, d]"

definition mac_str :: "mac \<Rightarrow> string" where
  "mac_str m = join (CHR '':'') (map (\<lambda>b. pad2 (hex_str (unat b))) (mac_bytes m))"

definition dotted :: "ip4 \<Rightarrow> string" where
  "dotted a = join (CHR ''.'') (map (\<lambda>b. dec_str (unat b)) (ip4_bytes a))"

definition my_ether_ntoa_r :: "mac \<Rightarrow> nat \<Rightarrow> string" where
  "my_ether_ntoa_r hwaddr size' = snprintf size' (mac_str hwaddr)"

text \<open>\<open>arp_ip2str\<close> of \<open>pcap/print.c\<close>\<close>

definition arp_ip2str :: "ip4 \<Rightarrow> nat \<Rightarrow> string" where
  "arp_ip2str ip size' = snprintf size' (dotted ip)"

text \<open>
  \<open>inet_ntop(AF_INET, ...)\<close> writes the dotted decimal form if it fits in the buffer with its
  terminating zero; otherwise it fails and leaves the buffer alone. The callers ignore the failure.
\<close>

definition inet_ntop4 :: "in_addr_t \<Rightarrow> string \<Rightarrow> nat \<Rightarrow> string" where
  "inet_ntop4 a buf size' =
     (let s = dotted (IP4 (ucast a) (ucast (drop_bit 8 a)) (ucast (drop_bit 16 a)) (ucast (drop_bit 24 a)))
      in if length s < size' then s else buf)"

definition my_inet_ntoa_r :: "in_addr_t \<Rightarrow> string \<Rightarrow> nat \<Rightarrow> string" where
  "my_inet_ntoa_r addr' buf size' = inet_ntop4 addr' buf size'"

definition in_addr_t2str :: "in_addr_t \<Rightarrow> string \<Rightarrow> nat \<Rightarrow> string" where
  "in_addr_t2str addr' buf size' = inet_ntop4 addr' buf size'"

text \<open>\<open>ip_ip2str\<close> of \<open>pcap/print.c\<close>\<close>

definition ip_ip2str :: "in_addr_t \<Rightarrow> string \<Rightarrow> nat \<Rightarrow> string" where
  "ip_ip2str ip buf size' = inet_ntop4 ip buf size'"

text \<open>\<open>inet_aton\<close> on the form \<open>a.b.c.d\<close> with decimal numbers\<close>

definition digit_val :: "char \<Rightarrow> nat option" where
  "digit_val c = (if c \<in> set ''0123456789'' then Some (of_char c - 48) else None)"

fun read_dec :: "nat \<Rightarrow> string \<Rightarrow> nat option" where
  "read_dec acc [] = Some acc"
| "read_dec acc (c # cs) = do { v \<leftarrow> digit_val c; read_dec (10 * acc + v) cs }"

fun split_at :: "char \<Rightarrow> string \<Rightarrow> string list" where
  "split_at c [] = [[]]"
| "split_at c (x # xs) =
     (if x = c then [] # split_at c xs
      else (case split_at c xs of [] \<Rightarrow> [[x]] | s # ss \<Rightarrow> (x # s) # ss))"

definition inet_aton :: "string \<Rightarrow> in_addr_t option" where
  "inet_aton s = (case map (read_dec 0) (split_at (CHR ''.'') s) of
     [Some a, Some b, Some c, Some d] \<Rightarrow>
       (if a < 256 \<and> b < 256 \<and> c < 256 \<and> d < 256
        then Some (le32 (of_nat a) (of_nat b) (of_nat c) (of_nat d)) else None)
   | _ \<Rightarrow> None)"

section \<open>Reading back what was printed\<close>

lemma digit_val_digit: "n < 10 \<Longrightarrow> digit_val (digit n) = Some n"
proof -
  assume "n < 10"
  then have "n \<in> {0, 1, 2, 3, 4, 5, 6, 7, 8, 9}" by auto
  then show ?thesis by (auto simp: digit_def digit_val_def)
qed

lemma read_dec_append: "read_dec acc (xs @ ys) = Option.bind (read_dec acc xs) (\<lambda>a. read_dec a ys)"
  by (induction acc xs rule: read_dec.induct) (auto split: bind_splits)

lemma read_dec_dec_str: "read_dec 0 (dec_str n) = Some n"
proof (induction n rule: dec_str.induct)
  case (1 n)
  show ?case
  proof (cases "n < 10")
    case True
    then show ?thesis by (subst dec_str.simps) (simp add: digit_val_digit)
  next
    case False
    then show ?thesis
      using 1 by (subst dec_str.simps) (simp add: read_dec_append digit_val_digit)
  qed
qed

definition hex_chars :: "char set" where
  "hex_chars = set ''0123456789abcdef''"

lemma digit_range [simp]: "n < 16 \<Longrightarrow> digit n \<in> hex_chars"
  unfolding digit_def hex_chars_def by (rule nth_mem) simp

lemma dec_str_digits: "set (dec_str n) \<subseteq> hex_chars"
proof (induction n rule: dec_str.induct)
  case (1 n)
  then show ?case by (subst dec_str.simps) simp
qed

lemma hex_str_digits: "set (hex_str n) \<subseteq> hex_chars"
proof (induction n rule: hex_str.induct)
  case (1 n)
  then show ?case by (subst hex_str.simps) simp
qed

lemma split_at_append:
  "c \<notin> set s \<Longrightarrow> split_at c (s @ c # t) = s # split_at c t"
  by (induction s) auto

lemma split_at_none: "c \<notin> set s \<Longrightarrow> split_at c s = [s]"
  by (induction s) auto

lemma split_at_join: "ss \<noteq> [] \<Longrightarrow> \<forall>s \<in> set ss. c \<notin> set s \<Longrightarrow> split_at c (join c ss) = ss"
  by (induction c ss rule: join.induct) (auto simp: split_at_append split_at_none)

lemma dot_not_digit: "CHR ''.'' \<notin> set (dec_str n)"
  using dec_str_digits [of n] by (auto simp: hex_chars_def)

lemma inet_aton_dotted: "inet_aton (dotted a) = Some (in_addr_of a)"
proof (cases a)
  case (IP4 a0 a1 a2 a3)
  have "split_at (CHR ''.'') (dotted a) = map (\<lambda>b. dec_str (unat b)) (ip4_bytes a)"
    unfolding dotted_def using IP4 dot_not_digit by (intro split_at_join) auto
  then show ?thesis using IP4 by (simp add: inet_aton_def read_dec_dec_str)
qed

section \<open>Lengths\<close>

lemma dec_str_byte: "n < 256 \<Longrightarrow> length (dec_str n) \<le> 3"
  by (simp add: dec_str.simps [of n] dec_str.simps [of "n div 10"] dec_str.simps [of "n div 10 div 10"])

lemma hex_str_byte: "n < 256 \<Longrightarrow> 0 < length (hex_str n) \<and> length (hex_str n) \<le> 2"
  using less_mult_imp_div_less [of n 16 16]
  by (simp add: hex_str.simps [of n] hex_str.simps [of "n div 16"])

lemma pad2_byte: "n < 256 \<Longrightarrow> length (pad2 (hex_str n)) = 2"
  using hex_str_byte [of n] by (simp add: pad2_def)

lemma length_mac_str [simp]: "length (mac_str m) = 17"
  by (cases m) (simp add: mac_str_def pad2_byte)

lemma length_dotted: "length (dotted a) \<le> 15"
proof (cases a)
  case (IP4 a0 a1 a2 a3)
  have l: "length (dec_str (unat b)) \<le> 3" for b :: u8 by (rule dec_str_byte) simp
  show ?thesis using IP4 l [of a0] l [of a1] l [of a2] l [of a3] by (simp add: dotted_def)
qed

lemma my_ether_ntoa_r_80: "my_ether_ntoa_r m 80 = mac_str m"
  by (simp add: my_ether_ntoa_r_def snprintf_def)

section \<open>Properties\<close>

text \<open>A printed MAC address, read back\<close>

definition hex_val :: "char \<Rightarrow> nat option" where
  "hex_val c = (if c \<in> hex_chars
     then Some (if c \<in> set ''0123456789'' then of_char c - 48 else of_char c - 87) else None)"

fun read_hex :: "nat \<Rightarrow> string \<Rightarrow> nat option" where
  "read_hex acc [] = Some acc"
| "read_hex acc (c # cs) = do { v \<leftarrow> hex_val c; read_hex (16 * acc + v) cs }"

definition read_mac :: "string \<Rightarrow> mac option" where
  "read_mac s = (case map (read_hex 0) (split_at (CHR '':'') s) of
     [Some a, Some b, Some c, Some d, Some e, Some f] \<Rightarrow>
       Some (MAC (of_nat a) (of_nat b) (of_nat c) (of_nat d) (of_nat e) (of_nat f))
   | _ \<Rightarrow> None)"

lemma hex_val_digit: "n < 16 \<Longrightarrow> hex_val (digit n) = Some n"
proof -
  assume "n < 16"
  moreover have "\<forall>n \<in> set [0..<16]. hex_val (digit n) = Some n" by code_simp
  ultimately show ?thesis by simp
qed

lemma read_hex_append: "read_hex acc (xs @ ys) = Option.bind (read_hex acc xs) (\<lambda>a. read_hex a ys)"
  by (induction acc xs rule: read_hex.induct) (auto split: bind_splits)

lemma read_hex_hex_str: "read_hex 0 (hex_str n) = Some n"
proof (induction n rule: hex_str.induct)
  case (1 n)
  show ?case
  proof (cases "n < 16")
    case True
    then show ?thesis by (subst hex_str.simps) (simp add: hex_val_digit)
  next
    case False
    then show ?thesis
      using 1 by (subst hex_str.simps) (simp add: read_hex_append hex_val_digit)
  qed
qed

lemma read_hex_pad2: "read_hex 0 (pad2 s) = read_hex 0 s"
proof -
  have "read_hex 0 (replicate k (CHR ''0'')) = Some 0" for k
    by (induction k) (simp_all add: hex_val_def hex_chars_def)
  then show ?thesis by (simp add: pad2_def read_hex_append)
qed

lemma colon_not_digit: "CHR '':'' \<notin> set (pad2 (hex_str n))"
  using hex_str_digits [of n] by (auto simp: hex_chars_def pad2_def)

lemma read_mac_str: "read_mac (mac_str m) = Some m"
proof (cases m)
  case (MAC a b c d e f)
  have "split_at (CHR '':'') (mac_str m) = map (\<lambda>b. pad2 (hex_str (unat b))) (mac_bytes m)"
    unfolding mac_str_def using MAC colon_not_digit by (intro split_at_join) auto
  then show ?thesis using MAC by (simp add: read_mac_def read_hex_pad2 read_hex_hex_str)
qed

text \<open>C40: The addresses the programs print can be read back: the text of an IP address is the dotted
  decimal form that \<open>inet_aton\<close> reads as the same address, and the text of a MAC address
  determines it; both fit the buffers of 80 characters the callers pass, so nothing is cut off.\<close>

theorem printed_addresses_read_back:
  "inet_aton (in_addr_t2str a buf 80) = Some a \<and> inet_aton (my_inet_ntoa_r a buf 80) = Some a \<and>
   inet_aton (ip_ip2str a buf 80) = Some a \<and> inet_aton (arp_ip2str ip 80) = Some (in_addr_of ip) \<and>
   read_mac (my_ether_ntoa_r m 80) = Some m"
proof -
  have "inet_ntop4 a buf 80 = dotted (IP4 (ucast a) (ucast (drop_bit 8 a)) (ucast (drop_bit 16 a)) (ucast (drop_bit 24 a)))"
    using length_dotted [of "IP4 (ucast a) (ucast (drop_bit 8 a)) (ucast (drop_bit 16 a)) (ucast (drop_bit 24 a))"]
    by (simp add: inet_ntop4_def Let_def)
  then have "inet_aton (inet_ntop4 a buf 80) = Some a" by (simp add: inet_aton_dotted)
  moreover have "arp_ip2str ip 80 = dotted ip"
    using length_dotted [of ip] by (simp add: arp_ip2str_def snprintf_def)
  ultimately show ?thesis
    by (simp add: in_addr_t2str_def my_inet_ntoa_r_def ip_ip2str_def inet_aton_dotted
        my_ether_ntoa_r_80 read_mac_str)
qed

end
