(* ===== verification/NetUtil.thy ===== *)
theory NetUtil
  imports Printing Arp
begin

text \<open>
  \<open>router/netutil.c\<close> up to \<open>PrintEtherHeader\<close>: opening the raw socket of a device, reading its
  addresses, and printing. \<open>bridge/netutil.c\<close>, \<open>ltest/ltest.c\<close> and \<open>pcap/pcap.c\<close> contain the same
  \<open>InitRawSocket\<close>. The results of the system calls are arguments; the calls made, with their
  arguments and in their order, are the result's second part.
\<close>

section \<open>System calls\<close>

datatype syscall =
    SOCKET_PACKET u16
  | SOCKET_INET
  | GIFINDEX int string
  | BIND int u16 int
  | GIFFLAGS int string
  | SIFFLAGS int string u16
  | GIFHWADDR int string
  | GIFADDR int string
  | GIFNETMASK int string
  | CLOSE int

definition ETH_P_IP :: u16 where "ETH_P_IP = 0x0800"
definition ETH_P_ALL :: u16 where "ETH_P_ALL = 3"
definition ETH_P_IPV6 :: u16 where "ETH_P_IPV6 = 0x86DD"
definition ETH_P_ARP :: u16 where "ETH_P_ARP = 0x0806"
definition IFF_PROMISC :: u16 where "IFF_PROMISC = 0x100"
definition PF_INET :: nat where "PF_INET = 2"

text \<open>\<open>strncpy(ifreq.ifr_name, device, sizeof(ifreq.ifr_name) - 1)\<close> into a zeroed array of 16\<close>

definition ifr_name :: "string \<Rightarrow> string" where
  "ifr_name device = take 15 device"

section \<open>\<open>InitRawSocket\<close>\<close>

record raw_env =
  r_socket :: int
  r_ifindex :: "int option"
  r_bind :: int
  r_getflags :: "u16 option"
  r_setflags :: int

definition InitRawSocket :: "raw_env \<Rightarrow> string \<Rightarrow> bool \<Rightarrow> bool \<Rightarrow> int \<times> syscall list" where
  "InitRawSocket e device promiscFlag ipOnly =
     (let proto = (if ipOnly then htons ETH_P_IP else htons ETH_P_ALL);
          name = ifr_name device; soc = r_socket e; log = [SOCKET_PACKET proto]
      in if soc < 0 then (-1, log)
         else let log = log @ [GIFINDEX soc name]
         in case r_ifindex e of
              None \<Rightarrow> (-1, log @ [CLOSE soc])
            | Some ifindex \<Rightarrow>
                (let log = log @ [BIND soc proto ifindex]
                 in if r_bind e < 0 then (-1, log @ [CLOSE soc])
                    else if promiscFlag then
                      (let log = log @ [GIFFLAGS soc name]
                       in case r_getflags e of
                            None \<Rightarrow> (-1, log @ [CLOSE soc])
                          | Some flags \<Rightarrow>
                              (let log = log @ [SIFFLAGS soc name (flags OR IFF_PROMISC)]
                               in if r_setflags e < 0 then (-1, log @ [CLOSE soc]) else (soc, log)))
                    else (soc, log)))"

section \<open>\<open>GetDeviceInfo\<close>\<close>

text \<open>
  The out parameters are written as soon as the call that gives them succeeds, also when a later
  one fails: \<open>None\<close> is a parameter that was not written.
\<close>

record dev_env =
  g_socket :: int
  g_hwaddr :: "mac option"
  g_addr :: "(nat \<times> in_addr_t) option"
  g_netmask :: "in_addr_t option"

record dev_out =
  o_hwaddr :: "mac option"
  o_uaddr :: "in_addr_t option"
  o_subnet :: "in_addr_t option"
  o_mask :: "in_addr_t option"

definition GetDeviceInfo :: "dev_env \<Rightarrow> string \<Rightarrow> int \<times> dev_out \<times> syscall list" where
  "GetDeviceInfo e device =
     (let name = ifr_name device; soc = g_socket e; log = [SOCKET_INET];
          out = \<lparr>o_hwaddr = None, o_uaddr = None, o_subnet = None, o_mask = None\<rparr>
      in if soc < 0 then (-1, out, log)
         else let log = log @ [GIFHWADDR soc name]
         in case g_hwaddr e of
              None \<Rightarrow> (-1, out, log @ [CLOSE soc])
            | Some hw \<Rightarrow>
                (let out = out\<lparr>o_hwaddr := Some hw\<rparr>; log = log @ [GIFADDR soc name]
                 in case g_addr e of
                      None \<Rightarrow> (-1, out, log @ [CLOSE soc])
                    | Some (family', uaddr) \<Rightarrow>
                        if family' \<noteq> PF_INET then (-1, out, log @ [CLOSE soc])
                        else let out = out\<lparr>o_uaddr := Some uaddr\<rparr>; log = log @ [GIFNETMASK soc name]
                        in case g_netmask e of
                             None \<Rightarrow> (-1, out, log @ [CLOSE soc])
                           | Some nm \<Rightarrow>
                               (0, out\<lparr>o_mask := Some nm, o_subnet := Some (uaddr AND nm)\<rparr>,
                                log @ [CLOSE soc])))"

section \<open>Descriptors\<close>

text \<open>The descriptors open after a sequence of calls; \<open>soc\<close> is what a successful \<open>socket\<close> returns.\<close>

fun fds :: "int \<Rightarrow> int set \<Rightarrow> syscall list \<Rightarrow> int set" where
  "fds soc A [] = A"
| "fds soc A (SOCKET_PACKET p # cs) = fds soc (if soc < 0 then A else insert soc A) cs"
| "fds soc A (SOCKET_INET # cs) = fds soc (if soc < 0 then A else insert soc A) cs"
| "fds soc A (CLOSE fd # cs) = fds soc (A - {fd}) cs"
| "fds soc A (_ # cs) = fds soc A cs"

text \<open>\<open>InitRawSocket\<close> returns a descriptor exactly if every call it needs succeeds. It then leaves
  this one socket open, bound to the interface of the device for the protocol asked for, with the
  promiscuous flag added to the interface's flags if asked for; when it fails it leaves none open.\<close>

theorem InitRawSocket_correct:
  "(fst (InitRawSocket e device promisc ipOnly) = -1 \<and>
      fds (r_socket e) {} (snd (InitRawSocket e device promisc ipOnly)) = {}) \<or>
   (fst (InitRawSocket e device promisc ipOnly) = r_socket e \<and> 0 \<le> r_socket e \<and>
      fds (r_socket e) {} (snd (InitRawSocket e device promisc ipOnly)) = {r_socket e} \<and>
      (\<exists>ifindex. r_ifindex e = Some ifindex \<and>
         BIND (r_socket e) (htons (if ipOnly then ETH_P_IP else ETH_P_ALL)) ifindex
           \<in> set (snd (InitRawSocket e device promisc ipOnly))) \<and>
      (promisc = (\<exists>flags. r_getflags e = Some flags \<and>
         SIFFLAGS (r_socket e) (take 15 device) (flags OR IFF_PROMISC)
           \<in> set (snd (InitRawSocket e device promisc ipOnly)))))"
  by (cases promisc; cases "r_ifindex e"; cases "r_getflags e")
    (auto simp: InitRawSocket_def Let_def ifr_name_def split: if_splits)

text \<open>\<open>GetDeviceInfo\<close> closes its socket on every path; when it succeeds, the subnet is the address
  masked with the netmask, so the device's own address lies in its subnet.\<close>

theorem GetDeviceInfo_correct:
  "fds (g_socket e) {} (snd (snd (GetDeviceInfo e device))) = {} \<and>
   (fst (GetDeviceInfo e device) = 0 \<longleftrightarrow>
     (\<exists>hw a m. 0 \<le> g_socket e \<and> g_hwaddr e = Some hw \<and> g_addr e = Some (PF_INET, a) \<and>
        g_netmask e = Some m \<and>
        fst (snd (GetDeviceInfo e device)) =
          \<lparr>o_hwaddr = Some hw, o_uaddr = Some a, o_subnet = Some (a AND m), o_mask = Some m\<rparr>))"
  by (auto simp: GetDeviceInfo_def Let_def split: option.splits if_splits)

section \<open>Printing\<close>

definition ether_type_name :: "u16 \<Rightarrow> string" where
  "ether_type_name t =
     (if t = ETH_P_IP then ''(IP)'' else if t = ETH_P_IPV6 then ''(IPv6)''
      else if t = ETH_P_ARP then ''(ARP)'' else ''(unknown)'')"

definition PrintEtherHeader :: "ether_header \<Rightarrow> string" where
  "PrintEtherHeader eh =
     ''-------------ether_header-------------'' @ nl @
     ''ether_dhost='' @ my_ether_ntoa_r (ether_dhost eh) 80 @ nl @
     ''ether_shost='' @ my_ether_ntoa_r (ether_shost eh) 80 @ nl @
     ''ether_type='' @ pad2 (upper_hex_str (unat (ntohs (ether_type eh)))) @ nl @
     ether_type_name (ntohs (ether_type eh)) @ nl @
     ''----------ether_header(end)-----------'' @ nl"

end
