(* ===== verification/RouterBoot.thy ===== *)
theory RouterBoot
  imports NetUtil RouterSystem
begin

text \<open>
  The start of the router: \<open>main\<close> of \<open>router/main.c\<close> up to the second device. The state before it is
  the one the static initialisers give. What runs afterwards, the receive loop beside the buffer
  thread, is in theory \<open>RouterProcess\<close>.
\<close>

section \<open>Parameters and static state\<close>

record PARAM =
  Device1 :: string
  Device2 :: string
  DebugOut :: int
  p_NextRouter :: string

definition Param :: PARAM where
  "Param = \<lparr>Device1 = ''RT_veth0'', Device2 = ''RT_veth1'', DebugOut = 1,
     p_NextRouter = ''192.168.1.254''\<rparr>"

definition static_state :: router where
  "static_state =
     \<lparr>Device = (\<lambda>_. \<lparr>soc = 0, hwaddr = zero_mac, addr = 0, subnet = 0, netmask = 0\<rparr>),
      NextRouter = 0, Ip2Macs = (\<lambda>_. \<lparr>t_data = [], t_size = 0, t_no = 0\<rparr>),
      bufs = \<lparr>cells = (\<lambda>_. None), brk = 0\<rparr>, reqs = \<lparr>cells = (\<lambda>_. None), brk = 0\<rparr>,
      SendReq = \<lparr>q_top = None, q_bottom = None\<rparr>, out = [], EndFlag = False\<rparr>"

section \<open>\<open>main\<close>\<close>

record boot_env =
  b_dev :: "nat \<Rightarrow> dev_env"
  b_raw :: "nat \<Rightarrow> raw_env"

text \<open>What \<open>GetDeviceInfo\<close> stores through its out parameters into \<open>Device[i]\<close>\<close>

definition store_info :: "nat \<Rightarrow> dev_out \<Rightarrow> router \<Rightarrow> router" where
  "store_info i r s =
     (let D = Device s i
      in s\<lparr>Device := (Device s)(i := D\<lparr>
           hwaddr := (case o_hwaddr r of None \<Rightarrow> hwaddr D | Some v \<Rightarrow> v),
           addr := (case o_uaddr r of None \<Rightarrow> addr D | Some v \<Rightarrow> v),
           subnet := (case o_subnet r of None \<Rightarrow> subnet D | Some v \<Rightarrow> v),
           netmask := (case o_mask r of None \<Rightarrow> netmask D | Some v \<Rightarrow> v)\<rparr>)\<rparr>)"

text \<open>One device: \<open>False\<close> when \<open>main\<close> returns \<open>-1\<close>\<close>

definition init_device :: "boot_env \<Rightarrow> nat \<Rightarrow> string \<Rightarrow> router \<Rightarrow> bool \<times> router" where
  "init_device e i name s =
     (let (r, info, _) = GetDeviceInfo (b_dev e i) name; s = store_info i info s
      in if r = -1 then (False, s)
         else let (fd, _) = InitRawSocket (b_raw e i) name False False;
                  s = s\<lparr>Device := (Device s)(i := (Device s i)\<lparr>soc := fd\<rparr>)\<rparr>
              in if fd = -1 then (False, s) else (True, s))"

definition main_setup :: "boot_env \<Rightarrow> router \<Rightarrow> bool \<times> router" where
  "main_setup e s =
     (let s = (case inet_aton (p_NextRouter Param) of None \<Rightarrow> s | Some a \<Rightarrow> s\<lparr>NextRouter := a\<rparr>);
          (ok, s) = init_device e 0 (Device1 Param) s
      in if \<not> ok then (False, s) else init_device e 1 (Device2 Param) s)"

text \<open>\<open>DisableIpForward\<close>: the return code and the content of \<open>/proc/sys/net/ipv4/ip_forward\<close>\<close>

definition DisableIpForward :: "bool \<Rightarrow> string \<Rightarrow> int \<times> string" where
  "DisableIpForward opened content = (if \<not> opened then (-1, content) else (0, ''0''))"

section \<open>What it establishes\<close>

definition configured :: "router \<Rightarrow> nat \<Rightarrow> bool" where
  "configured s i \<longleftrightarrow> 0 \<le> soc (Device s i) \<and>
     subnet (Device s i) = addr (Device s i) AND netmask (Device s i)"

lemma GetDeviceInfo_ok:
  "fst (GetDeviceInfo e name) \<noteq> -1 \<Longrightarrow> \<exists>hw a m. fst (snd (GetDeviceInfo e name)) =
     \<lparr>o_hwaddr = Some hw, o_uaddr = Some a, o_subnet = Some (a AND m), o_mask = Some m\<rparr>"
  by (auto simp: GetDeviceInfo_def Let_def split: option.splits if_splits)

lemma InitRawSocket_ok:
  "fst (InitRawSocket e name promisc ipOnly) \<noteq> -1 \<Longrightarrow> 0 \<le> fst (InitRawSocket e name promisc ipOnly)"
  by (auto simp: InitRawSocket_def Let_def split: option.splits if_splits)

lemma init_device_ok:
  assumes "init_device e i name s = (True, t)"
  shows "configured t i" and "\<exists>D. t = s\<lparr>Device := D\<rparr> \<and> (\<forall>j. j \<noteq> i \<longrightarrow> D j = Device s j)"
proof -
  obtain r info l where g: "GetDeviceInfo (b_dev e i) name = (r, info, l)"
    using prod_cases3 by blast
  obtain fd l' where f: "InitRawSocket (b_raw e i) name False False = (fd, l')"
    using prod.exhaust by blast
  have t: "r \<noteq> -1" "fd \<noteq> -1" "t = (store_info i info s)\<lparr>Device := (Device (store_info i info s))
      (i := (Device (store_info i info s) i)\<lparr>soc := fd\<rparr>)\<rparr>"
    using assms g f by (auto simp: init_device_def Let_def split: if_splits)
  obtain hw a m where "info = \<lparr>o_hwaddr = Some hw, o_uaddr = Some a, o_subnet = Some (a AND m), o_mask = Some m\<rparr>"
    using GetDeviceInfo_ok [of "b_dev e i" name] g t(1) by auto
  moreover have "0 \<le> fd" using InitRawSocket_ok [of "b_raw e i" name False False] f t(2) by simp
  ultimately show "configured t i" using t(3) by (simp add: configured_def store_info_def Let_def)
  show "\<exists>D. t = s\<lparr>Device := D\<rparr> \<and> (\<forall>j. j \<noteq> i \<longrightarrow> D j = Device s j)"
    using t(3) by (auto simp: store_info_def Let_def intro!: exI)
qed

lemma next_router_parsed: "inet_aton ''192.168.1.254'' = Some (le32 192 168 1 254)"
  by (simp add: inet_aton_def digit_val_def)

lemma setup_ok:
  assumes "main_setup e static_state = (True, s)"
  shows "configured s 0" and "configured s 1" and "NextRouter s = le32 192 168 1 254" and "initial s"
proof -
  let ?s = "static_state\<lparr>NextRouter := le32 192 168 1 254\<rparr>"
  obtain ok t where t: "init_device e 0 (Device1 Param) ?s = (ok, t)" by fastforce
  then have ok: "ok" "init_device e 1 (Device2 Param) t = (True, s)"
    using assms by (auto simp: main_setup_def Param_def next_router_parsed Let_def split: if_splits)
  have t': "init_device e 0 (Device1 Param) ?s = (True, t)" using t ok(1) by simp
  obtain D where D: "t = ?s\<lparr>Device := D\<rparr>" using init_device_ok(2) [OF t'] by blast
  obtain E where E: "s = t\<lparr>Device := E\<rparr>" "\<forall>j. j \<noteq> 1 \<longrightarrow> E j = Device t j"
    using init_device_ok(2) [OF ok(2)] by blast
  have "configured t 0" using t' by (rule init_device_ok)
  then have "configured s 0" using E by (simp add: configured_def)
  moreover have "configured s 1" using ok(2) by (rule init_device_ok)
  moreover have "initial s" using D E(1) by (simp add: initial_def static_state_def)
  ultimately show "configured s 0" "configured s 1" "initial s" by blast+
  show "NextRouter s = le32 192 168 1 254" using D E(1) by simp
qed

lemma setup_reach:
  "main_setup e static_state = (True, s) \<Longrightarrow> length buf = 2048 \<Longrightarrow> reach G (buf, s)"
  using setup_ok(4) by (rule reach.init)

text \<open>When \<open>main\<close> does not return early, both devices are configured: their sockets are open and
  each device's subnet is its address masked with its netmask; the next router is 192.168.1.254; and
  the router is in an initial state, so that what holds in every reachable state holds for the
  running program.\<close>

theorem main_starts_router:
  assumes "main_setup e static_state = (True, s)" and "length buf = 2048"
  shows "configured s 0 \<and> configured s 1 \<and> NextRouter s = le32 192 168 1 254 \<and> reach G (buf, s)"
  using setup_ok [OF assms(1)] setup_reach [OF assms] by simp

definition ex_boot :: boot_env where
  "ex_boot = \<lparr>
     b_dev = (\<lambda>i. \<lparr>g_socket = 5, g_hwaddr = Some (MAC 2 0 0 0 0 (of_nat i)),
       g_addr = Some (PF_INET, le32 192 168 (of_nat i) 1), g_netmask = Some 0x00FFFFFF\<rparr>),
     b_raw = (\<lambda>i. \<lparr>r_socket = 3 + int i, r_ifindex = Some (int i), r_bind = 0,
       r_getflags = None, r_setflags = 0\<rparr>)\<rparr>"

theorem main_starts_router_witness:
  "configured (snd (main_setup ex_boot static_state)) 0 \<and> configured (snd (main_setup ex_boot static_state)) 1"
proof -
  have "main_setup ex_boot static_state = (True, snd (main_setup ex_boot static_state))"
    by (simp add: main_setup_def ex_boot_def init_device_def GetDeviceInfo_def InitRawSocket_def
        Let_def Param_def next_router_parsed)
  from main_starts_router [OF this, of "replicate 2048 0"] show ?thesis by simp
qed

end
