(* ===== verification/RouterMemory.thy ===== *)
theory RouterMemory
  imports RouterProps
begin

text \<open>
  The router's memory in every reachable state: the pointers that its queues hold, and the arrays
  of its tables. \<open>reaches\<close> follows the \<open>next\<close> pointers as the code does, without the lists of
  nodes the invariants speak of.
\<close>

section \<open>Following the pointers of a queue\<close>

inductive reaches :: "'a dlnode_scheme heap \<Rightarrow> nat option \<Rightarrow> nat \<Rightarrow> bool" for h where
  here: "reaches h (Some p) p"
| there: "reaches h from p \<Longrightarrow> cells h p = Some n \<Longrightarrow> d_next n = Some q \<Longrightarrow> reaches h from q"

inductive_cases reaches_NoneE: "reaches h None p"

lemma linked_next:
  "linked h b ps \<Longrightarrow> p \<in> set ps \<Longrightarrow> cells h p = Some n \<Longrightarrow> d_next n = Some q \<Longrightarrow> q \<in> set ps"
proof (induction ps arbitrary: b)
  case (Cons r ps)
  then show ?case by (cases ps; cases "p = r") auto
qed simp

lemma reaches_nodes: "reaches h q' p \<Longrightarrow> q' = q_top q \<Longrightarrow> dlrep h q ps xs \<Longrightarrow> p \<in> set ps"
proof (induction rule: reaches.induct)
  case (here p)
  then show ?case by (cases ps) (auto simp: dlrep_def)
next
  case (there q' p n r)
  then show ?case using linked_next by (auto simp: dlrep_def)
qed

text \<open>The neighbours of a node in the chain are nodes that point back to it.\<close>

definition linked_both :: "'a dlnode_scheme heap \<Rightarrow> 'a dlnode_scheme \<Rightarrow> nat \<Rightarrow> bool" where
  "linked_both h n p \<longleftrightarrow>
     (\<forall>q. d_next n = Some q \<longrightarrow> (\<exists>m. cells h q = Some m \<and> d_before m = Some p)) \<and>
     (\<forall>q. d_before n = Some q \<longrightarrow> (\<exists>m. cells h q = Some m \<and> d_next m = Some p))"

lemma linked_links:
  "linked h b ps \<Longrightarrow> p \<in> set ps \<Longrightarrow>
   (\<forall>q. b = Some q \<longrightarrow> (\<exists>m. cells h q = Some m \<and> d_next m = hd_opt ps)) \<Longrightarrow>
   \<exists>n. cells h p = Some n \<and> linked_both h n p"
proof (induction ps arbitrary: b)
  case (Cons r ps)
  show ?case
  proof (cases "p = r")
    case True
    then show ?thesis using Cons.prems by (cases ps) (auto simp: linked_both_def)
  next
    case False
    then show ?thesis using Cons.prems Cons.IH [of "Some r"] by auto
  qed
qed simp

lemma dlrep_node:
  assumes "dlrep h q ps xs" and "p \<in> set ps"
  shows "\<exists>n x. cells h p = Some n \<and> linked_both h n p \<and> x \<in> set xs \<and> bare n = x"
proof -
  obtain n where n: "cells h p = Some n" "linked_both h n p"
    using linked_links [of h None ps p] assms by (auto simp: dlrep_def)
  have "Some (bare n) \<in> set (map Some xs)"
    using assms n(1) unfolding dlrep_def by (metis (no_types, lifting) image_eqI list.set_map option.simps(9))
  then show ?thesis using n by auto
qed

section \<open>The heap is well typed\<close>

text \<open>What the code relies on when it follows a pointer to a \<open>DATA_BUF\<close>\<close>

definition data_buf_ok :: "DATA_BUF heap \<Rightarrow> nat \<Rightarrow> bool" where
  "data_buf_ok h p \<longleftrightarrow> (\<exists>n f. cells h p = Some n \<and> linked_both h n p \<and> d_data n = Some f \<and>
     d_size n = int (length f) \<and> 0 < length f \<and> length f \<le> 2048)"

text \<open>And to a \<open>SEND_REQ_DATA\<close>, whose numbers are used as indices of \<open>Ip2Macs[d].data[n]\<close>\<close>

definition send_req_ok :: "router \<Rightarrow> nat \<Rightarrow> bool" where
  "send_req_ok s p \<longleftrightarrow> (\<exists>n. cells (reqs s) p = Some n \<and> linked_both (reqs s) n p \<and>
     r_deviceNo n < 2 \<and> r_ip2macNo n < t_no (Ip2Macs s (r_deviceNo n)) \<and>
     r_ip2macNo n < t_size (Ip2Macs s (r_deviceNo n)))"

lemma sdrep_typed:
  assumes "sdrep h sd ps fs" and "p \<in> set ps"
  shows "data_buf_ok h p"
proof -
  obtain xs where xs: "dlrep h sd ps xs" "list_all2 is_buf xs fs" using assms(1) by (auto simp: sdrep_def)
  obtain n where n: "cells h p = Some n" "linked_both h n p" "bare n \<in> set xs"
    using dlrep_node [OF xs(1) assms(2)] by blast
  obtain f where "is_buf (bare n) f"
    using xs(2) n(3) by (metis in_set_conv_nth list_all2_conv_all_nth)
  then show ?thesis using n by (auto simp: data_buf_ok_def is_buf_def bare_def frame_ok_def)
qed

lemma rrep_typed:
  assumes "rrep (reqs s) (SendReq s) ps R" and "p \<in> set ps" and "set R \<subseteq> slots s" and "tables_ok s"
  shows "send_req_ok s p"
proof -
  obtain xs where xs: "dlrep (reqs s) (SendReq s) ps xs" "map req_of xs = R"
    using assms(1) by (auto simp: rrep_def)
  obtain n where n: "cells (reqs s) p = Some n" "linked_both (reqs s) n p" "bare n \<in> set xs"
    using dlrep_node [OF xs(1) assms(2)] by blast
  have "req_of (bare n) \<in> slots s" using xs(2) n(3) assms(3) by auto
  then show ?thesis
    using n assms(4) by (fastforce simp: send_req_ok_def req_of_def bare_def slots_def tables_ok_def)
qed

lemma sdrep_reaches: "sdrep h sd ps fs \<Longrightarrow> reaches h (q_top sd) p \<Longrightarrow> p \<in> set ps"
  by (auto simp: sdrep_def dest: reaches_nodes [OF _ refl])

lemma rrep_reaches: "rrep h q ps R \<Longrightarrow> reaches h (q_top q) p \<Longrightarrow> p \<in> set ps"
  by (auto simp: rrep_def dest: reaches_nodes [OF _ refl])

text \<open>C11: The heap is well typed in every reachable state: whatever is reached by \<open>next\<close> pointers
  from the queue of a table entry is an allocated \<open>DATA_BUF\<close> that is linked in both directions and
  owns a live block of the size it records, of 1 to 2048 bytes; whatever is reached from \<open>SendReq\<close>
  is an allocated \<open>SEND_REQ_DATA\<close> with a device number and an index inside the table of that device;
  and no node is reached from two entries.\<close>

theorem reachable_heap_typed:
  assumes "reach event_ok (buf, s)"
  shows "(\<forall>k \<in> slots s. \<forall>p. reaches (bufs s) (q_top (i_sd (ent s k))) p \<longrightarrow>
      data_buf_ok (bufs s) p \<and>
      (\<forall>l \<in> slots s. l \<noteq> k \<longrightarrow> \<not> reaches (bufs s) (q_top (i_sd (ent s l))) p)) \<and>
    (\<forall>p. reaches (reqs s) (q_top (SendReq s)) p \<longrightarrow> send_req_ok s p)"
proof -
  obtain X R where "sys_inv (buf, s) X R" using reach_sys_inv [OF assms] by blast
  then have I: "inv s X R" by (simp add: sys_inv_def)
  then obtain P where P: "family sdrep (bufs s) (slots s) (\<lambda>k. i_sd (ent s k)) P X"
    by (auto simp: inv_def queues_ok_def)
  have rep: "sdrep (bufs s) (i_sd (ent s k)) (P k) (X k)" if "k \<in> slots s" for k
    using P that by (simp add: family_def)
  have "set (P k) \<inter> set (P l) = {}" if "k \<in> slots s" "l \<in> slots s" "l \<noteq> k" for k l
    using P that by (simp add: family_def)
  then have "data_buf_ok (bufs s) p \<and>
      (\<forall>l \<in> slots s. l \<noteq> k \<longrightarrow> \<not> reaches (bufs s) (q_top (i_sd (ent s l))) p)"
    if "k \<in> slots s" "reaches (bufs s) (q_top (i_sd (ent s k))) p" for k p
    using that rep sdrep_reaches sdrep_typed by (meson disjoint_iff)
  moreover have "send_req_ok s p" if "reaches (reqs s) (q_top (SendReq s)) p" for p
    using I that rrep_typed rrep_reaches by (auto simp: inv_def reqs_ok_def)
  ultimately show ?thesis by blast
qed

text \<open>The first frame to an unknown neighbour: a reachable state with a node in a queue\<close>

lemma ex_first_frame:
  "\<exists>s i p. sys_step (in_buffer [], ex_router0) (Recv 0 (ex_turn ex_frame64)) (in_buffer ex_frame64, s) \<and>
     (1, i) \<in> slots s \<and> reaches (bufs s) (q_top (i_sd (ent s (1, i)))) p"
proof -
  obtain s X' R' i q where A: "AnalyzePacket ex_os 0 (in_buffer ex_frame64) (int 54) ex_router0 =
      Some (-1, in_buffer ex_frame64, s)" "inv s X' R'" "live s (1, i)" "X' (1, i) = q @ [ex_frame64]"
    using packet_unresolved [OF ex_router0_inv, of 0 ex_os "in_buffer ex_frame64" 54 "addr_of 1 2"]
      ex_classify(1) [of ex_router0] take_in_buffer [of ex_frame64]
    by (auto simp: ex_cached no_live0)
  have "mwrite (in_buffer []) 0 ex_frame64 = Some (in_buffer ex_frame64)"
    by (simp add: in_buffer_def mwrite_Some)
  then have step: "sys_step (in_buffer [], ex_router0) (Recv 0 (ex_turn ex_frame64)) (in_buffer ex_frame64, s)"
    using A(1) by (simp add: sys_step_simps Router_recv_def ex_turn_def)
  have "q_top (i_sd (ent s (1, i))) \<noteq> None"
    using inv_top [OF A(2) live_slot [OF A(3)]] A(4) by simp
  then obtain p where "q_top (i_sd (ent s (1, i))) = Some p" by blast
  then have "reaches (bufs s) (q_top (i_sd (ent s (1, i)))) p" by (simp add: reaches.here)
  then show ?thesis using live_slot [OF A(3)] step by blast
qed

lemma ex_start: "reach event_ok (in_buffer [], ex_router0)"
  using ex_router0_initial by (rule reach.init) simp

lemma ex_recv_ok: "event_ok (Recv 0 (ex_turn ex_frame64))"
  using ex_turn_ok by simp

theorem reachable_heap_typed_witness:
  "\<exists>s i p. sys_step (in_buffer [], ex_router0) (Recv 0 (ex_turn ex_frame64)) (in_buffer ex_frame64, s) \<and>
     reaches (bufs s) (q_top (i_sd (ent s (1, i)))) p \<and> data_buf_ok (bufs s) p"
proof -
  obtain s i p where s: "sys_step (in_buffer [], ex_router0) (Recv 0 (ex_turn ex_frame64)) (in_buffer ex_frame64, s)"
    "(1, i) \<in> slots s" "reaches (bufs s) (q_top (i_sd (ent s (1, i)))) p" using ex_first_frame by blast
  from reachable_heap_typed [OF reach.step [OF ex_start ex_recv_ok s(1)]] s show ?thesis by blast
qed

section \<open>The arrays of the tables\<close>

text \<open>
  \<open>realloc\<close> may move the array of a table while the buffer thread holds a pointer into it, so it
  matters when the array grows.
\<close>

lemma same_sizes:
  "same_shape s (t\<lparr>out := l\<rparr>) \<Longrightarrow> t_size (Ip2Macs t d) = t_size (Ip2Macs s d)"
  by (simp add: same_shape_def)

lemma table_post_q_step:
  assumes "table_post s t" and q: "q_step t u k"
  shows "table_post s u"
proof -
  have "t_size (Ip2Macs u d) = t_size (Ip2Macs t d)" for d
    using q by (auto simp: q_step_def intro: same_sizes)
  with assms(1) q_step_live [OF q] show ?thesis by (simp add: table_post_def)
qed

lemma packet_forward_cases:
  assumes "packet_post e d data n s X R r data' s' X' R'" and "classify s d data n = Forward a"
  obtains i t X1 l where "search_post e (other d) a None s X R i t X1 R'" and "s' = t\<lparr>out := l\<rparr>"
  | i t X1 where "search_post e (other d) a None s X R i t X1 R'" and "q_step t s' (other d, i)"
  using assms by (auto simp: packet_post_def forward_post_def Let_def split: if_splits)

lemma packet_table_post:
  assumes "packet_post e d data n s X R r data' s' X' R'"
  shows "table_post s s'"
proof -
  have keep: "table_post s s" "table_post s (s\<lparr>out := l\<rparr>)" for l by (simp_all add: table_post_def)
  show ?thesis
  proof (cases "classify s d data n")
    case (Learn a m)
    then show ?thesis using assms by (auto simp: packet_post_def search_post_def)
  next
    case (Forward a)
    with assms show ?thesis
    proof (cases rule: packet_forward_cases)
      case (1 i t X1 l)
      moreover have "live (t\<lparr>out := l\<rparr>) k = live t k" for k by (simp add: live_def slots_def ent_def)
      ultimately show ?thesis by (simp add: search_post_def table_post_def)
    next
      case (2 i t X1)
      then show ?thesis using table_post_q_step by (auto simp: search_post_def)
    qed
  qed (use assms keep in \<open>auto simp: packet_post_def\<close>)
qed

lemma drain_qs_step:
  assumes "sys_inv (buf, s) X R" and b: "buffer_drain lock lock_sd s = Some t"
  shows "qs_step s t"
proof (cases "lock = 0")
  case True
  have "inv s X R" "\<forall>k \<in> set R. \<forall>f \<in> set (X k). complete f"
    using assms(1) unfolding sys_inv_def snd_conv by blast+
  from buffer_drain_post [OF this, of lock_sd] b True show ?thesis by auto
next
  case False
  with b q_step_qs_step [OF q_step_refl] show ?thesis by (simp add: buffer_drain_locked)
qed

lemma step_table_post:
  assumes st: "sys_step (buf, s) ev (buf', s')" and I: "sys_inv (buf, s) X R" and ev: "event_ok ev"
  shows "table_post s s'"
proof (cases ev)
  case (Recv d t)
  obtain n bs where "t_read t d = (n, bs)" by fastforce
  with Recv_step [of buf s d t buf' s' X R n bs] st I ev Recv packet_table_post show ?thesis
    by (fastforce simp: table_post_def)
next
  case (Wake lock lock_sd)
  then have b: "buffer_drain lock lock_sd s = Some s'" using st by (simp add: sys_step_simps)
  have "same_shape s (s'\<lparr>out := out s\<rparr>)"
    using drain_qs_step [OF I b] by (simp add: qs_step_def)
  then show ?thesis by (simp add: table_post_def same_sizes)
next
  case Signal
  with st show ?thesis by (simp add: sys_step_simps EndSignal_def table_post_def)
qed

text \<open>Nothing but the handler writes \<open>EndFlag\<close>, and nobody changes the configuration.\<close>

lemma search_post_config: "search_post e d a hw s X R i t X' R' \<Longrightarrow> EndFlag t = EndFlag s \<and> same_config s t"
  using search_post_world by (auto simp: same_world_def same_config_def)

lemma q_step_config: "q_step s t k \<Longrightarrow> EndFlag t = EndFlag s \<and> same_config s t"
  by (simp add: q_step_def same_shape_def same_world_def same_config_def)

lemma packet_post_config:
  assumes "packet_post e d data n s X R r data' s' X' R'"
  shows "EndFlag s' = EndFlag s \<and> same_config s s'"
proof (cases "classify s d data n")
  case (Learn a m)
  with assms search_post_config show ?thesis by (fastforce simp: packet_post_def)
next
  case (Forward a)
  with assms show ?thesis
    by (cases rule: packet_forward_cases)
      (auto simp: same_config_def dest!: search_post_config q_step_config)
qed (use assms in \<open>simp_all add: packet_post_def same_config_def\<close>)

lemma step_config:
  assumes st: "sys_step (buf, s) ev (buf', s')" and I: "sys_inv (buf, s) X R" and ev: "event_ok ev"
  shows "(EndFlag s' \<longleftrightarrow> EndFlag s \<or> ev = Signal) \<and> same_config s s'"
proof (cases ev)
  case (Recv d t)
  obtain n bs where "t_read t d = (n, bs)" by fastforce
  with Recv_step [of buf s d t buf' s' X R n bs] st I ev Recv packet_post_config show ?thesis
    by (fastforce simp: same_config_def)
next
  case (Wake lock lock_sd)
  then have "buffer_drain lock lock_sd s = Some s'" using st by (simp add: sys_step_simps)
  with drain_qs_step [OF I] Wake show ?thesis
    by (auto simp: qs_step_def same_shape_def same_world_def same_config_def)
next
  case Signal
  with st show ?thesis by (simp add: sys_step_simps EndSignal_def same_config_def)
qed

text \<open>C15: A step changes the size of a table's array only when every one of its places was taken:
  the array then grows by 1024 places, and all the old places and the next one hold entries in use
  with pairwise different addresses. So the array is not moved, and a pointer into it stays valid,
  as long as the device has no more neighbours in use than places.\<close>

theorem array_grows_only_when_full:
  assumes "reach event_ok (buf, s)" and ev: "event_ok ev" and st: "sys_step (buf, s) ev (buf', s')"
    and d: "d < 2" and grown: "t_size (Ip2Macs s' d) \<noteq> t_size (Ip2Macs s d)"
  shows "t_size (Ip2Macs s' d) = t_size (Ip2Macs s d) + 1024 \<and>
    t_no (Ip2Macs s d) = t_size (Ip2Macs s d) \<and>
    (\<forall>i \<le> t_size (Ip2Macs s d). live s' (d, i)) \<and>
    inj_on (\<lambda>i. i_addr (ent s' (d, i))) {..t_size (Ip2Macs s d)}"
proof -
  obtain X R where I: "sys_inv (buf, s) X R" using reach_sys_inv [OF assms(1)] by blast
  obtain X' R' where "sys_inv (buf', s') X' R'"
    using sys_step_ok [OF I ev] sys_step_det [OF st] by blast
  then have u: "unique_addr s'" by (simp add: sys_inv_def inv_def)
  have "table_post s s'" using st I ev by (rule step_table_post)
  with d grown have T: "t_size (Ip2Macs s' d) = t_size (Ip2Macs s d) + 1024"
    "t_no (Ip2Macs s d) = t_size (Ip2Macs s d)" "\<forall>i \<le> t_size (Ip2Macs s d). live s' (d, i)"
    by (auto simp: table_post_def)
  have "inj_on (\<lambda>i. i_addr (ent s' (d, i))) {..t_size (Ip2Macs s d)}"
    using u T(3) by (intro inj_onI) (fastforce simp: unique_addr_def)
  with T show ?thesis by blast
qed

theorem array_grows_only_when_full_witness:
  "\<exists>s. sys_step (in_buffer [], ex_router0) (Recv 0 (ex_turn ex_frame64)) (in_buffer ex_frame64, s) \<and>
     t_size (Ip2Macs s 1) = 1024 \<and> live s (1, 0)"
proof -
  obtain s i where s: "sys_step (in_buffer [], ex_router0) (Recv 0 (ex_turn ex_frame64)) (in_buffer ex_frame64, s)"
    "(1, i) \<in> slots s" using ex_first_frame by blast
  obtain X R where "sys_inv (in_buffer ex_frame64, s) X R"
    using reach_sys_inv [OF reach.step [OF ex_start ex_recv_ok s(1)]] by blast
  then have "tables_ok s" by (simp add: sys_inv_def inv_def)
  then have "length (t_data (Ip2Macs s 1)) \<le> t_size (Ip2Macs s 1)"
    unfolding tables_ok_def by (metis one_less_numeral_iff semiring_norm(76))
  then have "t_size (Ip2Macs s 1) \<noteq> 0" using s(2) by (auto simp: slots_def)
  then have "t_size (Ip2Macs s 1) \<noteq> t_size (Ip2Macs ex_router0 1)" by (simp add: ex_router0_def)
  from array_grows_only_when_full [OF ex_start ex_recv_ok s(1) _ this] s(1) show ?thesis
    by (auto simp: ex_router0_def)
qed

end
