(* ===== verification/RouterProcess.thy ===== *)
theory RouterProcess
  imports RouterBoot RouterMemory
begin

text \<open>
  The router as a process: \<open>main\<close> sets up the devices, creates the buffer thread and runs the
  receive loop; after a signal both threads leave their loops, \<open>main\<close> joins the buffer thread,
  closes the sockets and returns. Each thread is where its program counter says; the tests of
  \<open>EndFlag\<close>, one call of \<open>AnalyzePacket\<close> and one emptying of the request queue are single steps,
  and the steps of the threads and the signal handler interleave freely. The handlers count as installed
  from the start; theory \<open>RouterSignals\<close> adds the calls that install them.
\<close>

section \<open>The two threads\<close>

text \<open>
  \<open>In_test\<close>: before \<^verbatim>\<open>while (EndFlag == 0)\<close> in \<open>Router\<close>; \<open>In_poll\<close>: before \<open>poll\<close>; \<open>In_recv i t\<close>: before
  turn \<open>i\<close> of the \<open>for\<close> loop; \<open>In_join\<close>: before \<open>pthread_join\<close> in \<open>main\<close>.
\<close>

datatype main_at = In_test | In_poll | In_recv nat turn | In_join | Returned int

text \<open>
  \<open>No_thread\<close>: \<open>pthread_create\<close> has failed; \<open>B_test\<close>: before \<^verbatim>\<open>while (EndFlag == 0)\<close> in \<open>BufferSend\<close>;
  \<open>B_drain\<close>: waiting for \<open>SendReq.cond\<close>, to empty the request queue afterwards; \<open>B_done\<close>: returned.
\<close>

datatype buf_at = No_thread | B_test | B_drain | B_done

record proc =
  p_world :: world
  p_main :: main_at
  p_buf :: buf_at
  p_closed :: "int list"

definition stopping :: "proc \<Rightarrow> bool" where
  "stopping p \<longleftrightarrow> EndFlag (snd (p_world p))"

text \<open>
  \<open>main\<close> up to the call of \<open>Router\<close>, with the status of \<open>pthread_create\<close> and the uninitialised
  buffer of \<open>Router\<close>; the result of \<open>DisableIpForward\<close> is not used.
\<close>

definition main_start :: "boot_env \<Rightarrow> int \<Rightarrow> bytes \<Rightarrow> proc" where
  "main_start e status buf =
     (let (ok, s) = main_setup e static_state
      in \<lparr>p_world = (buf, s), p_main = (if ok then In_test else Returned (-1)),
          p_buf = (if ok \<and> status = 0 then B_test else No_thread), p_closed = []\<rparr>)"

text \<open>
  The end of \<open>main\<close>: joining and closing. Joining needs a thread: \<open>BufTid\<close> is never written when
  \<open>pthread_create\<close> fails.
\<close>

definition main_end :: "proc \<Rightarrow> proc option" where
  "main_end p =
     (if p_buf p = No_thread then None
      else let D = Device (snd (p_world p))
           in Some (p\<lparr>p_closed := p_closed p @ [soc (D 0), soc (D 1)], p_main := Returned 0\<rparr>))"

text \<open>One step of the main thread\<close>

definition main_step :: "turn \<Rightarrow> proc \<Rightarrow> proc option" where
  "main_step t p = (case p_main p of
     In_test \<Rightarrow> Some (p\<lparr>p_main := (if stopping p then In_join else In_poll)\<rparr>)
   | In_poll \<Rightarrow> Some (p\<lparr>p_main := (if t_poll t = -1 \<or> t_poll t = 0 then In_test else In_recv 0 t)\<rparr>)
   | In_recv i u \<Rightarrow> do {
       w \<leftarrow> Router_recv u i (p_world p);
       Some (p\<lparr>p_world := w, p_main := (if i = 0 then In_recv 1 u else In_test)\<rparr>)
     }
   | In_join \<Rightarrow> main_end p
   | Returned r \<Rightarrow> Some p)"

text \<open>\<open>pthread_join\<close> waits for the buffer thread.\<close>

definition main_can :: "proc \<Rightarrow> bool" where
  "main_can p \<longleftrightarrow> (case p_main p of Returned r \<Rightarrow> False
     | In_join \<Rightarrow> p_buf p = B_done \<or> p_buf p = No_thread | _ \<Rightarrow> True)"

definition buf_step :: "int \<Rightarrow> (nat \<Rightarrow> int) \<Rightarrow> proc \<Rightarrow> proc option" where
  "buf_step lock lock_sd p = (case p_buf p of
     B_test \<Rightarrow> Some (p\<lparr>p_buf := (if stopping p then B_done else B_drain)\<rparr>)
   | B_drain \<Rightarrow> do {
       s \<leftarrow> buffer_drain lock lock_sd (snd (p_world p));
       Some (p\<lparr>p_world := (fst (p_world p), s), p_buf := B_test\<rparr>)
     }
   | _ \<Rightarrow> Some p)"

definition buf_can :: "proc \<Rightarrow> bool" where
  "buf_can p \<longleftrightarrow> p_buf p = B_test \<or> p_buf p = B_drain"

definition handle_signal :: "proc \<Rightarrow> proc" where
  "handle_signal p = p\<lparr>p_world := (fst (p_world p), EndSignal (snd (p_world p)))\<rparr>"

datatype act = Main turn | Buffer int "nat \<Rightarrow> int" | Sig

definition running :: "proc \<Rightarrow> bool" where
  "running p \<longleftrightarrow> (\<forall>r. p_main p \<noteq> Returned r)"

inductive proc_step :: "act \<Rightarrow> proc \<Rightarrow> proc \<Rightarrow> bool" where
  main: "main_can p \<Longrightarrow> main_step t p = Some q \<Longrightarrow> proc_step (Main t) p q"
| buffer: "running p \<Longrightarrow> buf_can p \<Longrightarrow> buf_step l m p = Some q \<Longrightarrow> proc_step (Buffer l m) p q"
| sig: "running p \<Longrightarrow> proc_step Sig p (handle_signal p)"

lemmas main_defs = main_step_def main_end_def main_can_def
lemmas buf_defs = buf_step_def buf_can_def

inductive_simps proc_step_simps:
  "proc_step (Main t) p q" "proc_step (Buffer l m) p q" "proc_step Sig p q"

primrec act_ok :: "act \<Rightarrow> bool" where
  "act_ok (Main t) \<longleftrightarrow> recv_ok t 0 \<and> recv_ok t 1"
| "act_ok (Buffer l m) \<longleftrightarrow> True"
| "act_ok Sig \<longleftrightarrow> True"

inductive proc_steps :: "act list \<Rightarrow> proc \<Rightarrow> proc \<Rightarrow> bool" where
  none: "proc_steps [] p p"
| more: "proc_step a p q \<Longrightarrow> act_ok a \<Longrightarrow> proc_steps as q r \<Longrightarrow> proc_steps (a # as) p r"

inductive_cases proc_steps_ConsE: "proc_steps (a # as) p r"
inductive_cases proc_steps_NilE: "proc_steps [] p r"

section \<open>What holds in every run\<close>

text \<open>
  The shared state is one of the system relation; the turn in progress is one the environment can
  produce; and the sockets are closed only when \<open>main\<close> has joined the buffer thread.
\<close>

definition proc_inv :: "proc \<Rightarrow> bool" where
  "proc_inv p \<longleftrightarrow> reach event_ok (p_world p) \<and>
     (case p_main p of
        In_recv i t \<Rightarrow> i < 2 \<and> recv_ok t 0 \<and> recv_ok t 1 \<and> p_closed p = []
      | In_join \<Rightarrow> stopping p \<and> p_closed p = []
      | Returned r \<Rightarrow> r = 0 \<and> p_buf p = B_done \<and> stopping p \<and>
          p_closed p = [soc (Device (snd (p_world p)) 0), soc (Device (snd (p_world p)) 1)]
      | _ \<Rightarrow> p_closed p = []) \<and>
     (p_buf p = B_done \<longrightarrow> stopping p)"

text \<open>Where main can step, the step is defined, unless it joins a thread that was never created.\<close>

lemma recv_total:
  assumes "reach event_ok w" and "i < 2" "recv_ok t i"
  shows "\<exists>v. Router_recv t i w = Some v \<and> reach event_ok v \<and> sys_step w (Recv i t) v"
proof -
  obtain X R where "sys_inv w X R" using reach_sys_inv [OF assms(1)] by blast
  then obtain v where v: "Router_recv t i w = Some v"
    using Router_recv_ok [of "fst w" "snd w" X R i t] assms(2,3) by auto
  then have "sys_step w (Recv i t) v"
    using assms(2) sys_step.recv [of i t "fst w" "snd w"] by simp
  then show ?thesis using v assms reach.step [of event_ok w "Recv i t" v] by simp
qed

lemma drain_total:
  assumes "reach event_ok w"
  shows "\<exists>s. buffer_drain l m (snd w) = Some s \<and> reach event_ok (fst w, s) \<and>
    sys_step w (Wake l m) (fst w, s)"
proof -
  obtain X R where "sys_inv (fst w, snd w) X R" using reach_sys_inv [OF assms(1)] by auto
  from drain_ok [OF this, of l m] obtain s where s: "buffer_drain l m (snd w) = Some s" by blast
  then have "sys_step w (Wake l m) (fst w, s)" using sys_step.wake [of l m "snd w" s "fst w"] by simp
  then show ?thesis using s assms reach.step [of event_ok w "Wake l m" "(fst w, s)"] by simp
qed

lemma signal_reach: "reach event_ok w \<Longrightarrow> reach event_ok (fst w, EndSignal (snd w))"
  using sys_step.signal [of "fst w" "snd w"] reach.step [of event_ok w Signal] by simp

lemma reach_step_config:
  assumes "reach event_ok w" "event_ok ev" "sys_step w ev v"
  shows "(EndFlag (snd v) \<longleftrightarrow> EndFlag (snd w) \<or> ev = Signal) \<and> Device (snd v) = Device (snd w)"
proof -
  obtain X R where "sys_inv w X R" using reach_sys_inv [OF assms(1)] by blast
  with step_config [of "fst w" "snd w" ev "fst v" "snd v"] assms(2,3) show ?thesis
    by (simp add: same_config_def)
qed

lemma stoppingI: "stopping p = EndFlag (snd (p_world p))"
  by (simp add: stopping_def)

lemma at_recv:
  assumes "proc_inv p" and "p_main p = In_recv i t"
  shows "i < 2" and "recv_ok t 0" and "recv_ok t 1" and "reach event_ok (p_world p)"
    and "\<exists>w. Router_recv t i (p_world p) = Some w \<and> reach event_ok w \<and>
      EndFlag (snd w) = stopping p \<and> Device (snd w) = Device (snd (p_world p))"
proof -
  show i: "i < 2" "recv_ok t 0" "recv_ok t 1" "reach event_ok (p_world p)"
    using assms by (simp_all add: proc_inv_def)
  then have t: "recv_ok t i" "event_ok (Recv i t)" using less_2_cases by auto
  from recv_total [OF i(4,1) t(1)] obtain w where w: "Router_recv t i (p_world p) = Some w"
    "reach event_ok w" "sys_step (p_world p) (Recv i t) w" by blast
  from reach_step_config [OF i(4) t(2) w(3)] w(1,2) show "\<exists>w. Router_recv t i (p_world p) = Some w \<and>
      reach event_ok w \<and> EndFlag (snd w) = stopping p \<and> Device (snd w) = Device (snd (p_world p))"
    by (auto simp: stopping_def)
qed

lemma at_drain:
  assumes "proc_inv p"
  shows "\<exists>s. buffer_drain l m (snd (p_world p)) = Some s \<and> reach event_ok (fst (p_world p), s) \<and>
    EndFlag s = stopping p \<and> Device s = Device (snd (p_world p))"
proof -
  have R: "reach event_ok (p_world p)" using assms by (simp add: proc_inv_def)
  from drain_total [OF R, of l m] obtain s where s: "buffer_drain l m (snd (p_world p)) = Some s"
    "reach event_ok (fst (p_world p), s)" "sys_step (p_world p) (Wake l m) (fst (p_world p), s)" by blast
  from reach_step_config [OF R _ s(3)] s show ?thesis by (auto simp: stopping_def)
qed

lemma proc_inv_recv:
  assumes I: "proc_inv p" and m: "p_main p = In_recv i t" and r: "Router_recv t i (p_world p) = Some w"
  shows "proc_inv (p\<lparr>p_world := w, p_main := (if i = 0 then In_recv 1 t else In_test)\<rparr>)"
  using at_recv [OF I m] I m r by (auto simp: proc_inv_def stopping_def)

lemma proc_inv_drain:
  assumes I: "proc_inv p" and b: "p_buf p = B_drain" and r: "buffer_drain l m (snd (p_world p)) = Some s"
  shows "proc_inv (p\<lparr>p_world := (fst (p_world p), s), p_buf := B_test\<rparr>)"
  using at_drain [OF I, of l m] I b r
  by (auto simp: proc_inv_def stopping_def split: main_at.splits)

lemma proc_inv_signal: "proc_inv p \<Longrightarrow> running p \<Longrightarrow> proc_inv (handle_signal p)"
  using signal_reach [of "p_world p"]
  by (auto simp: proc_inv_def handle_signal_def stopping_def running_def EndSignal_def split: main_at.splits)

lemma proc_step_inv: "proc_step a p q \<Longrightarrow> act_ok a \<Longrightarrow> proc_inv p \<Longrightarrow> proc_inv q"
proof (induction rule: proc_step.induct)
  case (main p t q)
  show ?case
  proof (cases "p_main p")
    case (In_recv i u)
    then show ?thesis
      using main proc_inv_recv by (auto simp: main_defs bind_eq_Some_conv)
  qed (use main in \<open>auto simp: main_defs proc_inv_def stopping_def Let_def
      split: if_splits\<close>)
next
  case (buffer p l m q)
  show ?case
  proof (cases "p_buf p")
    case B_drain
    then show ?thesis
      using buffer proc_inv_drain by (auto simp: buf_step_def bind_eq_Some_conv)
  qed (use buffer in \<open>auto simp: buf_defs proc_inv_def stopping_def running_def
      split: main_at.splits if_splits\<close>)
next
  case (sig p)
  then show ?case by (simp add: proc_inv_signal)
qed

lemma proc_steps_inv: "proc_steps as p q \<Longrightarrow> proc_inv p \<Longrightarrow> proc_inv q"
  by (induction rule: proc_steps.induct) (auto intro: proc_step_inv)

lemma step_thread: "proc_step a p q \<Longrightarrow> p_buf q = No_thread \<longleftrightarrow> p_buf p = No_thread"
  by (induction rule: proc_step.induct)
    (auto simp: main_defs buf_defs handle_signal_def bind_eq_Some_conv Let_def
      split: main_at.splits if_splits)

lemma steps_thread: "proc_steps as p q \<Longrightarrow> p_buf q = No_thread \<longleftrightarrow> p_buf p = No_thread"
  by (induction rule: proc_steps.induct) (auto simp: step_thread)

lemma main_start_ok:
  assumes "main_setup e static_state = (True, s)" and "length buf = 2048"
  shows "proc_inv (main_start e status buf)" and "p_buf (main_start e status buf) = No_thread \<longleftrightarrow> status \<noteq> 0"
  using assms setup_reach [OF assms]
  by (simp_all add: main_start_def proc_inv_def)

text \<open>The threads never go wrong, except that \<open>main\<close> may join a thread that was not created.\<close>

lemma main_step_defined:
  assumes I: "proc_inv p" and d: "p_main p = In_join \<longrightarrow> p_buf p \<noteq> No_thread"
  shows "main_step t p \<noteq> None"
proof (cases "p_main p")
  case (In_recv i u)
  with at_recv(5) [OF I In_recv] show ?thesis by (auto simp: main_defs)
qed (use d in \<open>auto simp: main_defs Let_def\<close>)

lemma buf_step_defined: "proc_inv p \<Longrightarrow> buf_step l m p \<noteq> None"
  using at_drain [of p l m] by (auto simp: buf_step_def split: buf_at.splits)


text \<open>
  When \<open>pthread_create\<close> fails, \<open>main\<close> only prints a message: no run of the router ends properly then.
\<close>

theorem join_without_thread:
  assumes "main_setup e static_state = (True, s)" and "length buf = 2048" and "status \<noteq> 0"
    and run: "proc_steps as (main_start e status buf) p"
  shows "running p \<and> \<not> buf_can p \<and> (p_main p = In_join \<longrightarrow> main_can p \<and> main_step t p = None)"
proof -
  have I: "proc_inv p" using proc_steps_inv [OF run] main_start_ok(1) [OF assms(1,2)] by blast
  have b: "p_buf p = No_thread"
    using steps_thread [OF run] main_start_ok(2) [OF assms(1,2)] assms(3) by blast
  then have "running p" using I by (auto simp: running_def proc_inv_def)
  with b show ?thesis by (simp add: buf_defs main_defs)
qed

section \<open>The end of the program\<close>

text \<open>The steps that are left to a thread once \<open>EndFlag\<close> is set\<close>

definition main_left :: "proc \<Rightarrow> nat" where
  "main_left p = (case p_main p of Returned r \<Rightarrow> 0 | In_join \<Rightarrow> 1 | In_test \<Rightarrow> 2
     | In_recv i t \<Rightarrow> (if i = 0 then 4 else 3) | In_poll \<Rightarrow> 5)"

definition buf_left :: "proc \<Rightarrow> nat" where
  "buf_left p = (case p_buf p of B_drain \<Rightarrow> 2 | B_test \<Rightarrow> 1 | _ \<Rightarrow> 0)"

lemma step_left:
  "proc_step a p q \<Longrightarrow> a \<noteq> Sig \<Longrightarrow> stopping p \<Longrightarrow>
   main_left q + buf_left q < main_left p + buf_left p"
  by (induction rule: proc_step.induct)
    (auto simp: main_defs buf_defs main_left_def buf_left_def
      bind_eq_Some_conv Let_def split: main_at.splits if_splits)

lemma step_stopping:
  assumes "proc_step a p q" and "act_ok a" and I: "proc_inv p"
  shows "stopping q \<longleftrightarrow> stopping p \<or> a = Sig"
  using assms
proof (induction rule: proc_step.induct)
  case (main p t q)
  show ?case
  proof (cases "p_main p")
    case (In_recv i u)
    with at_recv(5) [OF main(4)] main(2) show ?thesis
      by (fastforce simp: main_defs bind_eq_Some_conv stopping_def)
  qed (use main in \<open>auto simp: main_defs stopping_def Let_def split: if_splits\<close>)
next
  case (buffer p l m q)
  show ?case
  proof (cases "p_buf p")
    case B_drain
    with at_drain [OF buffer(5), of l m] buffer(3) show ?thesis
      by (fastforce simp: buf_step_def bind_eq_Some_conv stopping_def)
  qed (use buffer in \<open>auto simp: buf_step_def stopping_def split: if_splits\<close>)
next
  case (sig p)
  then show ?case by (simp add: stopping_def handle_signal_def EndSignal_def)
qed

lemma steps_left:
  "proc_steps as p q \<Longrightarrow> Sig \<notin> set as \<Longrightarrow> proc_inv p \<Longrightarrow> stopping p \<Longrightarrow>
   stopping q \<and> length as + main_left q + buf_left q \<le> main_left p + buf_left p"
proof (induction rule: proc_steps.induct)
  case (more a p q as r)
  have "proc_inv q" "stopping q" using more proc_step_inv step_stopping by auto
  then show ?case using more step_left [OF more(1)] by auto
qed simp

lemma left_bound: "main_left p + buf_left p \<le> 7"
  by (auto simp: main_left_def buf_left_def split: main_at.splits buf_at.splits)

text \<open>As long as \<open>main\<close> has not returned, one of the threads can go on.\<close>

lemma some_thread_can:
  assumes I: "proc_inv p" and n: "p_buf p \<noteq> No_thread" and r: "running p"
    and t: "recv_ok t 0" "recv_ok t 1"
  shows "\<exists>a q. a \<noteq> Sig \<and> act_ok a \<and> proc_step a p q"
proof (cases "main_can p")
  case True
  obtain q where "main_step t p = Some q" using main_step_defined [OF I] n by blast
  with True t have "proc_step (Main t) p q" "act_ok (Main t)" by (simp_all add: proc_step.main)
  then show ?thesis by blast
next
  case False
  then have b: "buf_can p"
    using n r by (cases "p_buf p") (auto simp: main_can_def buf_can_def running_def split: main_at.splits)
  obtain q where "buf_step 0 (\<lambda>_. 0) p = Some q" using buf_step_defined [OF I] by blast
  with b r have "proc_step (Buffer 0 (\<lambda>_. 0)) p q" by (simp add: proc_step.buffer)
  then show ?thesis by (metis act.distinct(5) act_ok.simps(2))
qed

text \<open>A turn in which \<open>poll\<close> times out\<close>

definition idle_turn :: turn where
  "idle_turn = (ex_turn ex_frame64)\<lparr>t_poll := 0\<rparr>"

lemma idle_turn_ok: "recv_ok idle_turn d"
  using ex_turn_ok(1) [of d] by (simp add: idle_turn_def recv_ok_def)

text \<open>C13: Once a signal was handled, the program ends: whatever the threads were doing and however they
  interleave, they take at most 7 further steps, and while \<open>main\<close> has not returned, at least one of
  them can take a step. At the end \<open>main\<close> has returned 0 after the end of the buffer thread.\<close>

theorem process_ends:
  assumes "main_setup e static_state = (True, s)" and "length buf = 2048"
    and "proc_steps as (main_start e 0 buf) p" and "stopping p"
    and run: "proc_steps bs p q" and "Sig \<notin> set bs"
  shows "length bs \<le> 7 \<and>
    (p_main q = Returned 0 \<and> p_buf q = B_done \<or> (\<exists>a r. a \<noteq> Sig \<and> act_ok a \<and> proc_step a q r))"
proof -
  have I: "proc_inv p" using proc_steps_inv [OF assms(3)] main_start_ok(1) [OF assms(1,2)] by blast
  have "length bs \<le> 7" using steps_left [OF run assms(6) I assms(4)] left_bound [of p] by simp
  moreover have J: "proc_inv q" using run I by (rule proc_steps_inv)
  moreover have "p_buf q \<noteq> No_thread"
    using steps_thread [OF run] steps_thread [OF assms(3)] main_start_ok(2) [OF assms(1,2)] by blast
  then have "\<exists>a r. a \<noteq> Sig \<and> act_ok a \<and> proc_step a q r" if "running q"
    using some_thread_can [OF J _ that idle_turn_ok idle_turn_ok] by blast
  moreover have "p_main q = Returned 0 \<and> p_buf q = B_done" if "\<not> running q"
    using that J by (auto simp: running_def proc_inv_def)
  ultimately show ?thesis by blast
qed

section \<open>A run\<close>

lemma ex_setup: "main_setup ex_boot static_state = (True, snd (main_setup ex_boot static_state))"
  by (simp add: main_setup_def ex_boot_def init_device_def GetDeviceInfo_def InitRawSocket_def
      Let_def Param_def next_router_parsed)

lemma ex_sockets:
  "soc (Device (snd (main_setup ex_boot static_state)) 0) = 3"
  "soc (Device (snd (main_setup ex_boot static_state)) 1) = 4"
  by (simp_all add: main_setup_def ex_boot_def init_device_def GetDeviceInfo_def InitRawSocket_def
      Let_def Param_def next_router_parsed store_info_def)

definition ex_proc :: proc where
  "ex_proc = main_start ex_boot 0 (in_buffer [])"

definition ex_ended :: proc where
  "ex_ended = (handle_signal ex_proc)\<lparr>p_main := Returned 0, p_buf := B_done, p_closed := [3, 4]\<rparr>"

lemma ex_proc_fields [simp]:
  "p_world ex_proc = (in_buffer [], snd (main_setup ex_boot static_state))"
  "p_main ex_proc = In_test" "p_buf ex_proc = B_test" "p_closed ex_proc = []"
  using ex_setup by (auto simp: ex_proc_def main_start_def split: prod.splits)

lemma ex_signal: "proc_steps [Sig] ex_proc (handle_signal ex_proc)"
  by (rule proc_steps.more [OF proc_step.sig _ proc_steps.none]) (simp_all add: running_def)

lemma ex_end: "proc_steps [Main idle_turn, Buffer 0 (\<lambda>_. 0), Main idle_turn] (handle_signal ex_proc) ex_ended"
proof -
  let ?p = "handle_signal ex_proc"
  let ?q = "?p\<lparr>p_main := In_join\<rparr>"
  let ?r = "?q\<lparr>p_buf := B_done\<rparr>"
  have s: "stopping (?p\<lparr>p_main := m\<rparr>)" "stopping ?p" for m
    by (simp_all add: stopping_def handle_signal_def EndSignal_def)
  have f: "p_main ?p = In_test" "p_buf ?p = B_test" "p_closed ?p = []"
    by (simp_all add: handle_signal_def)
  have "proc_step (Main idle_turn) ?p ?q"
    by (rule proc_step.main) (simp_all add: main_defs f s)
  moreover have "proc_step (Buffer 0 (\<lambda>_. 0)) ?q ?r"
    by (rule proc_step.buffer) (simp_all add: running_def buf_defs f s)
  moreover have "proc_step (Main idle_turn) ?r ex_ended"
    using ex_sockets
    by (intro proc_step.main)
      (simp_all add: main_defs f ex_ended_def handle_signal_def EndSignal_def)
  ultimately show ?thesis
    using idle_turn_ok
    by (intro proc_steps.more [of _ ?p ?q] proc_steps.more [of _ ?q ?r] proc_steps.more [of _ ?r ex_ended]
        proc_steps.none) simp_all
qed

lemma ex_steps_append: "proc_steps as p q \<Longrightarrow> proc_steps bs q r \<Longrightarrow> proc_steps (as @ bs) p r"
  by (induction rule: proc_steps.induct) (auto intro: proc_steps.more)


theorem process_ends_witness:
  "proc_steps [Main idle_turn, Buffer 0 (\<lambda>_. 0), Main idle_turn] (handle_signal ex_proc) ex_ended \<and>
   p_main ex_ended = Returned 0 \<and> p_buf ex_ended = B_done"
proof -
  have s: "stopping (handle_signal ex_proc)" by (simp add: stopping_def handle_signal_def EndSignal_def)
  have "\<not> (\<exists>a r. a \<noteq> Sig \<and> act_ok a \<and> proc_step a ex_ended r)"
    by (auto simp: ex_ended_def running_def main_can_def elim!: proc_step.cases)
  with process_ends [OF ex_setup _ ex_signal [unfolded ex_proc_def] s [unfolded ex_proc_def]
      ex_end [unfolded ex_proc_def]] ex_end
  show ?thesis by auto
qed

end
