(* ===== verification/RouterSpec.thy ===== *)
theory RouterSpec
  imports RouterSystem "HOL-Library.Multiset"
begin

text \<open>
  What a router may do, without tables, queues, heaps and clocks: the announcements it has heard,
  the frames it holds back and what it has sent. The steps say which of these a received frame or
  a wake-up of the buffer thread may change, and how; which frames are dropped and when is left
  open. The last section shows what every run of this specification satisfies, and the locale
  \<open>simulation\<close> carries it over to a program that refines it.
\<close>

section \<open>Runs and simulations\<close>

inductive run_of :: "('e \<Rightarrow> 's \<Rightarrow> 's \<Rightarrow> bool) \<Rightarrow> 'e list \<Rightarrow> 's \<Rightarrow> 's \<Rightarrow> bool" for step where
  nil: "run_of step [] s s"
| snoc: "run_of step evs s t \<Longrightarrow> step ev t u \<Longrightarrow> run_of step (evs @ [ev]) s u"

inductive_cases run_of_NilE: "run_of step [] s t"

lemma run_of_snocE:
  assumes "run_of step (evs @ [ev]) s u"
  obtains t where "run_of step evs s t" and "step ev t u"
  using assms by cases auto

lemma run_of_single: "step ev s t \<Longrightarrow> run_of step [ev] s t"
  using run_of.snoc [OF run_of.nil] by fastforce

lemma run_of_append: "run_of step fs t u \<Longrightarrow> run_of step evs s t \<Longrightarrow> run_of step (evs @ fs) s u"
proof (induction rule: run_of.induct)
  case (snoc fs t u ev v)
  then show ?case using run_of.snoc [of step "evs @ fs"] by simp
qed simp

text \<open>
  Every step of the program that the environment allows is a step of the specification, between
  related states; then so is every run. An invariant of the specification holds for the states
  related to those of the program.
\<close>

locale simulation =
  fixes cstep :: "'e \<Rightarrow> 'c \<Rightarrow> 'c \<Rightarrow> bool" and astep :: "'e \<Rightarrow> 'a \<Rightarrow> 'a \<Rightarrow> bool"
    and rel :: "'c \<Rightarrow> 'a \<Rightarrow> bool" and ok :: "'e \<Rightarrow> bool"
  assumes step: "rel s A \<Longrightarrow> ok ev \<Longrightarrow> cstep ev s t \<Longrightarrow> \<exists>B. astep ev A B \<and> rel t B"
begin

lemma runs:
  "run_of cstep evs s t \<Longrightarrow> \<forall>ev \<in> set evs. ok ev \<Longrightarrow> rel s A \<Longrightarrow> \<exists>B. run_of astep evs A B \<and> rel t B"
proof (induction rule: run_of.induct)
  case (snoc evs s t ev u)
  then obtain B where B: "run_of astep evs A B" "rel t B" by auto
  have "ok ev" using snoc.prems(1) by simp
  from step [OF B(2) this snoc.hyps(2)] B(1) show ?case by (auto intro: run_of.snoc)
qed (auto intro: run_of.nil)

lemma invariants:
  assumes "run_of cstep evs s t" and "\<forall>ev \<in> set evs. ok ev" and "rel s A"
    and "\<And>B. run_of astep evs A B \<Longrightarrow> rel t B \<Longrightarrow> P t B"
  shows "\<exists>B. rel t B \<and> P t B"
  using runs [OF assms(1-3)] assms(4) by blast

end

section \<open>The specification\<close>

text \<open>
  What was sent: an ARP request for an address on a device; a time exceeded message about the
  packet in a buffer; a frame to a next hop on a device under a MAC address, at once (with the
  device's own source address) or after it was held back.
\<close>

datatype item = Ask nat in_addr_t | Reply nat bytes | Send nat in_addr_t mac bool bytes

text \<open>The bytes on the wire, under the configuration of the router \<open>c\<close>\<close>

primrec render :: "router \<Rightarrow> item \<Rightarrow> int \<times> bytes" where
  "render c (Ask d a) =
     hd (SendArpRequestB (soc (Device c d)) a bcast (addr (Device c d)) (hwaddr (Device c d)) [])"
| "render c (Reply d b) = (soc (Device c d), time_exceeded c d b)"
| "render c (Send d a m direct f) =
     (soc (Device c d), fwd_frame m (if direct then Some (hwaddr (Device c d)) else None) f)"

text \<open>
  \<open>announced\<close>: the MAC address announced for an address on a device, the latest first;
  \<open>waiting\<close>: the frames held back, with their device and next hop.
\<close>

record spec =
  announced :: "((nat \<times> in_addr_t) \<times> mac) list"
  waiting :: "(nat \<times> in_addr_t \<times> bytes) multiset"
  log :: "item list"

definition spec_start :: spec where
  "spec_start = \<lparr>announced = [], waiting = {#}, log = []\<rparr>"

text \<open>The frame an event receives, and the decision on it\<close>

fun received :: "router \<Rightarrow> event \<Rightarrow> (nat \<times> bytes \<times> action) option" where
  "received c (Recv d t) =
     (if t_ready t d \<and> 0 < fst (t_read t d)
      then let f = snd (t_read t d) in Some (d, f, classify c d f (length f)) else None)"
| "received c (Wake lock lock_sd) = None"
| "received c Signal = None"

text \<open>A MAC address a held frame may be sent to: one announced for its next hop, or the null address\<close>

definition known_mac :: "spec \<Rightarrow> nat \<Rightarrow> in_addr_t \<Rightarrow> mac \<Rightarrow> bool" where
  "known_mac A d a m \<longleftrightarrow> m = zero_mac \<or> ((d, a), m) \<in> set (announced A)"

inductive spec_step :: "router \<Rightarrow> event \<Rightarrow> spec \<Rightarrow> spec \<Rightarrow> bool" for c where
  idle: "received c ev = None \<Longrightarrow> spec_step c ev A A"
| pass: "received c ev = Some (d, f, act) \<Longrightarrow> act = Drop \<or> act = Ignore \<or> act = Mine \<Longrightarrow> spec_step c ev A A"
| reply: "received c ev = Some (d, f, Expire) \<Longrightarrow> take (length f) b = f \<Longrightarrow>
    spec_step c ev A (A\<lparr>log := log A @ [Reply d b]\<rparr>)"
| learn: "received c ev = Some (d, f, Learn a m) \<Longrightarrow> W \<subseteq># waiting A \<Longrightarrow>
    spec_step c ev A (A\<lparr>announced := ((d, a), m) # announced A, waiting := W\<rparr>)"
| forward: "received c ev = Some (d, f, Forward a) \<Longrightarrow> map_of (announced A) (other d, a) = Some m \<Longrightarrow>
    W \<subseteq># waiting A \<Longrightarrow>
    spec_step c ev A (A\<lparr>waiting := W, log := log A @ [Send (other d) a m True f]\<rparr>)"
| hold: "received c ev = Some (d, f, Forward a) \<Longrightarrow> W \<subseteq># add_mset (other d, a, f) (waiting A) \<Longrightarrow>
    L = [] \<or> L = [Ask (other d) a] \<Longrightarrow>
    spec_step c ev A (A\<lparr>waiting := W, log := log A @ L\<rparr>)"
| wake: "ev = Wake lock lock_sd \<Longrightarrow> \<forall>(d, a, m, f) \<in> set xs. known_mac A d a m \<Longrightarrow>
    waiting A = mset (map (\<lambda>(d, a, m, f). (d, a, f)) xs) + W \<Longrightarrow>
    spec_step c ev A (A\<lparr>waiting := W, log := log A @ map (\<lambda>(d, a, m, f). Send d a m False f) xs\<rparr>)"

section \<open>What every run satisfies\<close>

text \<open>The frames sent in a log, and those received that are to be forwarded\<close>

fun sent_frame :: "item \<Rightarrow> (nat \<times> in_addr_t \<times> bytes) list" where
  "sent_frame (Send d a m direct f) = [(d, a, f)]"
| "sent_frame _ = []"

definition sent_list :: "item list \<Rightarrow> (nat \<times> in_addr_t \<times> bytes) list" where
  "sent_list L = concat (map sent_frame L)"

definition offer_list :: "router \<Rightarrow> event list \<Rightarrow> (nat \<times> in_addr_t \<times> bytes) list" where
  "offer_list c evs = concat (map (\<lambda>ev. case received c ev of
     Some (d, f, Forward a) \<Rightarrow> [(other d, a, f)] | _ \<Rightarrow> []) evs)"

definition sent_frames :: "item list \<Rightarrow> (nat \<times> in_addr_t \<times> bytes) multiset" where
  "sent_frames L = mset (sent_list L)"

definition offered :: "router \<Rightarrow> event list \<Rightarrow> (nat \<times> in_addr_t \<times> bytes) multiset" where
  "offered c evs = mset (offer_list c evs)"

text \<open>Those for one next hop, in their order\<close>

definition to_hop :: "nat \<times> in_addr_t \<Rightarrow> (nat \<times> in_addr_t \<times> bytes) list \<Rightarrow> bytes list" where
  "to_hop k xs = map (\<lambda>(d, a, f). f) (filter (\<lambda>(d, a, f). (d, a) = k) xs)"

lemma to_hop_simps [simp]:
  "to_hop k [] = []" "to_hop k (xs @ ys) = to_hop k xs @ to_hop k ys"
  "to_hop k ((d, a, f) # xs) = (if (d, a) = k then f # to_hop k xs else to_hop k xs)"
  by (simp_all add: to_hop_def)

lemma sent_list_simps [simp]:
  "sent_list [] = []" "sent_list (it # L) = sent_frame it @ sent_list L"
  "sent_list (L @ M) = sent_list L @ sent_list M"
  "sent_list (map (\<lambda>(d, a, m, f). Send d a m direct f) xs) = map (\<lambda>(d, a, m, f). (d, a, f)) xs"
  by (induction xs) (auto simp: sent_list_def)

lemma offer_list_append [simp]: "offer_list c (evs @ fs) = offer_list c evs @ offer_list c fs"
  by (simp add: offer_list_def)

lemma sent_frames_simps [simp]:
  "sent_frames [] = {#}" "sent_frames (L @ M) = sent_frames L + sent_frames M"
  "sent_frames [Ask d a] = {#}" "sent_frames [Reply d b] = {#}"
  "sent_frames [Send d a m direct f] = {#(d, a, f)#}"
  "sent_frames (map (\<lambda>(d, a, m, f). Send d a m direct f) xs) = mset (map (\<lambda>(d, a, m, f). (d, a, f)) xs)"
  by (simp_all add: sent_frames_def del: mset_map)

lemma offered_simps [simp]:
  "offered c [] = {#}" "offered c (evs @ fs) = offered c evs + offered c fs"
  by (simp_all add: offered_def) (simp add: offer_list_def)

lemma offered_forward: "received c ev = Some (d, f, Forward a) \<Longrightarrow> offered c [ev] = {#(other d, a, f)#}"
  by (simp add: offered_def offer_list_def)

text \<open>A step sends and keeps nothing that it did not hold or receive, each frame once.\<close>

lemma spec_step_frames:
  "spec_step c ev A B \<Longrightarrow>
   sent_frames (log B) + waiting B \<subseteq># sent_frames (log A) + waiting A + offered c [ev]"
proof (induction rule: spec_step.induct)
  case (hold ev d f a W A L)
  have "sent_frames L = {#}" using hold(3) by auto
  with hold(2) show ?case by (simp add: offered_forward [OF hold(1)] add_mset_commute)
next
  case (forward ev d f a A m W)
  then show ?case by (simp add: offered_forward [OF forward(1)])
next
  case (learn ev d f a m W A)
  then show ?case by (simp add: subset_mset.add_increasing2)
qed simp_all

lemma spec_run_frames:
  "run_of (spec_step c) evs A B \<Longrightarrow>
   sent_frames (log B) + waiting B \<subseteq># sent_frames (log A) + waiting A + offered c evs"
proof (induction rule: run_of.induct)
  case (snoc evs A B ev C)
  have "sent_frames (log C) + waiting C \<subseteq># (sent_frames (log B) + waiting B) + offered c [ev]"
    using spec_step_frames [OF snoc(2)] .
  also have "\<dots> \<subseteq># (sent_frames (log A) + waiting A + offered c evs) + offered c [ev]"
    using snoc(3) by (rule subset_mset.add_right_mono)
  finally show ?case by (simp add: ac_simps)
qed simp

text \<open>The announcements are those of the ARP packets received.\<close>

definition announcements :: "router \<Rightarrow> event list \<Rightarrow> ((nat \<times> in_addr_t) \<times> mac) list" where
  "announcements c evs = concat (map (\<lambda>ev. case received c ev of
     Some (d, f, Learn a m) \<Rightarrow> [((d, a), m)] | _ \<Rightarrow> []) (rev evs))"

lemma announcements_snoc: "announcements c (evs @ [ev]) = announcements c [ev] @ announcements c evs"
  by (simp add: announcements_def)

lemma spec_step_announced: "spec_step c ev A B \<Longrightarrow> announced B = announcements c [ev] @ announced A"
  by (induction rule: spec_step.induct) (auto simp: announcements_def)

lemma spec_run_announced: "run_of (spec_step c) evs A B \<Longrightarrow> announced B = announcements c evs @ announced A"
proof (induction rule: run_of.induct)
  case (snoc evs A B ev C)
  then show ?case by (simp add: spec_step_announced [OF snoc(2)] announcements_snoc [of c evs])
qed (simp add: announcements_def)

text \<open>A frame goes to an address announced for its next hop; sent at once, to the latest one.\<close>

definition justified :: "router \<Rightarrow> event list \<Rightarrow> item \<Rightarrow> bool" where
  "justified c evs it \<longleftrightarrow> (case it of
     Ask d a \<Rightarrow> \<exists>ev \<in> set evs. \<exists>d' f. received c ev = Some (d', f, Forward a) \<and> d = other d'
   | Reply d b \<Rightarrow> \<exists>ev \<in> set evs. \<exists>f. received c ev = Some (d, f, Expire) \<and> take (length f) b = f
   | Send d a m direct f \<Rightarrow>
       (if direct then ((d, a), m) \<in> set (announcements c evs)
        else m = zero_mac \<or> ((d, a), m) \<in> set (announcements c evs)))"

lemma justified_mono: "justified c evs it \<Longrightarrow> justified c (evs @ [ev]) it"
  by (cases it) (auto simp: justified_def announcements_snoc [of c evs])

lemma spec_step_justified:
  assumes "spec_step c ev A B" and "announced A = announcements c evs"
  shows "\<exists>L. log B = log A @ L \<and> (\<forall>it \<in> set L. justified c (evs @ [ev]) it)"
  using assms
proof (induction rule: spec_step.induct)
  case (reply ev d f b A)
  then show ?case by (auto simp: justified_def)
next
  case (forward ev d f a A m W)
  then show ?case
    by (auto simp: justified_def announcements_snoc [of c evs] dest!: map_of_SomeD)
next
  case (hold ev d f a W A L)
  then show ?case by (auto simp: justified_def)
next
  case (wake ev lock lock_sd A xs W)
  then show ?case
    by (auto simp: justified_def announcements_snoc [of c evs] known_mac_def)
qed auto

lemma spec_run_justified:
  "run_of (spec_step c) evs A B \<Longrightarrow> A = spec_start \<Longrightarrow> \<forall>it \<in> set (log B). justified c evs it"
proof (induction rule: run_of.induct)
  case (snoc evs A B ev C)
  have "announced B = announcements c evs"
    using spec_run_announced [OF snoc(1)] snoc.prems by (simp add: spec_start_def)
  from spec_step_justified [OF snoc(2) this] snoc show ?case by (auto intro: justified_mono)
qed (simp add: spec_start_def)

end
