(* ===== verification/RouterRefine.thy ===== *)
theory RouterRefine
  imports RouterMemory RouterSpec
begin

text \<open>
  The router refines its specification: every step of the system relation, with its tables, heaps,
  queues and clocks, is a step of theory \<open>RouterSpec\<close>. What the specification promises about runs
  then holds for what the router writes to its sockets.
\<close>

section \<open>The frames held back\<close>

definition held :: "router \<Rightarrow> (nat \<times> nat \<Rightarrow> bytes list) \<Rightarrow> (nat \<times> in_addr_t \<times> bytes) multiset" where
  "held s X = (\<Sum>k\<in>slots s. image_mset (\<lambda>f. (fst k, i_addr (ent s k), f)) (mset (X k)))"

lemma finite_slots [simp]: "finite (slots s)"
proof -
  have "slots s \<subseteq> {..<2} \<times> {..<max (length (t_data (Ip2Macs s 0))) (length (t_data (Ip2Macs s 1)))}"
  proof
    fix k assume k: "k \<in> slots s"
    obtain d i where "k = (d, i)" by (cases k)
    with k less_2_cases [of d] show
      "k \<in> {..<2} \<times> {..<max (length (t_data (Ip2Macs s 0))) (length (t_data (Ip2Macs s 1)))}"
      by (auto simp: slots_def)
  qed
  then show ?thesis by (rule finite_subset) simp
qed

lemma held_cong:
  assumes "slots t = slots s" and "\<forall>k \<in> slots s. i_addr (ent t k) = i_addr (ent s k) \<and> Y k = X k"
  shows "held t Y = held s X"
  unfolding held_def using assms by (intro sum.cong) simp_all

text \<open>Changing one queue\<close>

lemma held_remove:
  assumes "k \<in> slots s"
  shows "held s X = image_mset (\<lambda>f. (fst k, i_addr (ent s k), f)) (mset (X k)) + held s (X(k := []))"
proof -
  have "(\<Sum>l\<in>slots s - {k}. image_mset (\<lambda>f. (fst l, i_addr (ent s l), f)) (mset ((X(k := [])) l))) =
      (\<Sum>l\<in>slots s - {k}. image_mset (\<lambda>f. (fst l, i_addr (ent s l), f)) (mset (X l)))"
    by (rule sum.cong) simp_all
  then show ?thesis
    using assms unfolding held_def by (simp add: sum.remove [of "slots s" k])
qed

lemma held_append:
  assumes "k \<in> slots s"
  shows "held s (X(k := X k @ fs)) = image_mset (\<lambda>f. (fst k, i_addr (ent s k), f)) (mset fs) + held s X"
  using held_remove [OF assms, of X] held_remove [OF assms, of "X(k := X k @ fs)"]
  by (simp add: ac_simps)

lemma held_drain:
  "distinct R \<Longrightarrow> set R \<subseteq> slots s \<Longrightarrow>
   held s X = mset (concat (map (\<lambda>k. map (\<lambda>f. (fst k, i_addr (ent s k), f)) (X k)) R)) +
     held s (\<lambda>k. if k \<in> set R then [] else X k)"
proof (induction R arbitrary: X)
  case (Cons k R)
  let ?Y = "X(k := [])"
  have "held s ?Y = mset (concat (map (\<lambda>k. map (\<lambda>f. (fst k, i_addr (ent s k), f)) (?Y k)) R)) +
      held s (\<lambda>l. if l \<in> set R then [] else ?Y l)"
    by (rule Cons.IH) (use Cons.prems in simp_all)
  moreover have "map (\<lambda>l. map (\<lambda>f. (fst l, i_addr (ent s l), f)) (?Y l)) R =
      map (\<lambda>l. map (\<lambda>f. (fst l, i_addr (ent s l), f)) (X l)) R"
    using Cons.prems(1) by (intro map_cong) auto
  moreover have "(\<lambda>l. if l \<in> set R then [] else ?Y l) = (\<lambda>l. if l \<in> set (k # R) then [] else X l)"
    by auto
  moreover have "k \<in> slots s" using Cons.prems(2) by simp
  ultimately show ?case
    unfolding held_remove [OF \<open>k \<in> slots s\<close>, of X] by (simp only: list.map concat.simps mset_append mset_map union_assoc)
qed simp

text \<open>A search only loses frames.\<close>

lemma sum_subset_mset:
  "finite K \<Longrightarrow> (\<And>k. k \<in> K \<Longrightarrow> f k \<subseteq># g k) \<Longrightarrow> sum f K \<subseteq># sum g K"
  for f :: "'k \<Rightarrow> 'a multiset"
  by (induction rule: finite_induct) (simp_all add: subset_mset.add_mono)

lemma held_search:
  assumes S: "search_post e d a hw s X R i t X' R'"
  shows "held t X' \<subseteq># held s X"
proof -
  let ?k = "(d, i)"
  let ?g = "\<lambda>s X k. image_mset (\<lambda>f. (fst k, i_addr (ent s k), f)) (mset (X k))"
  have sl: "slots t = insert ?k (slots s)" using S by (simp add: search_post_def)
  have o: "?g t X' k \<subseteq># ?g s X k" if "k \<in> slots s" "k \<noteq> ?k" for k
  proof -
    have "X' k = X k \<or> X' k = []" "same_peer (ent s k) (ent t k)"
      using S that unfolding search_post_def others_post_def by blast+
    then show ?thesis by (auto simp: same_peer_def)
  qed
  have new: "X' ?k = [] \<or> ?k \<in> slots s \<and> X' ?k = X ?k \<and> i_addr (ent t ?k) = i_addr (ent s ?k)"
    using S live_slot by (auto simp: search_post_def is_hit_def split: if_splits)
  have "held t X' = ?g t X' ?k + (\<Sum>k\<in>slots s - {?k}. ?g t X' k)"
    unfolding held_def sl by (simp add: sum.insert_remove)
  also have "\<dots> \<subseteq># ?g t X' ?k + (\<Sum>k\<in>slots s - {?k}. ?g s X k)"
    by (intro subset_mset.add_left_mono sum_subset_mset) (use o in simp_all)
  also have "\<dots> \<subseteq># held s X"
  proof (cases "?k \<in> slots s")
    case True
    then have "held s X = ?g s X ?k + (\<Sum>k\<in>slots s - {?k}. ?g s X k)"
      unfolding held_def by (simp add: sum.remove)
    with new show ?thesis by auto
  qed (use new in \<open>simp add: held_def\<close>)
  finally show ?thesis .
qed

section \<open>The MAC addresses of the entries\<close>

text \<open>
  An entry's MAC address was announced for its address or is null, also after the entry was freed;
  that of a resolved entry is the latest announced.
\<close>

definition macs_ok :: "router \<Rightarrow> ((nat \<times> in_addr_t) \<times> mac) list \<Rightarrow> bool" where
  "macs_ok s H \<longleftrightarrow>
     (\<forall>k \<in> slots s. i_hwaddr (ent s k) = zero_mac \<or>
        ((fst k, i_addr (ent s k)), i_hwaddr (ent s k)) \<in> set H) \<and>
     (\<forall>k. live s k \<and> i_flag (ent s k) = FLAG_OK \<longrightarrow>
        map_of H (fst k, i_addr (ent s k)) = Some (i_hwaddr (ent s k)))"

lemma macs_okD:
  "macs_ok s H \<Longrightarrow> k \<in> slots s \<Longrightarrow> i_hwaddr (ent s k) = zero_mac \<or>
     ((fst k, i_addr (ent s k)), i_hwaddr (ent s k)) \<in> set H"
  "macs_ok s H \<Longrightarrow> live s k \<Longrightarrow> i_flag (ent s k) = FLAG_OK \<Longrightarrow>
     map_of H (fst k, i_addr (ent s k)) = Some (i_hwaddr (ent s k))"
  unfolding macs_ok_def by blast+

lemma macs_okI:
  assumes "\<And>k. k \<in> slots s \<Longrightarrow> i_hwaddr (ent s k) = zero_mac \<or>
      ((fst k, i_addr (ent s k)), i_hwaddr (ent s k)) \<in> set H"
    and "\<And>k. live s k \<Longrightarrow> i_flag (ent s k) = FLAG_OK \<Longrightarrow>
      map_of H (fst k, i_addr (ent s k)) = Some (i_hwaddr (ent s k))"
  shows "macs_ok s H"
  unfolding macs_ok_def using assms by blast

lemma macs_ok_step:
  assumes "qs_step s t" shows "macs_ok t H = macs_ok s H"
  using qs_step_fields [OF assms] by (simp add: macs_ok_def)

lemma macs_ok_out [simp]: "macs_ok (s\<lparr>out := l\<rparr>) H = macs_ok s H"
  by (simp add: macs_ok_def)

text \<open>What a search leaves of the other entries\<close>

lemma search_post_other:
  assumes S: "search_post e d a hw s X R i t X' R'" and k: "k \<noteq> (d, i)"
  shows "k \<in> slots t \<Longrightarrow> k \<in> slots s \<and> same_peer (ent s k) (ent t k)"
    and "live t k \<Longrightarrow> live s k \<and> ent t k = ent s k"
    and "live t k \<Longrightarrow> (fst k, i_addr (ent t k)) \<noteq> (d, a)"
proof -
  show "k \<in> slots t \<Longrightarrow> k \<in> slots s \<and> same_peer (ent s k) (ent t k)"
    using S k unfolding search_post_def others_post_def by blast
  show "live t k \<Longrightarrow> live s k \<and> ent t k = ent s k"
    using S k unfolding search_post_def others_post_def by blast
  show "(fst k, i_addr (ent t k)) \<noteq> (d, a)" if lv: "live t k"
  proof
    assume eq: "(fst k, i_addr (ent t k)) = (d, a)"
    have P: "unique_addr t" "live t (d, i)" "i_addr (ent t (d, i)) = a"
      using S unfolding search_post_def inv_def by blast+
    have "fst k = fst (d, i)" "i_addr (ent t k) = i_addr (ent t (d, i))" using eq P(3) by simp_all
    with P(1,2) lv have "k = (d, i)" unfolding unique_addr_def by blast
    with k show False by simp
  qed
qed

lemma macs_ok_ask:
  assumes S: "search_post e d a None s X R i t X' R'" and H: "macs_ok s H"
  shows "macs_ok t H"
proof -
  let ?k = "(d, i)"
  have k: "live s ?k \<and> i_addr (ent s ?k) = a \<and> ent t ?k = touch e (ent s ?k) \<or>
      ent t ?k = init_entry e d a None"
    using S by (auto simp: search_post_def is_hit_def hit_entry_def split: if_splits)
  have t: "i_hwaddr (touch e m) = i_hwaddr m" for m by (simp add: touch_def)
  show ?thesis
  proof (rule macs_okI)
    fix l assume l: "l \<in> slots t"
    show "i_hwaddr (ent t l) = zero_mac \<or> ((fst l, i_addr (ent t l)), i_hwaddr (ent t l)) \<in> set H"
    proof (cases "l = ?k")
      case True
      from k show ?thesis
      proof
        assume h: "live s ?k \<and> i_addr (ent s ?k) = a \<and> ent t ?k = touch e (ent s ?k)"
        then have "?k \<in> slots s" by (simp add: live_slot)
        from macs_okD(1) [OF H this] h True show ?thesis by (simp add: t)
      qed (use True in \<open>simp add: init_entry_def\<close>)
    next
      case False
      from search_post_other(1) [OF S False l] macs_okD(1) [OF H, of l] show ?thesis
        by (auto simp: same_peer_def)
    qed
  next
    fix l assume l: "live t l" "i_flag (ent t l) = FLAG_OK"
    show "map_of H (fst l, i_addr (ent t l)) = Some (i_hwaddr (ent t l))"
    proof (cases "l = ?k")
      case True
      with k l(2) macs_okD(2) [OF H, of ?k] show ?thesis by (auto simp: init_entry_def t)
    next
      case False
      from search_post_other(2) [OF S False l(1)] macs_okD(2) [OF H, of l] l(2) show ?thesis by simp
    qed
  qed
qed

lemma macs_ok_learn:
  assumes S: "search_post e d a (Some m) s X R i t X' R'" and H: "macs_ok s H"
  shows "macs_ok t (((d, a), m) # H)"
proof -
  have k: "i_hwaddr (ent t (d, i)) = m" "i_addr (ent t (d, i)) = a"
    using search_post_learn [OF S] S by (simp_all add: search_post_def)
  show ?thesis
  proof (rule macs_okI)
    fix l assume l: "l \<in> slots t"
    show "i_hwaddr (ent t l) = zero_mac \<or>
      ((fst l, i_addr (ent t l)), i_hwaddr (ent t l)) \<in> set (((d, a), m) # H)"
    proof (cases "l = (d, i)")
      case False
      from search_post_other(1) [OF S False l] macs_okD(1) [OF H, of l] show ?thesis
        by (auto simp: same_peer_def)
    qed (use k in simp)
  next
    fix l assume l: "live t l" "i_flag (ent t l) = FLAG_OK"
    show "map_of (((d, a), m) # H) (fst l, i_addr (ent t l)) = Some (i_hwaddr (ent t l))"
    proof (cases "l = (d, i)")
      case False
      have "map_of (((d, a), m) # H) (fst l, i_addr (ent t l)) = map_of H (fst l, i_addr (ent t l))"
        using search_post_other(3) [OF S False l(1)] by auto
      with search_post_other(2) [OF S False l(1)] macs_okD(2) [OF H, of l] l(2) show ?thesis by simp
    qed (use k in simp)
  qed
qed

section \<open>The simulation\<close>

definition spec_rel :: "router \<Rightarrow> world \<Rightarrow> spec \<Rightarrow> bool" where
  "spec_rel c w A \<longleftrightarrow> (\<exists>X R. sys_inv w X R \<and> same_config c (snd w) \<and>
     macs_ok (snd w) (announced A) \<and> waiting A = held (snd w) X \<and>
     out (snd w) = out c @ map (render c) (log A))"

text \<open>The same without the invariant, for the state and its queues\<close>

definition shows_spec :: "router \<Rightarrow> router \<Rightarrow> (nat \<times> nat \<Rightarrow> bytes list) \<Rightarrow> spec \<Rightarrow> bool" where
  "shows_spec c s X A \<longleftrightarrow> macs_ok s (announced A) \<and> waiting A = held s X \<and>
     out s = out c @ map (render c) (log A)"

lemma held_out [simp]: "held (s\<lparr>out := l\<rparr>) X = held s X"
  by (simp add: held_def)

lemma held_q_step:
  assumes "q_step t s' k" shows "held s' Y = held t Y"
  using q_step_slots [OF assms] q_step_fields [OF assms] by (intro held_cong) simp_all

text \<open>Messages in the configuration of \<open>c\<close>\<close>

lemma render_reply: "same_config c s \<Longrightarrow> render c (Reply d b) = (soc (Device s d), time_exceeded s d b)"
  by (simp add: same_config_def time_exceeded_def)

lemma render_log_ask:
  assumes "same_config c s"
  shows "arp_log s d a m = out s @ (if i_flag m = FLAG_OK then [] else [render c (Ask d a)])"
  using assms
  by (simp add: arp_log_def SendArpRequestB_def arp_request_def sock_write_def same_config_def)

lemma refines_learn:
  assumes S: "search_post e d a (Some m) s X R i s' X' R'" and A: "shows_spec c s X A"
    and r: "received c ev = Some (d, f, Learn a m)"
  shows "\<exists>B. spec_step c ev A B \<and> shows_spec c s' X' B"
proof -
  let ?B = "A\<lparr>announced := ((d, a), m) # announced A, waiting := held s' X'\<rparr>"
  have "held s' X' \<subseteq># waiting A" using held_search [OF S] A by (simp add: shows_spec_def)
  then have "spec_step c ev A ?B" by (rule spec_step.learn [OF r])
  moreover have "shows_spec c s' X' ?B"
    using macs_ok_learn [OF S] A search_post_out [OF S] by (simp add: shows_spec_def)
  ultimately show ?thesis by blast
qed

text \<open>A frame to be forwarded is sent at once or joins the queue of its next hop.\<close>

lemma forward_cases:
  assumes P: "forward_post e (other d) a (f @ rest) (length f) s X R r data' s' X' R'"
    and cfg: "same_config c s" and c: "complete f"
  obtains (sent) i t X1 where "search_post e (other d) a None s X R i t X1 R'"
    "ready t (other d, i) X1" "X' = X1"
    "s' = t\<lparr>out := out s @ [render c (Send (other d) a (i_hwaddr (ent t (other d, i))) True f)]\<rparr>"
  | (waits) i t X1 L where "search_post e (other d) a None s X R i t X1 R'"
    "\<not> ready t (other d, i) X1" "X' = queued e t (other d, i) f X1" "q_step t s' (other d, i)"
    "out s' = out s @ map (render c) L" "L = [] \<or> L = [Ask (other d) a]"
proof -
  obtain i t X1 where S: "search_post e (other d) a None s X R i t X1 R'"
    and ready: "ready t (other d, i) X1 \<Longrightarrow> X' = X1 \<and> s' = t\<lparr>out := out s @ [(soc (Device s (other d)),
        take (length f) (fwd_frame (i_hwaddr (ent t (other d, i))) (Some (hwaddr (Device s (other d)))) (f @ rest)))]\<rparr>"
    and wait: "\<not> ready t (other d, i) X1 \<Longrightarrow> X' = queued e t (other d, i) f X1 \<and>
        q_step t s' (other d, i) \<and> out s' = arp_log s (other d) a (ent t (other d, i))"
    using P unfolding forward_post_def Let_def by (elim exE conjE) (erule that, simp_all split: if_splits)
  have "take (length f) (fwd_frame m sm (f @ rest)) = fwd_frame m sm f" for m sm
    using fwd_frame_take [of "length f" "f @ rest"] c by simp
  note frame = this
  show ?thesis
  proof (cases "ready t (other d, i) X1")
    case True
    show ?thesis
      by (rule sent [OF S True]) (use ready [OF True] frame cfg in \<open>simp_all add: same_config_def\<close>)
  next
    case False
    let ?L = "if i_flag (ent t (other d, i)) = FLAG_OK then [] else [Ask (other d) a]"
    show ?thesis
      by (rule waits [OF S False, of ?L]) (use wait [OF False] render_log_ask [OF cfg] in simp_all)
  qed
qed

lemma refines_forward:
  assumes P: "forward_post e (other d) a (f @ rest) (length f) s X R r data' s' X' R'"
    and A: "shows_spec c s X A" and cfg: "same_config c s" and c: "complete f"
    and r: "received c ev = Some (d, f, Forward a)"
  shows "\<exists>B. spec_step c ev A B \<and> shows_spec c s' X' B"
  using P cfg c
proof (cases rule: forward_cases)
  case (sent i t X1)
  let ?k = "(other d, i)"
  let ?B = "A\<lparr>waiting := held t X1, log := log A @ [Send (other d) a (i_hwaddr (ent t ?k)) True f]\<rparr>"
  have H: "macs_ok t (announced A)" using macs_ok_ask [OF sent(1)] A by (simp add: shows_spec_def)
  have W: "held t X1 \<subseteq># waiting A" using held_search [OF sent(1)] A by (simp add: shows_spec_def)
  have "live t ?k" "i_addr (ent t ?k) = a" using sent(1) by (simp_all add: search_post_def)
  then have "map_of (announced A) (other d, a) = Some (i_hwaddr (ent t ?k))"
    using macs_okD(2) [OF H, of ?k] sent(2) by (simp add: ready_def)
  then have "spec_step c ev A ?B" using W by (rule spec_step.forward [OF r])
  moreover have "shows_spec c s' X' ?B" using sent(3,4) H A by (simp add: shows_spec_def)
  ultimately show ?thesis by blast
next
  case (waits i t X1 L)
  let ?k = "(other d, i)" and ?B = "A\<lparr>waiting := held s' X', log := log A @ L\<rparr>"
  have H: "macs_ok t (announced A)" using macs_ok_ask [OF waits(1)] A by (simp add: shows_spec_def)
  have W: "held t X1 \<subseteq># waiting A" using held_search [OF waits(1)] A by (simp add: shows_spec_def)
  have k: "live t ?k" "i_addr (ent t ?k) = a" using waits(1) by (simp_all add: search_post_def)
  have "held t X' \<subseteq># add_mset (other d, a, f) (held t X1)"
    using held_append [OF live_slot [OF k(1)], of X1 "[f]"] k(2) by (simp add: waits(3) queued_def)
  also have "\<dots> \<subseteq># add_mset (other d, a, f) (waiting A)" using W by simp
  finally have "held s' X' \<subseteq># add_mset (other d, a, f) (waiting A)"
    using held_q_step [OF waits(4)] by simp
  then have "spec_step c ev A ?B" using waits(6) by (rule spec_step.hold [OF r])
  moreover have "shows_spec c s' X' ?B"
    using macs_ok_step [OF q_step_qs_step [OF waits(4)]] H A waits(5) by (simp add: shows_spec_def)
  ultimately show ?thesis by blast
qed

lemma refines_packet:
  assumes P: "packet_post e d (f @ rest) (length f) s X R r data' s' X' R'"
    and A: "shows_spec c s X A" and cfg: "same_config c s"
    and c: "ether_type (eh_of f) = htons ETHERTYPE_IP \<and> 34 \<le> length f \<longrightarrow> complete f"
    and r: "received c ev = Some (d, f, classify s d f (length f))"
  shows "\<exists>B. spec_step c ev A B \<and> shows_spec c s' X' B"
proof -
  have cl: "classify s d (f @ rest) (length f) = classify s d f (length f)"
    using c by (rule classify_buffer)
  show ?thesis
  proof (cases "classify s d f (length f)")
    case (Learn a m)
    with P cl obtain i where "search_post e d a (Some m) s X R i s' X' R'" by (auto simp: packet_post_def)
    from refines_learn [OF this A] r Learn show ?thesis by simp
  next
    case (Forward a)
    then have "complete f" using classify_Forward [of s d f "[]" a] c by simp
    moreover have "forward_post e (other d) a (f @ rest) (length f) s X R r data' s' X' R'"
      using P cl Forward by (simp add: packet_post_def)
    ultimately show ?thesis using refines_forward [OF _ A cfg] r Forward by metis
  next
    case Expire
    let ?B = "A\<lparr>log := log A @ [Reply d (f @ rest)]\<rparr>"
    have "received c ev = Some (d, f, Expire)" using r Expire by simp
    then have "spec_step c ev A ?B" by (rule spec_step.reply) simp
    moreover have "shows_spec c s' X' ?B"
      using P cl Expire A render_reply [OF cfg] by (simp add: packet_post_def shows_spec_def)
    ultimately show ?thesis by blast
  qed (use P cl A r in \<open>auto simp: packet_post_def intro: spec_step.pass\<close>)
qed

text \<open>A wake-up sends the frames of the entries it serves.\<close>

definition drain_list ::
  "router \<Rightarrow> (nat \<times> nat \<Rightarrow> bytes list) \<Rightarrow> (nat \<times> nat) list \<Rightarrow> (nat \<times> in_addr_t \<times> mac \<times> bytes) list" where
  "drain_list s X R =
     concat (map (\<lambda>k. map (\<lambda>f. (fst k, i_addr (ent s k), i_hwaddr (ent s k), f)) (X k)) R)"

lemma drain_list_frames:
  "map (\<lambda>(d, a, m, f). (d, a, f)) (drain_list s X R) =
     concat (map (\<lambda>k. map (\<lambda>f. (fst k, i_addr (ent s k), f)) (X k)) R)"
  by (simp add: drain_list_def map_concat comp_def)

lemma drained_render:
  "same_config c s \<Longrightarrow>
   drained s X R = map (render c) (map (\<lambda>(d, a, m, f). Send d a m False f) (drain_list s X R))"
  by (simp add: drained_def resend_def drain_list_def map_concat comp_def same_config_def)

lemma refines_wake:
  assumes I: "inv s X R" and A: "shows_spec c s X A" and cfg: "same_config c s"
    and t: "inv t (\<lambda>k. if k \<in> set (served lock_sd R) then [] else X k) []" "qs_step s t"
      "out t = out s @ drained s X (served lock_sd R)"
  shows "\<exists>B. spec_step c (Wake lock lock_sd) A B \<and>
    shows_spec c t (\<lambda>k. if k \<in> set (served lock_sd R) then [] else X k) B"
proof -
  let ?S = "served lock_sd R" and ?Y = "\<lambda>k. if k \<in> set (served lock_sd R) then [] else X k"
  let ?xs = "drain_list s X ?S"
  let ?B = "A\<lparr>waiting := held t ?Y, log := log A @ map (\<lambda>(d, a, m, f). Send d a m False f) ?xs\<rparr>"
  have S: "distinct ?S" "set ?S \<subseteq> slots s"
    using I by (auto simp: inv_def reqs_ok_def served_def)
  have "held t ?Y = held s ?Y"
    using qs_step_fields [OF t(2)] by (intro held_cong) simp_all
  then have "waiting A = mset (map (\<lambda>(d, a, m, f). (d, a, f)) ?xs) + held t ?Y"
    using held_drain [OF S, of X] A unfolding drain_list_frames by (simp add: shows_spec_def)
  moreover have "\<forall>(d, a, m, f) \<in> set ?xs. known_mac A d a m"
  proof
    fix x assume "x \<in> set ?xs"
    then obtain k f where k: "k \<in> set ?S" "x = (fst k, i_addr (ent s k), i_hwaddr (ent s k), f)"
      by (auto simp: drain_list_def)
    have H: "macs_ok s (announced A)" using A by (simp add: shows_spec_def)
    from macs_okD(1) [OF H, of k] k S(2) show "case x of (d, a, m, f) \<Rightarrow> known_mac A d a m"
      by (auto simp: known_mac_def)
  qed
  ultimately have "spec_step c (Wake lock lock_sd) A ?B" by (intro spec_step.wake [OF refl]) simp_all
  moreover have "shows_spec c t ?Y ?B"
    using A t(3) drained_render [OF cfg] macs_ok_step [OF t(2)] by (simp add: shows_spec_def)
  ultimately show ?thesis by blast
qed

lemma spec_relI:
  "sys_inv (buf, s) X R \<Longrightarrow> same_config c s \<Longrightarrow> shows_spec c s X A \<Longrightarrow> spec_rel c (buf, s) A"
  by (auto simp: spec_rel_def shows_spec_def)

text \<open>What a step of the system does, by the specifications of its parts\<close>

lemma Recv_posts:
  assumes I: "sys_inv (buf, s) X R" and cfg: "same_config c s"
    and ev: "d < 2" "recv_ok t d" and st: "sys_step (buf, s) (Recv d t) (buf', s')"
  shows "received c (Recv d t) = None \<and> s' = s \<and> buf' = buf \<or>
    (\<exists>f rest r X' R'. received c (Recv d t) = Some (d, f, classify s d f (length f)) \<and>
       (ether_type (eh_of f) = htons ETHERTYPE_IP \<and> 34 \<le> length f \<longrightarrow> complete f) \<and>
       packet_post (t_os t d) d (f @ rest) (length f) s X R r buf' s' X' R' \<and> sys_inv (buf', s') X' R')"
proof -
  obtain n bs where r: "t_read t d = (n, bs)" by fastforce
  note step = Recv_step_cases [OF st I ev r]
  show ?thesis
  proof (cases "t_ready t d \<and> 0 < n")
    case False
    with r step show ?thesis by auto
  next
    case True
    let ?buf = "bs @ drop (length bs) buf"
    obtain v X' R' where P: "packet_post (t_os t d) d ?buf (length bs) s X R v buf' s' X' R'"
      using step True by auto
    have b: "length bs \<le> 2048"
      "ether_type (eh_of bs) = htons ETHERTYPE_IP \<and> 34 \<le> length bs \<longrightarrow> complete bs"
      using ev(2) True r by (auto simp: recv_ok_def)
    have "received c (Recv d t) = Some (d, bs, classify s d bs (length bs))"
      using True r classify_config [OF cfg] by simp
    moreover have "length ?buf = 2048" "\<forall>k. \<forall>f \<in> set (X k). complete f"
      using I b(1) by (simp_all add: sys_inv_def)
    then have "sys_inv (buf', s') X' R'"
      using packet_post_length [OF P] packet_post_keeps [OF P _ b(2)] P
      by (simp add: sys_inv_def packet_post_def)
    ultimately show ?thesis using P b(2) by blast
  qed
qed

lemma Wake_posts:
  assumes I: "sys_inv (buf, s) X R" and b: "buffer_drain lock lock_sd s = Some s'"
  shows "s' = s \<or> (let Y = \<lambda>k. if k \<in> set (served lock_sd R) then [] else X k
    in inv s' Y [] \<and> qs_step s s' \<and> out s' = out s @ drained s X (served lock_sd R) \<and>
      sys_inv (buf, s') Y [])"
proof (cases "lock = 0")
  case True
  have J: "inv s X R" "\<forall>k \<in> set R. \<forall>f \<in> set (X k). complete f"
    using I unfolding sys_inv_def snd_conv by blast+
  then show ?thesis
    using buffer_drain_post [OF J, of lock_sd] b True I by (auto simp: sys_inv_def Let_def)
qed (use b in \<open>simp add: buffer_drain_locked\<close>)

lemma sys_step_posts:
  assumes I: "sys_inv (buf, s) X R" and cfg: "same_config c s" and ev: "event_ok ev"
    and st: "sys_step (buf, s) ev (buf', s')"
  obtains (packet) d t f rest r X' R' where "ev = Recv d t"
    "received c ev = Some (d, f, classify s d f (length f))"
    "ether_type (eh_of f) = htons ETHERTYPE_IP \<and> 34 \<le> length f \<longrightarrow> complete f"
    "packet_post (t_os t d) d (f @ rest) (length f) s X R r buf' s' X' R'" "sys_inv (buf', s') X' R'"
  | (drain) lock lock_sd Y where "ev = Wake lock lock_sd"
    "Y = (\<lambda>k. if k \<in> set (served lock_sd R) then [] else X k)"
    "inv s' Y []" "qs_step s s'" "out s' = out s @ drained s X (served lock_sd R)" "sys_inv (buf', s') Y []"
  | (idle) b where "received c ev = None" "s' = s\<lparr>EndFlag := b\<rparr>" "sys_inv (buf', s') X R"
proof (cases ev)
  case (Recv d t)
  have "d < 2" "recv_ok t d" using ev Recv by simp_all
  from Recv_posts [OF I cfg this st [unfolded Recv]] show ?thesis
  proof
    assume "received c (Recv d t) = None \<and> s' = s \<and> buf' = buf"
    then show ?thesis using I Recv by (intro idle [of "EndFlag s"]) simp_all
  next
    assume "\<exists>f rest r X' R'. received c (Recv d t) = Some (d, f, classify s d f (length f)) \<and>
       (ether_type (eh_of f) = htons ETHERTYPE_IP \<and> 34 \<le> length f \<longrightarrow> complete f) \<and>
       packet_post (t_os t d) d (f @ rest) (length f) s X R r buf' s' X' R' \<and> sys_inv (buf', s') X' R'"
    then show ?thesis by (elim exE conjE) (rule packet [OF Recv], simp_all only: Recv)
  qed
next
  case (Wake lock lock_sd)
  then have "buffer_drain lock lock_sd s = Some s'" "buf' = buf" using st by (simp_all add: sys_step_simps)
  with Wake_posts [OF I] show ?thesis
    using drain [OF Wake refl] idle [of "EndFlag s"] I Wake by (auto simp: Let_def)
next
  case Signal
  then show ?thesis
    using st EndSignal_ok(1) [OF I] idle [of True] by (simp add: sys_step_simps EndSignal_def)
qed

lemma shows_spec_EndFlag [simp]: "shows_spec c (s\<lparr>EndFlag := b\<rparr>) X A = shows_spec c s X A"
  by (simp add: shows_spec_def macs_ok_def held_def)

lemma step_refines:
  assumes rel: "spec_rel c w A" and ev: "event_ok ev" and st: "sys_step w ev w'"
  shows "\<exists>B. spec_step c ev A B \<and> spec_rel c w' B"
proof -
  obtain buf s buf' s' where w: "w = (buf, s)" "w' = (buf', s')" by (cases w; cases w')
  obtain X R where I: "sys_inv (buf, s) X R" and cfg: "same_config c s" and A: "shows_spec c s X A"
    using rel w by (auto simp: spec_rel_def shows_spec_def)
  note st = st [unfolded w]
  have cfg': "same_config c s'"
    using step_config [OF st I ev] cfg by (simp add: same_config_def)
  have "\<exists>B Y Q. spec_step c ev A B \<and> shows_spec c s' Y B \<and> sys_inv (buf', s') Y Q"
    using I cfg ev st
  proof (cases rule: sys_step_posts)
    case (packet d t f rest r X' R')
    from refines_packet [OF packet(4) A cfg packet(3,2)] packet(5) show ?thesis by blast
  next
    case (drain lock lock_sd Y)
    have "inv s X R" using I by (simp add: sys_inv_def)
    from refines_wake [OF this A cfg drain(3) [unfolded drain(2)] drain(4,5)] drain(6)
    show ?thesis unfolding drain(1,2) by blast
  next
    case (idle b)
    with A spec_step.idle [OF idle(1)] show ?thesis by auto
  qed
  then show ?thesis using spec_relI [OF _ cfg'] w by blast
qed

text \<open>A run of the router, from the events that drive it\<close>

abbreviation router_run :: "event list \<Rightarrow> world \<Rightarrow> world \<Rightarrow> bool" where
  "router_run \<equiv> run_of (\<lambda>ev w. sys_step w ev)"

interpretation router: simulation "\<lambda>ev w. sys_step w ev" "spec_step c" "spec_rel c" event_ok for c
  by unfold_locales (rule step_refines)

lemma spec_rel_start:
  assumes "initial s" and "length buf = 2048"
  shows "spec_rel s (buf, s) spec_start"
proof -
  have "slots s = {}" using assms(1) by (auto simp: initial_def slots_def)
  then have "shows_spec s s (\<lambda>_. []) spec_start"
    by (simp add: shows_spec_def spec_start_def held_def macs_ok_def live_def)
  moreover have "sys_inv (buf, s) (\<lambda>_. []) []" using assms initial_inv by (simp add: sys_inv_def)
  moreover have "same_config s s" by (simp add: same_config_def)
  ultimately show ?thesis by (blast intro: spec_relI)
qed

text \<open>The router can take every admissible sequence of events.\<close>

lemma router_run_total:
  "\<forall>ev \<in> set evs. event_ok ev \<Longrightarrow> initial s \<Longrightarrow> length buf = 2048 \<Longrightarrow>
   \<exists>w X R. router_run evs (buf, s) w \<and> sys_inv w X R"
proof (induction evs rule: rev_induct)
  case Nil
  then have "sys_inv (buf, s) (\<lambda>_. []) []" using initial_inv by (simp add: sys_inv_def)
  then show ?case using run_of.nil by metis
next
  case (snoc ev evs)
  then obtain w X R where w: "router_run evs (buf, s) w" "sys_inv w X R" by auto
  with sys_step_ok [OF w(2), of ev] snoc.prems(1) show ?case by (fastforce intro: run_of.snoc)
qed

section \<open>What the router puts on the wire\<close>

text \<open>The frame, the reply and the wake-up of the examples as events\<close>

definition ex_events :: "event list" where
  "ex_events = [Recv 0 (ex_turn ex_frame64), Recv 1 (ex_turn ex_reply), Wake 0 (\<lambda>_. 0)]"

lemma ex_received:
  "received ex_router0 (Recv 0 (ex_turn ex_frame64)) = Some (0, ex_frame64, Forward (addr_of 1 2))"
  "received ex_router0 (Recv 1 (ex_turn ex_reply)) = Some (1, ex_reply, Learn (addr_of 1 2) (mac_of 0x22))"
proof -
  have "classify ex_router0 0 ex_frame64 (length ex_frame64) = Forward (addr_of 1 2)"
    using ex_classify(1) [of ex_router0] classify_buffer [of ex_frame64 ex_router0 0]
    by (simp add: in_buffer_def)
  moreover have "classify ex_router0 1 ex_reply (length ex_reply) = Learn (addr_of 1 2) (mac_of 0x22)"
    using ex_classify_reply [of ex_router0] classify_buffer [of ex_reply ex_router0 1]
    by (simp add: in_buffer_def ex_eh)
  ultimately show
    "received ex_router0 (Recv 0 (ex_turn ex_frame64)) = Some (0, ex_frame64, Forward (addr_of 1 2))"
    "received ex_router0 (Recv 1 (ex_turn ex_reply)) = Some (1, ex_reply, Learn (addr_of 1 2) (mac_of 0x22))"
    by (simp_all add: ex_turn_def)
qed

lemma ex_events_ok: "\<forall>ev \<in> set ex_events. event_ok ev"
  by (simp add: ex_events_def ex_turn_ok)

lemma ex_run: "\<exists>w. router_run ex_events (in_buffer [], ex_router0) w"
  using router_run_total [OF ex_events_ok ex_router0_initial, of "in_buffer []"] by auto

lemma ex_offered: "offered ex_router0 ex_events = {#(1, addr_of 1 2, ex_frame64)#}"
  using ex_received by (simp add: ex_events_def offered_def offer_list_def)

lemma ex_announcements: "announcements ex_router0 ex_events = [((1, addr_of 1 2), mac_of 0x22)]"
  using ex_received by (simp add: ex_events_def announcements_def)



text \<open>All that the router ever writes to its sockets is accounted for: an ARP request was caused by
  a frame to be forwarded on its device, a time exceeded message answers a packet that expired, and
  every other frame is a received frame, rewritten for its next hop. No frame is sent more often
  than it was received, and it goes to a MAC address that was announced for its next hop, or, if it
  had to wait in a queue, to the null address.\<close>

theorem traffic_explained:
  assumes "initial s" and "length buf = 2048" and "\<forall>ev \<in> set evs. event_ok ev"
    and "router_run evs (buf, s) w"
  shows "\<exists>L. out (snd w) = out s @ map (render s) L \<and> sent_frames L \<subseteq># offered s evs \<and>
    (\<forall>it \<in> set L. justified s evs it)"
proof -
  obtain A where A: "run_of (spec_step s) evs spec_start A" "spec_rel s w A"
    using router.runs [OF assms(4,3) spec_rel_start [OF assms(1,2)]] by blast
  have "sent_frames (log A) + waiting A \<subseteq># offered s evs"
    using spec_run_frames [OF A(1)] by (simp add: spec_start_def)
  then have "sent_frames (log A) \<subseteq># offered s evs" by (rule subset_mset.order_trans [rotated]) simp
  moreover have "out (snd w) = out s @ map (render s) (log A)" using A(2) by (auto simp: spec_rel_def)
  ultimately show ?thesis using spec_run_justified [OF A(1) refl] by blast
qed

theorem traffic_explained_witness:
  "\<exists>w L. router_run ex_events (in_buffer [], ex_router0) w \<and> out (snd w) = map (render ex_router0) L \<and>
     sent_frames L \<subseteq># {#(1, addr_of 1 2, ex_frame64)#} \<and>
     (\<forall>m direct f. Send 1 (addr_of 1 2) m direct f \<in> set L \<longrightarrow> m = zero_mac \<or> m = mac_of 0x22)"
proof -
  obtain w where w: "router_run ex_events (in_buffer [], ex_router0) w" using ex_run by blast
  have "length (in_buffer []) = 2048" by simp
  from traffic_explained [OF ex_router0_initial this ex_events_ok w] obtain L where
    L: "out (snd w) = map (render ex_router0) L"
    "sent_frames L \<subseteq># offered ex_router0 ex_events" "\<forall>it \<in> set L. justified ex_router0 ex_events it"
    by auto
  have "m = zero_mac \<or> m = mac_of 0x22" if "Send 1 (addr_of 1 2) m direct f \<in> set L" for m direct f
    using bspec [OF L(3) that] by (auto simp: justified_def ex_announcements split: if_splits)
  with w L(1,2) show ?thesis unfolding ex_offered by blast
qed

end
