(* ===== verification/RouterOrder.thy ===== *)
theory RouterOrder
  imports RouterRefine "HOL-Library.Sublist"
begin

text \<open>
  The frames for one next hop leave the router in the order of their arrival. The specification is
  one queue per next hop: what a step sends and what it leaves in the queue is, in this order, a
  subsequence of the queue before and the frame received. The entries of the tables, which come
  and go, refine these queues as long as the mutex of a queue can be locked.
\<close>

section \<open>The specification\<close>

type_synonym hop_queues = "item list \<times> (nat \<times> in_addr_t \<Rightarrow> bytes list)"

definition fifo_step :: "router \<Rightarrow> event \<Rightarrow> hop_queues \<Rightarrow> hop_queues \<Rightarrow> bool" where
  "fifo_step c ev = (\<lambda>(L, Q) (L', Q'). \<exists>M. L' = L @ M \<and>
     (\<forall>k. subseq (to_hop k (sent_list M) @ Q' k) (Q k @ to_hop k (offer_list c [ev]))))"

lemma fifo_run:
  "run_of (fifo_step c) evs x y \<Longrightarrow> x = ([], \<lambda>_. []) \<Longrightarrow>
   subseq (to_hop k (sent_list (fst y)) @ snd y k) (to_hop k (offer_list c evs))"
proof (induction rule: run_of.induct)
  case (snoc evs x y ev z)
  obtain L Q L' Q' M where y: "y = (L, Q)" "z = (L', Q')" and L': "L' = L @ M"
    and M: "\<forall>k. subseq (to_hop k (sent_list M) @ Q' k) (Q k @ to_hop k (offer_list c [ev]))"
    using snoc(2) by (cases y; cases z) (auto simp: fifo_step_def simp del: split_paired_All)
  have "subseq (to_hop k (sent_list L) @ to_hop k (sent_list M) @ Q' k)
      (to_hop k (sent_list L) @ Q k @ to_hop k (offer_list c [ev]))"
    using M [rule_format, of k] by (simp add: list_emb_append_mono del: split_paired_All)
  also have "subseq \<dots> (to_hop k (offer_list c evs) @ to_hop k (offer_list c [ev]))"
    using list_emb_append_mono [OF snoc.IH [OF snoc.prems] subseq_order.order_refl] y(1) by simp
  finally show ?case using y(2) L' by simp
qed (simp add: offer_list_def)

section \<open>The tables refine it\<close>

text \<open>No mutex of a queue fails when an entry is freed.\<close>

primrec locks_ok :: "event \<Rightarrow> bool" where
  "locks_ok (Recv d t) \<longleftrightarrow> o_lock_sd (t_os t d) = (\<lambda>_. 0)"
| "locks_ok (Wake lock lock_sd) \<longleftrightarrow> True"
| "locks_ok Signal \<longleftrightarrow> True"

definition hop_of :: "router \<Rightarrow> nat \<times> nat \<Rightarrow> nat \<times> in_addr_t" where
  "hop_of s k = (fst k, i_addr (ent s k))"

text \<open>The queue of an entry in use is that of its next hop; a free entry has none.\<close>

definition hop_queues_ok :: "router \<Rightarrow> (nat \<times> nat \<Rightarrow> bytes list) \<Rightarrow> (nat \<times> in_addr_t \<Rightarrow> bytes list) \<Rightarrow> bool" where
  "hop_queues_ok s X Q \<longleftrightarrow> (\<forall>k. if live s k then Q (hop_of s k) = X k else X k = [])"

lemma hop_queues_okD:
  "hop_queues_ok s X Q \<Longrightarrow> live s k \<Longrightarrow> Q (hop_of s k) = X k"
  "hop_queues_ok s X Q \<Longrightarrow> \<not> live s k \<Longrightarrow> X k = []"
  unfolding hop_queues_ok_def by metis+

lemma hop_of_inj: "inv s X R \<Longrightarrow> live s k \<Longrightarrow> live s l \<Longrightarrow> hop_of s k = hop_of s l \<Longrightarrow> k = l"
  unfolding inv_def unique_addr_def hop_of_def prod.inject by blast

text \<open>A search keeps the queues of the next hops, or empties them.\<close>

lemma hop_queues_search:
  assumes S: "search_post e d a hw s X R i t X' R'" and Q: "hop_queues_ok s X Q"
    and l: "o_lock_sd e = (\<lambda>_. 0)"
  shows "hop_queues_ok t X' (Q((d, a) := X' (d, i)))" and "subseq (X' (d, i)) (Q (d, a))"
proof -
  have i: "live t (d, i)" "hop_of t (d, i) = (d, a)" using S by (simp_all add: search_post_def hop_of_def)
  show "hop_queues_ok t X' (Q((d, a) := X' (d, i)))"
    unfolding hop_queues_ok_def
  proof
    fix k
    show "if live t k then (Q((d, a) := X' (d, i))) (hop_of t k) = X' k else X' k = []"
    proof (cases "k = (d, i)")
      case False
      have o: "live t k \<Longrightarrow> live s k \<and> ent t k = ent s k \<and> X' k = X k"
        "live s k \<Longrightarrow> \<not> live t k \<Longrightarrow> X' k = freed_frames e (snd k) (X k)" "X' k = X k \<or> X' k = []"
        using S False unfolding search_post_def others_post_def by blast+
      have "live t k \<Longrightarrow> hop_of t k \<noteq> (d, a)"
        using search_post_other(3) [OF S False] by (simp add: hop_of_def)
      with o hop_queues_okD [OF Q, of k] l show ?thesis
        by (cases "live t k"; cases "live s k") (auto simp: hop_of_def freed_frames_def)
    qed (use i in simp)
  qed
  have "X' (d, i) = [] \<or> live s (d, i) \<and> hop_of s (d, i) = (d, a) \<and> X' (d, i) = X (d, i)"
    using S by (auto simp: search_post_def is_hit_def hop_of_def split: if_splits)
  then show "subseq (X' (d, i)) (Q (d, a))" using hop_queues_okD(1) [OF Q, of "(d, i)"] by auto
qed

text \<open>Steps that change only queues\<close>

lemma hop_queues_qs_step:
  assumes "qs_step s t" shows "hop_queues_ok t X Q = hop_queues_ok s X Q"
  using qs_step_fields [OF assms] by (simp add: hop_queues_ok_def hop_of_def)

lemma hop_queues_update:
  assumes "inv s Y R" and Q: "hop_queues_ok s X Q" and k: "live s k"
  shows "hop_queues_ok s (X(k := fs)) (Q(hop_of s k := fs))"
  unfolding hop_queues_ok_def
proof
  fix l
  show "if live s l then (Q(hop_of s k := fs)) (hop_of s l) = (X(k := fs)) l else (X(k := fs)) l = []"
    using hop_queues_okD [OF Q, of l] hop_of_inj [OF assms(1) k, of l] k by (cases "live s l"; cases "l = k") auto
qed

lemma hop_queues_drain:
  assumes I: "inv s Y R" and Q: "hop_queues_ok s X Q"
  shows "hop_queues_ok s (\<lambda>k. if k \<in> S then [] else X k)
    (\<lambda>h. if \<exists>k \<in> S. live s k \<and> hop_of s k = h then [] else Q h)"
  unfolding hop_queues_ok_def
proof
  fix l
  have "live s l \<Longrightarrow> (\<exists>k \<in> S. live s k \<and> hop_of s k = hop_of s l) \<longleftrightarrow> l \<in> S"
    using hop_of_inj [OF I] by metis
  note hops = this
  show "if live s l then (if \<exists>k \<in> S. live s k \<and> hop_of s k = hop_of s l then [] else Q (hop_of s l)) =
      (if l \<in> S then [] else X l) else (if l \<in> S then [] else X l) = []"
  proof (cases "live s l")
    case True
    show ?thesis unfolding hops [OF True] using hop_queues_okD(1) [OF Q True] True by simp
  qed (use hop_queues_okD(2) [OF Q, of l] in simp)
qed

lemma to_hop_one: "to_hop h (map (\<lambda>f. (fst k, i_addr (ent s k), f)) fs) = (if hop_of s k = h then fs else [])"
  by (induction fs) (auto simp: hop_of_def)

lemma to_hop_drain:
  assumes I: "inv s Y R" and Q: "hop_queues_ok s X Q"
  shows "distinct S \<Longrightarrow>
    to_hop h (concat (map (\<lambda>k. map (\<lambda>f. (fst k, i_addr (ent s k), f)) (X k)) S)) =
      (if \<exists>k \<in> set S. live s k \<and> hop_of s k = h then Q h else [])"
proof (induction S)
  case (Cons k S)
  then have IH: "to_hop h (concat (map (\<lambda>k. map (\<lambda>f. (fst k, i_addr (ent s k), f)) (X k)) S)) =
      (if \<exists>k \<in> set S. live s k \<and> hop_of s k = h then Q h else [])" and k: "k \<notin> set S" by simp_all
  show ?case
  proof (cases "live s k \<and> hop_of s k = h")
    case True
    then have "\<not> (\<exists>l \<in> set S. live s l \<and> hop_of s l = h)" using hop_of_inj [OF I] k by metis
    with True IH hop_queues_okD(1) [OF Q, of k] show ?thesis by (auto simp: to_hop_one)
  next
    case False
    with IH hop_queues_okD(2) [OF Q, of k] show ?thesis by (auto simp: to_hop_one)
  qed
qed simp

lemma hop_queues_out [simp]: "hop_queues_ok (s\<lparr>out := l\<rparr>) X Q = hop_queues_ok s X Q"
  by (simp add: hop_queues_ok_def hop_of_def)

section \<open>Steps\<close>

definition fifo_shows :: "router \<Rightarrow> router \<Rightarrow> (nat \<times> nat \<Rightarrow> bytes list) \<Rightarrow> hop_queues \<Rightarrow> bool" where
  "fifo_shows c s X = (\<lambda>(L, Q). hop_queues_ok s X Q \<and> out s = out c @ map (render c) L)"

definition fifo_rel :: "router \<Rightarrow> world \<Rightarrow> hop_queues \<Rightarrow> bool" where
  "fifo_rel c w x \<longleftrightarrow>
     (\<exists>X R. sys_inv w X R \<and> same_config c (snd w) \<and> fifo_shows c (snd w) X x)"

lemma fifo_stepI:
  "(\<And>k. subseq (to_hop k (sent_list M) @ Q' k) (Q k @ to_hop k (offer_list c [ev]))) \<Longrightarrow>
   fifo_step c ev (L, Q) (L @ M, Q')"
  unfolding fifo_step_def by blast

lemma fifo_stay: "offer_list c [ev] = [] \<Longrightarrow> fifo_step c ev x x"
  using fifo_stepI [of "[]" "snd x" "snd x" c ev "fst x"] by simp

text \<open>Every step of the system, with the frames it puts on the wire\<close>

lemma fifo_forward:
  assumes P: "forward_post e (other d) a (f @ rest) (length f) s X R r data' s' X' R'"
    and A: "fifo_shows c s X (L, Q)" and cfg: "same_config c s" and c: "complete f"
    and r: "received c ev = Some (d, f, Forward a)" and l: "o_lock_sd e = (\<lambda>_. 0)"
  shows "\<exists>x. fifo_step c ev (L, Q) x \<and> fifo_shows c s' X' x"
proof -
  have Q: "hop_queues_ok s X Q" "out s = out c @ map (render c) L" using A by (simp_all add: fifo_shows_def)
  have o: "offer_list c [ev] = [(other d, a, f)]" using r by (simp add: offer_list_def)
  from P cfg c show ?thesis
  proof (cases rule: forward_cases)
    case (sent i t X1)
    let ?M = "[Send (other d) a (i_hwaddr (ent t (other d, i))) True f]"
    let ?Q = "Q((other d, a) := X1 (other d, i))"
    have "fifo_step c ev (L, Q) (L @ ?M, ?Q)"
      using sent(2) by (intro fifo_stepI) (auto simp: o ready_def)
    moreover have "fifo_shows c s' X' (L @ ?M, ?Q)"
      using hop_queues_search(1) [OF sent(1) Q(1) l] sent(3,4) Q(2) by (simp add: fifo_shows_def)
    ultimately show ?thesis by blast
  next
    case (waits i t X1 M)
    let ?k = "(other d, i)"
    let ?Q = "Q((other d, a) := X' ?k)"
    note Q1 = hop_queues_search [OF waits(1) Q(1) l]
    have k: "inv t X1 R'" "live t ?k" "hop_of t ?k = (other d, a)"
      using waits(1) by (simp_all add: search_post_def hop_of_def)
    have "subseq (X' ?k) (X1 ?k @ [f])" by (auto simp: waits(3) queued_def intro: prefix_imp_subseq)
    also have "subseq \<dots> (Q (other d, a) @ [f])" using Q1(2) by (simp add: list_emb_append_mono)
    finally have "fifo_step c ev (L, Q) (L @ M, ?Q)"
      using waits(6) by (intro fifo_stepI) (auto simp: o)
    moreover have "X1(?k := X' ?k) = X'" by (auto simp: waits(3) queued_def)
    then have "hop_queues_ok s' X' ?Q"
      using hop_queues_update [OF k(1) Q1(1) k(2), of "X' ?k"] k(3)
        hop_queues_qs_step [OF q_step_qs_step [OF waits(4)]] by simp
    then have "fifo_shows c s' X' (L @ M, ?Q)" using waits(5) Q(2) by (simp add: fifo_shows_def)
    ultimately show ?thesis by blast
  qed
qed

lemma fifo_packet:
  assumes P: "packet_post e d (f @ rest) (length f) s X R r data' s' X' R'"
    and A: "fifo_shows c s X (L, Q)" and cfg: "same_config c s"
    and c: "ether_type (eh_of f) = htons ETHERTYPE_IP \<and> 34 \<le> length f \<longrightarrow> complete f"
    and r: "received c ev = Some (d, f, classify s d f (length f))" and l: "o_lock_sd e = (\<lambda>_. 0)"
  shows "\<exists>x. fifo_step c ev (L, Q) x \<and> fifo_shows c s' X' x"
proof -
  have cl: "classify s d (f @ rest) (length f) = classify s d f (length f)"
    using c by (rule classify_buffer)
  have Q: "hop_queues_ok s X Q" "out s = out c @ map (render c) L" using A by (simp_all add: fifo_shows_def)
  show ?thesis
  proof (cases "classify s d f (length f)")
    case (Learn a m)
    with P cl obtain i where S: "search_post e d a (Some m) s X R i s' X' R'"
      by (auto simp: packet_post_def)
    let ?Q = "Q((d, a) := X' (d, i))"
    note Q1 = hop_queues_search [OF S Q(1) l]
    have "fifo_step c ev (L, Q) (L @ [], ?Q)"
      using Q1(2) by (intro fifo_stepI) (simp add: r Learn offer_list_def)
    moreover have "fifo_shows c s' X' (L @ [], ?Q)"
      using Q1(1) Q(2) search_post_out [OF S] by (simp add: fifo_shows_def)
    ultimately show ?thesis by blast
  next
    case (Forward a)
    then have "complete f" using classify_Forward [of s d f "[]" a] c by simp
    moreover have "forward_post e (other d) a (f @ rest) (length f) s X R r data' s' X' R'"
      using P cl Forward by (simp add: packet_post_def)
    ultimately show ?thesis using fifo_forward [OF _ A cfg _ _ l] r Forward by metis
  next
    case Expire
    have "fifo_step c ev (L, Q) (L @ [Reply d (f @ rest)], Q)"
      by (intro fifo_stepI) (simp add: r Expire offer_list_def)
    moreover have "fifo_shows c s' X' (L @ [Reply d (f @ rest)], Q)"
      using P cl Expire Q render_reply [OF cfg] by (simp add: packet_post_def fifo_shows_def)
    ultimately show ?thesis by blast
  qed (use P cl A fifo_stay [of c ev "(L, Q)"] r in \<open>auto simp: packet_post_def offer_list_def\<close>)
qed

lemma fifo_wake:
  assumes I: "inv s X R" and A: "fifo_shows c s X (L, Q)" and cfg: "same_config c s"
    and Y: "Y = (\<lambda>k. if k \<in> set (served lock_sd R) then [] else X k)"
    and t: "qs_step s t" "out t = out s @ drained s X (served lock_sd R)"
  shows "\<exists>x. fifo_step c (Wake lock lock_sd) (L, Q) x \<and> fifo_shows c t Y x"
proof -
  let ?S = "served lock_sd R"
  let ?M = "map (\<lambda>(d, a, m, f). Send d a m False f) (drain_list s X ?S)"
  let ?Q = "\<lambda>h. if \<exists>k \<in> set ?S. live s k \<and> hop_of s k = h then [] else Q h"
  have Q: "hop_queues_ok s X Q" "out s = out c @ map (render c) L" using A by (simp_all add: fifo_shows_def)
  have "distinct ?S" using I by (simp add: inv_def reqs_ok_def served_def)
  then have "to_hop h (sent_list ?M) = (if \<exists>k \<in> set ?S. live s k \<and> hop_of s k = h then Q h else [])" for h
    unfolding sent_list_simps drain_list_frames using to_hop_drain [OF I Q(1)] by blast
  then have "subseq (to_hop h (sent_list ?M) @ ?Q h) (Q h @ to_hop h (offer_list c [Wake lock lock_sd]))" for h
    by (cases "\<exists>k \<in> set ?S. live s k \<and> hop_of s k = h") (simp_all only: if_True if_False, simp_all add: offer_list_def)
  then have "fifo_step c (Wake lock lock_sd) (L, Q) (L @ ?M, ?Q)" by (rule fifo_stepI)
  moreover have "hop_queues_ok t Y ?Q"
    unfolding hop_queues_qs_step [OF t(1)] Y using hop_queues_drain [OF I Q(1)] .
  then have "fifo_shows c t Y (L @ ?M, ?Q)"
    using Q(2) t(2) drained_render [OF cfg] by (simp add: fifo_shows_def)
  ultimately show ?thesis by blast
qed

lemma fifo_shows_EndFlag [simp]: "fifo_shows c (s\<lparr>EndFlag := b\<rparr>) X x = fifo_shows c s X x"
  by (simp add: fifo_shows_def hop_queues_ok_def hop_of_def)

lemma step_fifo:
  assumes rel: "fifo_rel c w x" and ev: "event_ok ev \<and> locks_ok ev" and st: "sys_step w ev w'"
  shows "\<exists>y. fifo_step c ev x y \<and> fifo_rel c w' y"
proof -
  obtain buf s buf' s' L Q where w: "w = (buf, s)" "w' = (buf', s')" "x = (L, Q)"
    by (cases w; cases w'; cases x)
  obtain X R where I: "sys_inv (buf, s) X R" and cfg: "same_config c s" and A: "fifo_shows c s X (L, Q)"
    using rel w by (auto simp: fifo_rel_def)
  note st = st [unfolded w]
  have ok: "event_ok ev" using ev by simp
  have cfg': "same_config c s'"
    using step_config [OF st I ok] cfg by (simp add: same_config_def)
  have "\<exists>y Y P. fifo_step c ev (L, Q) y \<and> fifo_shows c s' Y y \<and> sys_inv (buf', s') Y P"
    using I cfg ok st
  proof (cases rule: sys_step_posts)
    case (packet d t f rest r X' R')
    have "o_lock_sd (t_os t d) = (\<lambda>_. 0)" using ev packet(1) by simp
    from fifo_packet [OF packet(4) A cfg packet(3,2) this] packet(5) show ?thesis by blast
  next
    case (drain lock lock_sd Y)
    have "inv s X R" using I by (simp add: sys_inv_def)
    from fifo_wake [OF this A cfg drain(2,4,5)] drain(1,6) show ?thesis by blast
  next
    case (idle b)
    then have "fifo_step c ev (L, Q) (L, Q)" by (intro fifo_stay) (simp add: offer_list_def)
    moreover have "fifo_shows c s' X (L, Q)" using A idle(2) by simp
    ultimately show ?thesis using idle(3) by blast
  qed
  then show ?thesis using cfg' w by (auto simp: fifo_rel_def)
qed

interpretation hop_fifo: simulation "\<lambda>ev w. sys_step w ev" "fifo_step c" "fifo_rel c"
  "\<lambda>ev. event_ok ev \<and> locks_ok ev" for c
  by unfold_locales (rule step_fifo)

lemma fifo_rel_start:
  assumes "initial s" and "length buf = 2048"
  shows "fifo_rel s (buf, s) ([], \<lambda>_. [])"
proof -
  have "slots s = {}" using assms(1) by (auto simp: initial_def slots_def)
  then have "fifo_shows s s (\<lambda>_. []) ([], \<lambda>_. [])"
    by (simp add: fifo_shows_def hop_queues_ok_def live_def)
  moreover have "sys_inv (buf, s) (\<lambda>_. []) []" using assms initial_inv by (simp add: sys_inv_def)
  ultimately show ?thesis by (auto simp: fifo_rel_def same_config_def)
qed

section \<open>The order of the frames\<close>



end
