(* ===== verification/RouterWhole.thy ===== *)
theory RouterWhole
  imports RouterProcess RouterOrder
begin

text \<open>
  The whole program against the specification: every run of the process of \<open>main\<close>, with the
  program counters of its two threads, is a run of the system relation on the events that the
  process takes part in, and so of the abstract router.
\<close>

section \<open>The events of a run of the process\<close>

text \<open>A read and the analysis of the frame, an emptying of the requests, a signal; the other steps move
  program counters only.\<close>

primrec step_events :: "act \<Rightarrow> proc \<Rightarrow> event list" where
  "step_events (Main t) p = (case p_main p of In_recv i u \<Rightarrow> [Recv i u] | _ \<Rightarrow> [])"
| "step_events (Buffer l m) p = (if p_buf p = B_drain then [Wake l m] else [])"
| "step_events Sig p = [Signal]"

primrec run_act :: "act \<Rightarrow> proc \<Rightarrow> proc option" where
  "run_act (Main t) p = main_step t p"
| "run_act (Buffer l m) p = buf_step l m p"
| "run_act Sig p = Some (handle_signal p)"

fun proc_events :: "act list \<Rightarrow> proc \<Rightarrow> event list" where
  "proc_events [] p = []"
| "proc_events (a # as) p =
     step_events a p @ (case run_act a p of None \<Rightarrow> [] | Some q \<Rightarrow> proc_events as q)"

lemma proc_step_act: "proc_step a p q \<Longrightarrow> run_act a p = Some q"
  by (induction rule: proc_step.induct) simp_all

lemma main_step_run:
  assumes I: "proc_inv p" and st: "main_step t p = Some q"
  shows "router_run (step_events (Main t) p) (p_world p) (p_world q)"
    and "\<forall>ev \<in> set (step_events (Main t) p). event_ok ev"
proof -
  show "router_run (step_events (Main t) p) (p_world p) (p_world q)"
  proof (cases "p_main p")
    case (In_recv i u)
    then have "Router_recv u i (p_world p) = Some (p_world q)" "i < 2"
      using st at_recv(1) [OF I In_recv] by (auto simp: main_step_def bind_eq_Some_conv)
    then have "sys_step (p_world p) (Recv i u) (p_world q)"
      using sys_step.recv [of i u "fst (p_world p)" "snd (p_world p)"] by simp
    then show ?thesis using In_recv by (simp add: run_of_single)
  qed (use st in \<open>auto simp: main_defs Let_def run_of.nil split: if_splits\<close>)
  show "\<forall>ev \<in> set (step_events (Main t) p). event_ok ev"
    using I by (auto simp: proc_inv_def less_2_cases_iff split: main_at.splits)
qed

lemma buf_step_run:
  assumes "buf_step l m p = Some q"
  shows "router_run (step_events (Buffer l m) p) (p_world p) (p_world q)"
proof (cases "p_buf p")
  case B_drain
  with assms have "buffer_drain l m (snd (p_world p)) = Some (snd (p_world q))"
    "fst (p_world q) = fst (p_world p)" by (auto simp: buf_step_def bind_eq_Some_conv)
  then have "sys_step (p_world p) (Wake l m) (p_world q)"
    using sys_step.wake [of l m "snd (p_world p)" _ "fst (p_world p)"] by (metis prod.collapse)
  then show ?thesis using B_drain by (simp add: run_of_single)
qed (use assms in \<open>auto simp: buf_step_def run_of.nil\<close>)

lemma proc_step_run:
  assumes "proc_step a p q" and "proc_inv p"
  shows "router_run (step_events a p) (p_world p) (p_world q)"
    and "\<forall>ev \<in> set (step_events a p). event_ok ev"
proof -
  have sig: "router_run [Signal] (p_world p) (p_world (handle_signal p))"
    using sys_step.signal [of "fst (p_world p)" "snd (p_world p)"]
    by (simp add: run_of_single handle_signal_def)
  show "router_run (step_events a p) (p_world p) (p_world q)"
    using assms main_step_run(1) buf_step_run sig
    by (cases a) (auto simp: proc_step_simps elim!: proc_step.cases)
  show "\<forall>ev \<in> set (step_events a p). event_ok ev"
    using assms main_step_run(2) by (cases a) (auto simp: proc_step_simps)
qed

lemma proc_run:
  "proc_steps as p q \<Longrightarrow> proc_inv p \<Longrightarrow>
   router_run (proc_events as p) (p_world p) (p_world q) \<and> (\<forall>ev \<in> set (proc_events as p). event_ok ev)"
proof (induction rule: proc_steps.induct)
  case (more a p q as r)
  have "proc_inv q" using proc_step_inv [OF more(1,2)] more.prems .
  with more.IH proc_step_run [OF more(1) more.prems] proc_step_act [OF more(1)] show ?case
    by (auto intro: run_of_append)
qed (simp add: run_of.nil)

section \<open>What the program puts on the wire\<close>

lemma init_device_out: "init_device e i name s = (ok, t) \<Longrightarrow> out t = out s"
  by (auto simp: init_device_def store_info_def Let_def split: prod.splits if_splits)

lemma setup_out:
  assumes "main_setup e static_state = (True, s)"
  shows "out s = []"
proof -
  let ?s = "static_state\<lparr>NextRouter := le32 192 168 1 254\<rparr>"
  obtain ok t where t: "init_device e 0 (Device1 Param) ?s = (ok, t)" by fastforce
  then have "ok" "init_device e 1 (Device2 Param) t = (True, s)"
    using assms by (auto simp: main_setup_def Param_def next_router_parsed Let_def split: if_splits)
  then show ?thesis using init_device_out [OF t] init_device_out [of e 1] by (simp add: static_state_def)
qed


text \<open>Three steps of the main thread: the test, \<open>poll\<close>, and the analysis of a frame\<close>

lemma ex_three_steps:
  "\<exists>p. proc_steps [Main (ex_turn ex_frame64), Main (ex_turn ex_frame64), Main (ex_turn ex_frame64)]
      (main_start ex_boot 0 (replicate 2048 0)) p \<and>
    proc_events [Main (ex_turn ex_frame64), Main (ex_turn ex_frame64), Main (ex_turn ex_frame64)]
      (main_start ex_boot 0 (replicate 2048 0)) = [Recv 0 (ex_turn ex_frame64)]"
proof -
  let ?t = "ex_turn ex_frame64" and ?p = "main_start ex_boot 0 (replicate 2048 0)"
  have I: "proc_inv ?p" by (rule main_start_ok(1) [OF ex_setup]) simp
  have ok: "act_ok (Main ?t)" by (simp add: ex_turn_ok)
  have m: "p_main ?p = In_test" "\<not> stopping ?p"
    using setup_ok(4) [OF ex_setup] ex_setup by (auto simp: main_start_def stopping_def initial_def Let_def split: prod.splits)
  let ?q = "?p\<lparr>p_main := In_poll\<rparr>" and ?r = "?p\<lparr>p_main := In_recv 0 ?t\<rparr>"
  have 1: "proc_step (Main ?t) ?p ?q" using m by (simp add: proc_step_simps main_defs)
  have 2: "proc_step (Main ?t) ?q ?r" by (simp add: proc_step_simps main_defs ex_turn_def)
  have "proc_inv ?r"
    using proc_step_inv [OF 2 ok proc_step_inv [OF 1 ok I]] .
  then obtain p where p: "main_step ?t ?r = Some p" using main_step_defined [of ?r ?t] by auto
  then have 3: "proc_step (Main ?t) ?r p" by (simp add: proc_step_simps main_can_def)
  from 1 2 3 ok have "proc_steps [Main ?t, Main ?t, Main ?t] ?p p" by (blast intro: proc_steps.intros)
  moreover have "proc_events [Main ?t, Main ?t, Main ?t] ?p = [Recv 0 ?t]"
    using proc_step_act [OF 1] proc_step_act [OF 2] p m(1) by simp
  ultimately show ?thesis by blast
qed


end
