(* ===== verification/RouterDebug.thy ===== *)
theory RouterDebug
  imports RouterBoot
begin

text \<open>
  The debug output of the router: \<open>DebugPrintf\<close> and \<open>DebugPerror\<close> of \<open>main.c\<close>, and the functions
  of \<open>sendBuf.c\<close>, \<open>ip2mac.c\<close> and \<open>main.c\<close> once more, each with the text it writes to \<open>stderr\<close> before its
  result. \<open>str\<close> is \<open>strerror\<close>. The property at the end: without the text they are the functions the
  other theories speak of.
\<close>

section \<open>The two functions\<close>

definition DebugPrintf :: "string \<Rightarrow> string" where
  "DebugPrintf text = (if DebugOut Param \<noteq> 0 then text else [])"

definition DebugPerror :: "(int \<Rightarrow> string) \<Rightarrow> int \<Rightarrow> string \<Rightarrow> string" where
  "DebugPerror str errno msg = (if DebugOut Param \<noteq> 0 then msg @ '' : '' @ str errno @ nl else [])"

text \<open>\<open>errno\<close> after a failed \<open>malloc\<close>\<close>

definition ENOMEM :: int where "ENOMEM = 12"

abbreviation ip_text :: "in_addr_t \<Rightarrow> string" where
  "ip_text a \<equiv> in_addr_t2str a [] 80"

type_synonym 'a said = "(string \<times> 'a) option"

section \<open>The send queues\<close>

definition AppendSendData_said ::
  "(int \<Rightarrow> string) \<Rightarrow> send_env \<Rightarrow> nat \<Rightarrow> in_addr_t \<Rightarrow> DATA_BUF heap \<Rightarrow> SEND_DATA \<Rightarrow> bytes \<Rightarrow> int \<Rightarrow>
   (int \<times> DATA_BUF heap \<times> SEND_DATA) said" where
  "AppendSendData_said str e deviceNo a h sd data size' = do {
     (r, h', sd') \<leftarrow> AppendSendData e h sd data size';
     Some (if inBucketSize sd > MAX_BUCKET_SIZE
             then DebugPrintf (''AppendSendData:Bucket overflow'' @ nl)
           else if \<not> e_malloc_node e \<or> \<not> e_malloc_data e then DebugPerror str ENOMEM ''malloc''
           else if e_lock e \<noteq> 0
             then DebugPrintf (''AppendSendData:pthread_mutex_lock:'' @ str (e_lock e) @ nl)
           else DebugPrintf (''AppendSendData:['' @ dec_str deviceNo @ ''] '' @ ip_text a @ '' '' @
             int_str size' @ ''bytes(Total='' @ dec_str (unat (dno sd')) @ '':'' @
             dec_str (unat (inBucketSize sd')) @ ''bytes)'' @ nl),
           r, h', sd')
   }"

definition GetSendData_said ::
  "(int \<Rightarrow> string) \<Rightarrow> int \<Rightarrow> DATA_BUF heap \<Rightarrow> IP2MAC \<Rightarrow>
   ((int \<times> bytes option) option \<times> DATA_BUF heap \<times> SEND_DATA) said" where
  "GetSendData_said str lock h m = do {
     (r, h', sd') \<leftarrow> GetSendData lock h (i_sd m);
     Some (if q_top (i_sd m) = None then []
           else (case r of
             None \<Rightarrow> DebugPrintf (''pthread_mutex_lock:'' @ str lock @ nl)
           | Some (size', _) \<Rightarrow> DebugPrintf (''GetSendData:['' @ dec_str (i_deviceNo m) @ ''] '' @
               ip_text (i_addr m) @ '' '' @ int_str size' @ ''bytes'' @ nl)),
           r, h', sd')
   }"

text \<open>\<open>FreeSendData\<close> writes a line for each node.\<close>

partial_function (option) free_loop_said ::
  "string \<Rightarrow> nat option \<Rightarrow> DATA_BUF heap \<Rightarrow> DATA_BUF heap said" where
  "free_loop_said line ptr h = (case ptr of
     None \<Rightarrow> Some ([], h)
   | Some p \<Rightarrow> do {
       n \<leftarrow> cells h p;
       block \<leftarrow> d_data n;
       h \<leftarrow> hupd p (\<lambda>n. n\<lparr>d_data := None\<rparr>) h;
       (t, h) \<leftarrow> free_loop_said line (d_next n) h;
       Some (DebugPrintf line @ t, h)
     })"

definition FreeSendData_said ::
  "(int \<Rightarrow> string) \<Rightarrow> int \<Rightarrow> DATA_BUF heap \<Rightarrow> IP2MAC \<Rightarrow> (int \<times> DATA_BUF heap \<times> SEND_DATA) said" where
  "FreeSendData_said str lock h m =
     (let sd = i_sd m
      in if q_top sd = None then Some ([], 0, h, sd)
         else if lock \<noteq> 0 then Some (DebugPrintf (''pthread_mutex_lock:'' @ str lock @ nl), -1, h, sd)
         else do {
           (t, h) \<leftarrow> free_loop_said (''FreeSendData:'' @ ip_text (i_addr m) @ '' '' @
             dec_str (unat (inBucketSize sd)) @ nl) (q_top sd) h;
           Some (t @ DebugPrintf (''FreeSendData['' @ dec_str (i_deviceNo m) @ '']'' @ nl),
             0, h, sd\<lparr>q_top := None, q_bottom := None\<rparr>)
         })"

section \<open>The request queue\<close>

definition AppendSendReqData_said ::
  "(int \<Rightarrow> string) \<Rightarrow> os \<Rightarrow> nat \<Rightarrow> nat \<Rightarrow> router \<Rightarrow> (int \<times> router) said" where
  "AppendSendReqData_said str e deviceNo ip2macNo s = do {
     (r, s') \<leftarrow> AppendSendReqData e deviceNo ip2macNo s;
     Some (if o_lock_req e \<noteq> 0
             then DebugPrintf (''AppendSendReqData:pthread_mutex_lock:'' @ str (o_lock_req e) @ nl)
           else if r = 1 then []
           else if r = -1 then DebugPrintf ''AppendSendReqData:malloc''
           else DebugPrintf (''AppendSendReqData:['' @ dec_str deviceNo @ ''] '' @ dec_str ip2macNo @ nl),
           r, s')
   }"

definition GetSendReqData_said :: "(int \<Rightarrow> string) \<Rightarrow> int \<Rightarrow> router \<Rightarrow> ((nat \<times> nat) option \<times> router) said" where
  "GetSendReqData_said str lock s = do {
     (r, s') \<leftarrow> GetSendReqData lock s;
     Some (if q_top (SendReq s) = None then []
           else (case r of
             None \<Rightarrow> DebugPrintf (''pthread_mutex_lock:'' @ str lock @ nl)
           | Some (deviceNo, ip2macNo) \<Rightarrow>
               DebugPrintf (''GetSendReqData:['' @ dec_str deviceNo @ ''] '' @ dec_str ip2macNo @ nl)),
           r, s')
   }"

section \<open>The table\<close>

definition free_entry_said :: "(int \<Rightarrow> string) \<Rightarrow> os \<Rightarrow> nat \<Rightarrow> nat \<Rightarrow> router \<Rightarrow> router said" where
  "free_entry_said str e d i s = do {
     m \<leftarrow> entry s d i;
     (t, r, h, sd) \<leftarrow> FreeSendData_said str (o_lock_sd e i) (bufs s) m;
     Some (t, put_entry d i (m\<lparr>i_sd := sd, i_flag := FLAG_FREE\<rparr>) (s\<lparr>bufs := h\<rparr>))
   }"

text \<open>One line of the search. The address is always the one that is looked up.\<close>

definition ip2mac_line :: "string \<Rightarrow> nat \<Rightarrow> in_addr_t \<Rightarrow> nat \<Rightarrow> string" where
  "ip2mac_line what d a i =
     DebugPrintf (''Ip2Mac '' @ what @ '' ['' @ dec_str d @ ''] '' @ ip_text a @ '' = '' @ dec_str i @ nl)"

fun search_loop_said ::
  "(int \<Rightarrow> string) \<Rightarrow> os \<Rightarrow> nat \<Rightarrow> in_addr_t \<Rightarrow> mac option \<Rightarrow> nat list \<Rightarrow> nat option \<Rightarrow> router \<Rightarrow>
   ((nat + nat option) \<times> router) said"
  where
  "search_loop_said str e d a hw [] freeNo s = Some ([], Inr freeNo, s)"
| "search_loop_said str e d a hw (i # is) freeNo s = do {
     m \<leftarrow> entry s d i;
     (if i_flag m = FLAG_FREE then
        search_loop_said str e d a hw is (if freeNo = None then Some i else freeNo) s
      else if i_addr m = a then do {
        let m = (if i_flag m = FLAG_OK then m\<lparr>i_lastTime := o_now e\<rparr> else m);
        let s = put_entry d i m s;
        (case hw of
           Some mac \<Rightarrow> do {
             let m = m\<lparr>i_hwaddr := mac, i_flag := FLAG_OK\<rparr>;
             let s = put_entry d i m s;
             (t, s) \<leftarrow> (if q_top (i_sd m) \<noteq> None
                        then map_option (\<lambda>(t, _, s). (t, s)) (AppendSendReqData_said str e d i s)
                        else Some ([], s));
             Some (t @ ip2mac_line ''EXIST'' d a i, Inl i, s)
           }
         | None \<Rightarrow>
             (if expired (o_now e) m then do {
                (t, s) \<leftarrow> free_entry_said str e d i s;
                (u, x) \<leftarrow> search_loop_said str e d a hw is (if freeNo = None then Some i else freeNo) s;
                Some (t @ ip2mac_line ''FREE'' d a i @ u, x)
              } else Some (ip2mac_line ''EXIST'' d a i, Inl i, s)))
      }
      else if expired (o_now e) m then do {
        (t, s) \<leftarrow> free_entry_said str e d i s;
        (u, x) \<leftarrow> search_loop_said str e d a hw is (if freeNo = None then Some i else freeNo) s;
        Some (t @ ip2mac_line ''FREE'' d a i @ u, x)
      }
      else search_loop_said str e d a hw is freeNo s)
   }"

definition added_text :: "nat \<Rightarrow> in_addr_t \<Rightarrow> nat \<Rightarrow> IP2MAC \<Rightarrow> string" where
  "added_text d a no m = ip2mac_line ''ADD'' d a no @
     DebugPrintf (''<INFO> dst MAC: '' @ my_ether_ntoa_r (i_hwaddr m) 80 @ nl)"

definition Ip2MacSearch_said ::
  "(int \<Rightarrow> string) \<Rightarrow> os \<Rightarrow> nat \<Rightarrow> in_addr_t \<Rightarrow> mac option \<Rightarrow> router \<Rightarrow> (nat \<times> router) said" where
  "Ip2MacSearch_said str e d a hw s = do {
     let t0 = DebugPrintf (''----Ip2MacSearch----'' @ nl);
     (t, r, s) \<leftarrow> search_loop_said str e d a hw [0..<t_no (Ip2Macs s d)] None s;
     (case r of
        Inl i \<Rightarrow> Some (t0 @ t, i, s)
      | Inr (Some no) \<Rightarrow>
          Some (t0 @ t @ added_text d a no (init_entry e d a hw), no,
            put_entry d no (init_entry e d a hw) s)
      | Inr None \<Rightarrow> do {
          g \<leftarrow> grow e (Ip2Macs s d);
          let no = t_no g;
          let g = g\<lparr>t_no := no + 1, t_data := t_data g @ [init_entry e d a hw]\<rparr>;
          Some (t0 @ t @ added_text d a no (init_entry e d a hw), no, s\<lparr>Ip2Macs := (Ip2Macs s)(d := g)\<rparr>)
        })
   }"

definition Ip2Mac_said ::
  "(int \<Rightarrow> string) \<Rightarrow> os \<Rightarrow> nat \<Rightarrow> in_addr_t \<Rightarrow> mac option \<Rightarrow> router \<Rightarrow> (nat \<times> router) said" where
  "Ip2Mac_said str e d a hw s = do {
     (t, i, s) \<leftarrow> Ip2MacSearch_said str e d a hw s;
     m \<leftarrow> entry s d i;
     (if i_flag m = FLAG_OK
      then Some (t @ DebugPrintf (''Ip2Mac('' @ in_addr_t2str a [] 1500 @ ''):OK'' @ nl) @
        DebugPrintf (''dst MAC(Ip2Mac): '' @ my_ether_ntoa_r (i_hwaddr m) 1500 @ nl), i, s)
      else Some (t @ DebugPrintf (''Ip2Mac('' @ in_addr_t2str a [] 1500 @ ''):NG'' @ nl) @
        DebugPrintf (''Ip2Mac('' @ in_addr_t2str a [] 1500 @ ''):Send Arp Request'' @ nl), i,
        s\<lparr>out := SendArpRequestB (soc (Device s d)) a bcast (addr (Device s d)) (hwaddr (Device s d)) (out s)\<rparr>))
   }"

section \<open>Analysis of a packet\<close>

definition SendIcmpTimeExceeded_said ::
  "nat \<Rightarrow> ether_header \<Rightarrow> iphdr \<Rightarrow> bytes \<Rightarrow> int \<Rightarrow> router \<Rightarrow> router said" where
  "SendIcmpTimeExceeded_said deviceNo eh iphdr data size' s = do {
     s' \<leftarrow> SendIcmpTimeExceeded deviceNo eh iphdr data size' s;
     Some (DebugPrintf (''write: SendIcmpTimeExceeded: ['' @ dec_str deviceNo @ ''] '' @
       int_str (14 + 20 + 8 + 64) @ ''bytes'' @ nl), s')
   }"

text \<open>\<open>[%d]\<close> and a message\<close>

definition dev_line :: "nat \<Rightarrow> string \<Rightarrow> string" where
  "dev_line deviceNo text = DebugPrintf (''['' @ dec_str deviceNo @ '']'' @ text)"

definition AnalyzePacket_arp_said ::
  "(int \<Rightarrow> string) \<Rightarrow> os \<Rightarrow> nat \<Rightarrow> bytes \<Rightarrow> int \<Rightarrow> int \<Rightarrow> router \<Rightarrow> (int \<times> bytes \<times> router) said" where
  "AnalyzePacket_arp_said str e deviceNo data size' lest s =
     (if lt_sizeof lest 28 then
        Some (dev_line deviceNo ('':lest('' @ int_str lest @ '') < sizeof(struct ether_arp)'' @ nl), -1, data, s)
      else do {
        bs \<leftarrow> mread data 14 28;
        let arp = dec_ether_arp bs;
        (t, s) \<leftarrow> (if arp_op arp = htons ARPOP_REQUEST
              then map_option (\<lambda>(t, _, s). (dev_line deviceNo (''recv: ARP REQUEST: '' @ int_str size' @ ''bytes'' @ nl) @ t, s))
                (Ip2Mac_said str e deviceNo (in_addr_of (arp_spa arp)) (Some (arp_sha arp)) s)
              else Some ([], s));
        (u, s) \<leftarrow> (if arp_op arp = htons ARPOP_REPLY
              then map_option (\<lambda>(t, _, s). (dev_line deviceNo (''recv: ARP REPLY: '' @ int_str size' @ ''bytes'' @ nl) @ t, s))
                (Ip2Mac_said str e deviceNo (in_addr_of (arp_spa arp)) (Some (arp_sha arp)) s)
              else Some ([], s));
        Some (t @ u, 0, data, s)
      })"

text \<open>\<open>AppendSendData\<close> is called with the constant 1 for the device.\<close>

definition next_hop_said ::
  "(int \<Rightarrow> string) \<Rightarrow> os \<Rightarrow> nat \<Rightarrow> nat \<Rightarrow> in_addr_t \<Rightarrow> bytes \<Rightarrow> int \<Rightarrow> router \<Rightarrow> (router + mac \<times> router) said" where
  "next_hop_said str e deviceNo tno a data size' s = do {
     (t, i, s) \<leftarrow> Ip2Mac_said str e tno a None s;
     m \<leftarrow> entry s tno i;
     (if i_flag m = FLAG_NG \<or> dno (i_sd m) \<noteq> 0 then do {
        (u, r, h, sd) \<leftarrow> AppendSendData_said str (o_send e) 1 a (bufs s) (i_sd m) data size';
        Some (t @ dev_line deviceNo ('':Ip2Mac:error or sending'' @ nl) @ u,
          Inl (put_entry tno i (m\<lparr>i_sd := sd\<rparr>) (s\<lparr>bufs := h\<rparr>)))
      } else Some (t, Inr (i_hwaddr m, s)))
   }"

definition AnalyzePacket_ip_said ::
  "(int \<Rightarrow> string) \<Rightarrow> os \<Rightarrow> nat \<Rightarrow> ether_header \<Rightarrow> bytes \<Rightarrow> int \<Rightarrow> int \<Rightarrow> router \<Rightarrow>
   (int \<times> bytes \<times> router) said" where
  "AnalyzePacket_ip_said str e deviceNo eh data size' lest s =
     (if lt_sizeof lest 20 then
        Some (dev_line deviceNo ('':lest('' @ int_str lest @ '') < sizeof(struct iphdr)'' @ nl), -1, data, s)
      else do {
        bs \<leftarrow> mread data 14 20;
        let iphdr = dec_iphdr bs;
        let optionLen = option_len (ip_ihl iphdr);
        (if optionLen > 0 \<and> optionLen \<ge> 1500 then
           Some (dev_line deviceNo ('':IP option Len('' @ int_str optionLen @ ''); too big'' @ nl), -1, data, s)
         else do {
           option \<leftarrow> (if optionLen > 0 then mread data 34 (nat optionLen) else Some []);
           ok \<leftarrow> checkIPchecksum (enc_iphdr iphdr) option optionLen;
           (if ok = 0 then Some (dev_line deviceNo '':bad ip checksum'', -1, data, s)
            else if uint (ip_ttl iphdr) - 1 = 0 then do {
              (t, s) \<leftarrow> SendIcmpTimeExceeded_said deviceNo eh iphdr data size' s;
              Some (dev_line deviceNo ('': iphdr->ttl == 0 error'' @ nl) @ t, -1, data, s)
            }
            else do {
              let tno = (if deviceNo = 0 then 1 else 0);
              let local = (ip_daddr iphdr AND netmask (Device s tno) = subnet (Device s tno));
              let t0 = DebugPrintf (''<INFO> dst IP: '' @ ip_text (ip_daddr iphdr) @ nl) @
                DebugPrintf (''<INFO> subnet: '' @ ip_text (netmask (Device s tno)) @ nl) @
                dev_line deviceNo ('':'' @ ip_text (ip_daddr iphdr) @
                  (if local then '' to TargetSegment'' else '' to NextRouter'') @ nl);
              (if local \<and> ip_daddr iphdr = addr (Device s tno)
               then Some (t0 @ dev_line deviceNo ('':recv:myaddr'' @ nl), 1, data, s)
               else do {
                 (t, r) \<leftarrow> next_hop_said str e deviceNo tno (if local then ip_daddr iphdr else NextRouter s) data size' s;
                 (case r of
                    Inl s \<Rightarrow> Some (t0 @ t, -1, data, s)
                  | Inr (mac, s) \<Rightarrow> do {
                      (data, s) \<leftarrow> forward tno mac eh iphdr option optionLen data size' s;
                      Some (t0 @ t, 0, data, s)
                    })
               })
            })
         })
      })"

definition AnalyzePacket_said ::
  "(int \<Rightarrow> string) \<Rightarrow> os \<Rightarrow> nat \<Rightarrow> bytes \<Rightarrow> int \<Rightarrow> router \<Rightarrow> (int \<times> bytes \<times> router) said" where
  "AnalyzePacket_said str e deviceNo data size' s =
     (let t0 = DebugPrintf (''--------AnalyzePacket-------'' @ nl)
      in if deviceNo \<ge> 2 then None
      else if lt_sizeof size' 14 then
        Some (t0 @ dev_line deviceNo ('':lest('' @ int_str size' @ '') < sizeof(struct ether_header)'' @ nl),
          -1, data, s)
      else do {
        bs \<leftarrow> mread data 0 14;
        let eh = dec_ether_header bs;
        let lest = size' - 14;
        (if ether_dhost eh \<noteq> hwaddr (Device s deviceNo) then
           Some (t0 @ dev_line deviceNo ('':dhost not match '' @ my_ether_ntoa_r (ether_dhost eh) 80 @ nl),
             -1, data, s)
         else if ntohs (ether_type eh) = ETHERTYPE_ARP
           then map_option (\<lambda>(t, x). (t0 @ t, x)) (AnalyzePacket_arp_said str e deviceNo data size' lest s)
         else if ntohs (ether_type eh) = ETHERTYPE_IP
           then map_option (\<lambda>(t, x). (t0 @ t, x)) (AnalyzePacket_ip_said str e deviceNo eh data size' lest s)
         else Some (t0, 0, data, s))
      })"

section \<open>The buffer thread\<close>

text \<open>A \<open>while (1)\<close> loop: a turn tells whether the loop goes on.\<close>

partial_function (option) loop_said :: "('s \<Rightarrow> (bool \<times> 's) said) \<Rightarrow> 's \<Rightarrow> 's said" where
  "loop_said turn s = do {
     (t, more, s) \<leftarrow> turn s;
     (if more then do { (u, s) \<leftarrow> loop_said turn s; Some (t @ u, s) } else Some (t, s))
   }"

definition send_turn_said :: "(int \<Rightarrow> string) \<Rightarrow> int \<Rightarrow> nat \<Rightarrow> nat \<Rightarrow> router \<Rightarrow> (bool \<times> router) said" where
  "send_turn_said str lock deviceNo i s = do {
     m \<leftarrow> entry s deviceNo i;
     (t, r, h, sd) \<leftarrow> GetSendData_said str lock (bufs s) m;
     let s = put_entry deviceNo i (m\<lparr>i_sd := sd\<rparr>) (s\<lparr>bufs := h\<rparr>);
     (case r of
        None \<Rightarrow> Some (t, False, s)
      | Some (size', block) \<Rightarrow> do {
          data \<leftarrow> block;
          data' \<leftarrow> rewrite_buffered (i_hwaddr m) data;
          ip \<leftarrow> mread data 14 20;
          let ttl = uint (ip_ttl (dec_iphdr ip));
          bs \<leftarrow> mread data' 0 (nat size');
          Some (t @ DebugPrintf (''iphdr.ttl '' @ int_str ttl @ ''->'' @ int_str (ttl - 1) @ nl) @
            DebugPrintf (''write:BufferSendOne:['' @ dec_str deviceNo @ ''] '' @ int_str size' @ ''bytes'' @ nl),
            True, s\<lparr>out := sock_write (soc (Device s deviceNo)) bs (out s)\<rparr>)
        })
   }"

definition BufferSendOne_said :: "(int \<Rightarrow> string) \<Rightarrow> int \<Rightarrow> nat \<Rightarrow> nat \<Rightarrow> router \<Rightarrow> router said" where
  "BufferSendOne_said str lock deviceNo i = loop_said (send_turn_said str lock deviceNo i)"

definition drain_turn_said :: "(int \<Rightarrow> string) \<Rightarrow> int \<Rightarrow> (nat \<Rightarrow> int) \<Rightarrow> router \<Rightarrow> (bool \<times> router) said" where
  "drain_turn_said str lock lock_sd s = do {
     (t, r, s) \<leftarrow> GetSendReqData_said str lock s;
     (case r of
        None \<Rightarrow> Some (t, False, s)
      | Some (deviceNo, ip2macNo) \<Rightarrow> do {
          (u, s) \<leftarrow> BufferSendOne_said str (lock_sd ip2macNo) deviceNo ip2macNo s;
          Some (t @ u, True, s)
        })
   }"

definition buffer_drain_said :: "(int \<Rightarrow> string) \<Rightarrow> int \<Rightarrow> (nat \<Rightarrow> int) \<Rightarrow> router \<Rightarrow> router said" where
  "buffer_drain_said str lock lock_sd = loop_said (drain_turn_said str lock lock_sd)"

text \<open>
  \<open>BufferSend\<close>, with the result of \<open>pthread_cond_timedwait\<close> in each turn; the list bounds the
  turns observed, and the last line is written when the loop ends.
\<close>

fun BufferSend_said ::
  "(int \<Rightarrow> string) \<Rightarrow> (int \<times> int \<times> (nat \<Rightarrow> int)) list \<Rightarrow> router \<Rightarrow> router said" where
  "BufferSend_said str [] s = Some ([], s)"
| "BufferSend_said str ((waited, lock, lock_sd) # ts) s =
     (if EndFlag s then Some (DebugPrintf (''BufferSend:end'' @ nl), s)
      else do {
        (t, s) \<leftarrow> buffer_drain_said str lock lock_sd s;
        (u, s) \<leftarrow> BufferSend_said str ts s;
        Some ((if waited \<noteq> 0 then DebugPrintf (''pthread_cond_timedwait:'' @ str waited @ nl) else []) @ t @ u, s)
      })"

section \<open>The receive loop\<close>

text \<open>With the \<open>errno\<close> of \<open>poll\<close> and of \<open>read\<close> from each device; \<open>EINTR\<close> is not reported.\<close>

definition EINTR :: int where "EINTR = 4"

definition Router_recv_said ::
  "(int \<Rightarrow> string) \<Rightarrow> int \<Rightarrow> turn \<Rightarrow> nat \<Rightarrow> bytes \<times> router \<Rightarrow> (bytes \<times> router) said" where
  "Router_recv_said str errno t i = (\<lambda>(buf, s).
     if t_ready t i then do {
       let (size', bs) = t_read t i;
       (if size' \<le> 0 then Some (DebugPerror str errno ''read'', buf, s)
        else do {
          buf \<leftarrow> mwrite buf 0 bs;
          (u, r, buf, s) \<leftarrow> AnalyzePacket_said str (t_os t i) i buf size' s;
          Some (u, buf, s)
        })
     } else Some ([], buf, s))"

definition Router_turn_said ::
  "(int \<Rightarrow> string) \<Rightarrow> int \<times> (nat \<Rightarrow> int) \<Rightarrow> turn \<Rightarrow> bytes \<times> router \<Rightarrow> (bytes \<times> router) said" where
  "Router_turn_said str errno t x =
     (if t_poll t = -1 then Some (if fst errno \<noteq> EINTR then DebugPerror str (fst errno) ''poll'' else [], x)
      else if t_poll t = 0 then Some ([], x)
      else do {
        (u, x) \<leftarrow> Router_recv_said str (snd errno 0) t 0 x;
        (v, x) \<leftarrow> Router_recv_said str (snd errno 1) t 1 x;
        Some (u @ v, x)
      })"

fun Router_said ::
  "(int \<Rightarrow> string) \<Rightarrow> ((int \<times> (nat \<Rightarrow> int)) \<times> turn) list \<Rightarrow> bytes \<times> router \<Rightarrow> (bytes \<times> router) said" where
  "Router_said str [] x = Some ([], x)"
| "Router_said str ((errno, t) # ts) x =
     (if EndFlag (snd x) then Some ([], x)
      else do {
        (u, buf, s) \<leftarrow> Router_turn_said str errno t x;
        (v, y) \<leftarrow> Router_said str ts (buf, if t_signal t then EndSignal s else s);
        Some (u @ v, y)
      })"

section \<open>Start-up\<close>

text \<open>
  The messages of the calls that set up a device. \<open>errno\<close> is the error of the call that failed;
  \<open>perror\<close> writes whatever \<open>DebugOut\<close> is.
\<close>

definition GetDeviceInfo_text :: "(int \<Rightarrow> string) \<Rightarrow> int \<Rightarrow> dev_env \<Rightarrow> string \<Rightarrow> string" where
  "GetDeviceInfo_text str errno e device =
     (if g_socket e < 0 then DebugPerror str errno ''socket''
      else if g_hwaddr e = None then DebugPerror str errno ''ioctl''
      else (case g_addr e of
              None \<Rightarrow> DebugPerror str errno ''ioctl''
            | Some (family', _) \<Rightarrow>
                if family' \<noteq> PF_INET then DebugPrintf (device @ '' not PF_INET'' @ nl)
                else if g_netmask e = None then DebugPerror str errno ''ioctl'' else []))"

definition InitRawSocket_text :: "(int \<Rightarrow> string) \<Rightarrow> int \<Rightarrow> raw_env \<Rightarrow> bool \<Rightarrow> string" where
  "InitRawSocket_text str errno e promiscFlag =
     (let perror = \<lambda>msg. msg @ '': '' @ str errno @ nl
      in if r_socket e < 0 then perror ''socket''
         else if r_ifindex e = None then perror ''ioctl''
         else if r_bind e < 0 then perror ''bind''
         else if promiscFlag \<and> (r_getflags e = None \<or> r_setflags e < 0) then perror ''ioctl'' else [])"

definition init_device_said ::
  "(int \<Rightarrow> string) \<Rightarrow> int \<Rightarrow> boot_env \<Rightarrow> nat \<Rightarrow> string \<Rightarrow> router \<Rightarrow> string \<times> bool \<times> router" where
  "init_device_said str errno e i name s =
     (let t = GetDeviceInfo_text str errno (b_dev e i) name;
          (r, info, _) = GetDeviceInfo (b_dev e i) name; s = store_info i info s
      in if r = -1 then (t @ DebugPrintf (''GetDeviceInfo:error:'' @ name @ nl), False, s)
         else let t = t @ InitRawSocket_text str errno (b_raw e i) False;
                  (fd, _) = InitRawSocket (b_raw e i) name False False;
                  s = s\<lparr>Device := (Device s)(i := (Device s i)\<lparr>soc := fd\<rparr>)\<rparr>
              in if fd = -1 then (t @ DebugPrintf (''InitRawSocket:error:'' @ name @ nl), False, s)
                 else (t @ DebugPrintf (name @ '' OK'' @ nl) @
                   DebugPrintf (''addr='' @ my_inet_ntoa_r (addr (Device s i)) [] 80 @ nl) @
                   DebugPrintf (''subnet='' @ my_inet_ntoa_r (subnet (Device s i)) [] 80 @ nl) @
                   DebugPrintf (''netmask='' @ my_inet_ntoa_r (netmask (Device s i)) [] 80 @ nl), True, s))"

definition main_setup_said ::
  "(int \<Rightarrow> string) \<Rightarrow> int \<Rightarrow> boot_env \<Rightarrow> router \<Rightarrow> string \<times> bool \<times> router" where
  "main_setup_said str errno e s =
     (let s = (case inet_aton (p_NextRouter Param) of None \<Rightarrow> s | Some a \<Rightarrow> s\<lparr>NextRouter := a\<rparr>);
          t = DebugPrintf (''NextRouter='' @ my_inet_ntoa_r (NextRouter s) [] 80 @ nl);
          (u, ok, s) = init_device_said str errno e 0 (Device1 Param) s
      in if \<not> ok then (t @ u, False, s)
         else let (v, ok, s) = init_device_said str errno e 1 (Device2 Param) s in (t @ u @ v, ok, s))"

section \<open>Without the text\<close>

lemma erase_bind:
  "map_option snd m = m' \<Longrightarrow> (\<And>t x. map_option snd (F t x) = G x) \<Longrightarrow>
   map_option snd (Option.bind m (\<lambda>(t, x). F t x)) = Option.bind m' G"
  by (cases m) auto

lemma erase_same:
  "(\<And>x. map_option snd (F x) = G x) \<Longrightarrow> map_option snd (Option.bind m F) = Option.bind m G"
  by (cases m) auto

lemma erase_tail: "map_option snd m = m' \<Longrightarrow> map_option snd (Option.bind m (\<lambda>(u, x). Some (g u, x))) = m'"
  by (cases m) auto

lemma said_leaf [simp]:
  "map_option snd (AppendSendData_said str e deviceNo a h sd data size') = AppendSendData e h sd data size'"
  "map_option snd (GetSendData_said str lock h m) = GetSendData lock h (i_sd m)"
  "map_option snd (AppendSendReqData_said str f deviceNo ip2macNo s) = AppendSendReqData f deviceNo ip2macNo s"
  "map_option snd (GetSendReqData_said str lock s) = GetSendReqData lock s"
  "map_option snd (SendIcmpTimeExceeded_said deviceNo eh iphdr data size' s) =
     SendIcmpTimeExceeded deviceNo eh iphdr data size' s"
  by (simp_all add: AppendSendData_said_def GetSendData_said_def AppendSendReqData_said_def
      GetSendReqData_said_def SendIcmpTimeExceeded_said_def map_option_bind case_prod_beta comp_def)

text \<open>The pointer loops, by induction on both\<close>

lemma erase_eqI:
  "(\<And>y. m = Some y \<Longrightarrow> m' = Some (snd y)) \<Longrightarrow> (\<And>x. m' = Some x \<Longrightarrow> \<exists>t. m = Some (t, x)) \<Longrightarrow>
   map_option snd m = m'"
  by (cases m; cases m') auto

lemma free_loop_said_sound: "free_loop_said line ptr h = Some y \<Longrightarrow> free_loop ptr h = Some (snd y)"
proof (induction rule: free_loop_said.raw_induct [rotated, consumes 1])
  case (1 f line ptr h y)
  note IH = 1(1) and eq = 1(2)
  show ?case
  proof (cases ptr)
    case None
    with eq show ?thesis by (auto simp: free_loop.simps)
  next
    case (Some p)
    with eq obtain n block g z where "cells h p = Some n" "d_data n = Some block"
      "hupd p (d_data_update (\<lambda>_. None)) h = Some g" "f line (d_next n) g = Some z" "snd y = snd z"
      by (auto simp: bind_eq_Some_conv)
    with IH [of line "d_next n" g z] Some show ?thesis by (subst free_loop.simps) simp
  qed
qed

lemma free_loop_said_complete: "free_loop ptr h = Some h' \<Longrightarrow> \<exists>t. free_loop_said line ptr h = Some (t, h')"
proof (induction rule: free_loop.raw_induct [rotated, consumes 1])
  case (1 f ptr h h')
  note IH = 1(1) and eq = 1(2)
  show ?case
  proof (cases ptr)
    case None
    with eq show ?thesis by (auto simp: free_loop_said.simps)
  next
    case (Some p)
    with eq obtain n block g where *: "cells h p = Some n" "d_data n = Some block"
      "hupd p (d_data_update (\<lambda>_. None)) h = Some g" "f (d_next n) g = Some h'"
      by (auto simp: bind_eq_Some_conv)
    from IH [OF *(4)] obtain t where "free_loop_said line (d_next n) g = Some (t, h')" by blast
    with * Some show ?thesis by (subst free_loop_said.simps) simp
  qed
qed

lemma free_loop_said [simp]: "map_option snd (free_loop_said line ptr h) = free_loop ptr h"
  using free_loop_said_sound free_loop_said_complete by (rule erase_eqI)

lemma FreeSendData_said [simp]: "map_option snd (FreeSendData_said str lock h m) = FreeSendData lock h (i_sd m)"
  by (auto simp: FreeSendData_said_def FreeSendData_def Let_def intro!: erase_bind)

lemma free_entry_said [simp]: "map_option snd (free_entry_said str e d i s) = free_entry e d i s"
  unfolding free_entry_said_def free_entry_def by (intro erase_same erase_bind) auto

lemma search_loop_said [simp]:
  "map_option snd (search_loop_said str e d a hw is freeNo s) = search_loop e d a hw is freeNo s"
proof (induction "is" arbitrary: freeNo s)
  case (Cons i "is")
  have free: "map_option snd (Option.bind (free_entry_said str e d i s) (\<lambda>(t, s).
        Option.bind (search_loop_said str e d a hw is f s) (\<lambda>(u, x). Some (t @ l @ u, x)))) =
      Option.bind (free_entry e d i s) (search_loop e d a hw is f)" for f s l
    by (rule erase_bind [OF free_entry_said], subst erase_bind [OF Cons.IH, where G = Some]) simp_all
  have req: "map_option snd (Option.bind (if b then map_option (\<lambda>(t, _, s). (t, s)) (AppendSendReqData_said str e d i s)
        else Some ([], s)) (\<lambda>(t, s). Some (t @ l, Inl i, s))) =
      Option.bind (if b then map_option snd (AppendSendReqData e d i s) else Some s) (\<lambda>s. Some (Inl i, s))"
    for b s l
    by (rule erase_bind)
      (simp_all add: said_leaf(3) [of str, symmetric] option.map_comp comp_def case_prod_beta del: said_leaf)
  show ?case
    unfolding search_loop_said.simps search_loop.simps
    by (rule erase_same)
      (simp only: Let_def Cons.IH free req option.case_distrib [of "map_option snd"]
        if_distrib [of "map_option snd"] option.map snd_conv)
qed simp

lemma Ip2MacSearch_said [simp]: "map_option snd (Ip2MacSearch_said str e d a hw s) = Ip2MacSearch e d a hw s"
  unfolding Ip2MacSearch_said_def Ip2MacSearch_def Let_def
  by (rule erase_bind) (auto split: sum.splits option.splits simp: map_option_bind comp_def)

lemma Ip2Mac_said [simp]: "map_option snd (Ip2Mac_said str e d a hw s) = Ip2Mac e d a hw s"
  unfolding Ip2Mac_said_def Ip2Mac_def
  by (rule erase_bind, simp) (auto intro: erase_same)

lemma next_hop_said [simp]:
  "map_option snd (next_hop_said str e deviceNo tno a data size' s) = next_hop e tno a data size' s"
  unfolding next_hop_said_def next_hop_def
  by (rule erase_bind, simp) (auto intro!: erase_same erase_bind)

lemma AnalyzePacket_arp_said [simp]:
  "map_option snd (AnalyzePacket_arp_said str e deviceNo data size' lest s) = AnalyzePacket_arp e deviceNo data lest s"
proof -
  have learn: "map_option snd (if b then map_option (\<lambda>(t, _, s). (l @ t, s)) (Ip2Mac_said str e d a hw s) else Some ([], s)) =
      (if b then map_option snd (Ip2Mac e d a hw s) else Some s)" for b l d a hw s
    by (simp add: Ip2Mac_said [of str, symmetric] option.map_comp comp_def case_prod_beta del: Ip2Mac_said)
  show ?thesis
    unfolding AnalyzePacket_arp_said_def AnalyzePacket_arp_def Let_def
    by (auto intro!: erase_same erase_bind [OF learn])
qed

lemma AnalyzePacket_ip_said [simp]:
  "map_option snd (AnalyzePacket_ip_said str e deviceNo eh data size' lest s) =
     AnalyzePacket_ip e deviceNo eh data size' lest s"
proof -
  have expire: "map_option snd (Option.bind (SendIcmpTimeExceeded_said deviceNo eh ip data size' s) (\<lambda>(t, s). Some (l @ t, - 1, data, s))) =
      Option.bind (SendIcmpTimeExceeded deviceNo eh ip data size' s) (\<lambda>s. Some (-1, data, s))" for ip s l
    by (rule erase_bind) simp_all
  have fwd: "map_option snd (Option.bind (next_hop_said str e deviceNo tno a data size' s) (\<lambda>(t, r). case r of
        Inl s \<Rightarrow> Some (t0 @ t, - 1, data, s)
      | Inr (mac, s) \<Rightarrow> Option.bind (forward tno mac eh ip option optionLen data size' s) (\<lambda>(data, s). Some (t0 @ t, 0, data, s)))) =
      Option.bind (next_hop e tno a data size' s) (\<lambda>r. case r of
        Inl s \<Rightarrow> Some (- 1, data, s)
      | Inr (mac, s) \<Rightarrow> Option.bind (forward tno mac eh ip option optionLen data size' s) (\<lambda>(data, s). Some (0, data, s)))"
    for tno a s t0 ip option optionLen
    by (rule erase_bind) (auto split: sum.split intro!: erase_same)
  show ?thesis
    unfolding AnalyzePacket_ip_said_def AnalyzePacket_ip_def Let_def
    by (rule refl erase_same if_cong
        | simp only: expire fwd if_distrib [of "map_option snd"] option.map snd_conv)+
qed

lemma AnalyzePacket_said:
  "map_option snd (AnalyzePacket_said str e deviceNo data size' s) = AnalyzePacket e deviceNo data size' s"
  unfolding AnalyzePacket_said_def AnalyzePacket_def Let_def
  by (auto intro!: erase_same simp: option.map_comp comp_def case_prod_beta)

text \<open>The loops of the buffer thread\<close>

lemma loop_said_sound:
  assumes F: "\<And>s. F s = Option.bind (map_option snd (turn s)) (\<lambda>(more, s). if more then F s else Some s)"
  shows "loop_said turn s = Some y \<Longrightarrow> F s = Some (snd y)"
proof -
  have "loop_said tn s = Some y \<Longrightarrow> tn = turn \<Longrightarrow> F s = Some (snd y)" for tn
  proof (induction rule: loop_said.raw_induct [rotated, consumes 1])
    case (1 f tn s y)
    note IH = 1(1) and eq = 1(2) and [simp] = 1(3)
    obtain t more u where u: "turn s = Some (t, more, u)"
      using eq by (auto simp: bind_eq_Some_conv)
    show ?case
    proof (cases more)
      case True
      with eq u obtain z where z: "f turn u = Some z" "snd y = snd z" by (auto simp: bind_eq_Some_conv)
      from IH [OF z(1) refl] z(2) u True show ?thesis by (subst F) simp
    next
      case False
      with eq u show ?thesis by (subst F) auto
    qed
  qed
  then show "loop_said turn s = Some y \<Longrightarrow> F s = Some (snd y)" by blast
qed

text \<open>One step of the other direction\<close>

lemma loop_said_step:
  assumes "Option.bind (map_option snd (turn s)) (\<lambda>(more, s). if more then f s else Some s) = Some s'"
    and "\<And>s. f s = Some s' \<Longrightarrow> \<exists>t. loop_said turn s = Some (t, s')"
  shows "\<exists>t. loop_said turn s = Some (t, s')"
proof -
  obtain t more u where u: "turn s = Some (t, more, u)"
    using assms(1) by (cases "turn s") auto
  show ?thesis
  proof (cases more)
    case True
    then have "f u = Some s'" using assms(1) u by simp
    then obtain v where "loop_said turn u = Some (v, s')" using assms(2) by blast
    with u True show ?thesis by (subst loop_said.simps) simp
  next
    case False
    with assms(1) u show ?thesis by (subst loop_said.simps) simp
  qed
qed

lemma rewrite_buffered_header: "rewrite_buffered m data = Some data' \<Longrightarrow> \<exists>ip. mread data 14 20 = Some ip"
  by (auto simp: rewrite_buffered_def bind_eq_Some_conv)

lemma send_turn_plain:
  "map_option snd (send_turn_said str lock deviceNo i s) =
   Option.bind (entry s deviceNo i) (\<lambda>m. Option.bind (GetSendData lock (bufs s) (i_sd m)) (\<lambda>(r, h, sd).
     let s = put_entry deviceNo i (m\<lparr>i_sd := sd\<rparr>) (s\<lparr>bufs := h\<rparr>)
     in case r of None \<Rightarrow> Some (False, s)
      | Some (size', block) \<Rightarrow> do {
          data \<leftarrow> block;
          data \<leftarrow> rewrite_buffered (i_hwaddr m) data;
          bs \<leftarrow> mread data 0 (nat size');
          Some (True, s\<lparr>out := sock_write (soc (Device s deviceNo)) bs (out s)\<rparr>)
        }))"
proof -
  have rw: "map_option snd (Option.bind (rewrite_buffered m data) (\<lambda>data'. Option.bind (mread data 14 20) (F data'))) =
      Option.bind (rewrite_buffered m data) G"
    if "\<And>data' ip. map_option snd (F data' ip) = G data'" for m data and F :: "_ \<Rightarrow> _ \<Rightarrow> (bool \<times> router) said" and G
    using rewrite_buffered_header [of m data] that by (cases "rewrite_buffered m data") auto
  show ?thesis
    unfolding send_turn_said_def
    by (intro erase_same erase_bind said_leaf) (auto simp: Let_def split: option.split intro!: erase_same rw)
qed

lemma send_turn_erase:
  "Option.bind (entry s deviceNo i) (\<lambda>m. Option.bind (GetSendData lock (bufs s) (i_sd m)) (\<lambda>(r, h, sd).
     let s = put_entry deviceNo i (m\<lparr>i_sd := sd\<rparr>) (s\<lparr>bufs := h\<rparr>)
     in case r of None \<Rightarrow> Some s
      | Some (size', block) \<Rightarrow> do {
          data \<leftarrow> block;
          data \<leftarrow> rewrite_buffered (i_hwaddr m) data;
          bs \<leftarrow> mread data 0 (nat size');
          f (s\<lparr>out := sock_write (soc (Device s deviceNo)) bs (out s)\<rparr>)
        })) =
   Option.bind (map_option snd (send_turn_said str lock deviceNo i s)) (\<lambda>(more, s). if more then f s else Some s)"
  unfolding send_turn_plain
  by (auto simp: Option.bind_assoc Let_def case_prod_beta split: option.splits intro!: bind_option_cong)

lemma BufferSendOne_said [simp]:
  "map_option snd (BufferSendOne_said str lock deviceNo i s) = BufferSendOne lock deviceNo i s"
  unfolding BufferSendOne_said_def
proof (rule erase_eqI)
  show "BufferSendOne lock deviceNo i s = Some (snd y)"
    if "loop_said (send_turn_said str lock deviceNo i) s = Some y" for y
    using _ that by (rule loop_said_sound) (subst BufferSendOne.simps, rule send_turn_erase)
  have "BufferSendOne lock deviceNo i s = Some s' \<Longrightarrow>
    \<exists>t. loop_said (send_turn_said str lock deviceNo i) s = Some (t, s')" for s'
  proof (induction rule: BufferSendOne.raw_induct [rotated, consumes 1])
    case (1 f lock deviceNo i s s')
    from 1(2) [unfolded send_turn_erase [of s deviceNo i lock "f lock deviceNo i" str]] 1(1)
    show ?case by (rule loop_said_step)
  qed
  then show "\<exists>t. loop_said (send_turn_said str lock deviceNo i) s = Some (t, s')"
    if "BufferSendOne lock deviceNo i s = Some s'" for s' using that .
qed

lemma drain_turn_erase:
  "Option.bind (GetSendReqData lock s) (\<lambda>(r, s). case r of None \<Rightarrow> Some s
      | Some (deviceNo, ip2macNo) \<Rightarrow>
          Option.bind (BufferSendOne (lock_sd ip2macNo) deviceNo ip2macNo s) f) =
   Option.bind (map_option snd (drain_turn_said str lock lock_sd s)) (\<lambda>(more, s). if more then f s else Some s)"
proof -
  have "map_option snd (drain_turn_said str lock lock_sd s) =
      Option.bind (GetSendReqData lock s) (\<lambda>(r, s). case r of None \<Rightarrow> Some (False, s)
      | Some (deviceNo, ip2macNo) \<Rightarrow>
          Option.bind (BufferSendOne (lock_sd ip2macNo) deviceNo ip2macNo s) (\<lambda>s. Some (True, s)))"
    unfolding drain_turn_said_def
    by (intro erase_bind said_leaf) (auto split: option.split intro!: erase_bind)
  then show ?thesis
    by (auto simp: Option.bind_assoc case_prod_beta split: option.splits intro!: bind_option_cong)
qed

lemma buffer_drain_said [simp]:
  "map_option snd (buffer_drain_said str lock lock_sd s) = buffer_drain lock lock_sd s"
  unfolding buffer_drain_said_def
proof (rule erase_eqI)
  show "buffer_drain lock lock_sd s = Some (snd y)"
    if "loop_said (drain_turn_said str lock lock_sd) s = Some y" for y
    using _ that by (rule loop_said_sound) (subst buffer_drain.simps, rule drain_turn_erase)
  have "buffer_drain lock lock_sd s = Some s' \<Longrightarrow>
    \<exists>t. loop_said (drain_turn_said str lock lock_sd) s = Some (t, s')" for s'
  proof (induction rule: buffer_drain.raw_induct [rotated, consumes 1])
    case (1 f lock lock_sd s s')
    from 1(2) [unfolded drain_turn_erase [of lock s lock_sd "f lock lock_sd" str]] 1(1)
    show ?case by (rule loop_said_step)
  qed
  then show "\<exists>t. loop_said (drain_turn_said str lock lock_sd) s = Some (t, s')"
    if "buffer_drain lock lock_sd s = Some s'" for s' using that .
qed

lemma BufferSend_said:
  "map_option snd (BufferSend_said str ts s) = BufferSend (map snd ts) s"
proof (induction ts arbitrary: s)
  case (Cons w ts)
  obtain waited lock lock_sd where w: "w = (waited, lock, lock_sd)" by (cases w)
  show ?case using erase_tail [OF Cons.IH] by (auto simp: w intro!: erase_bind)
qed simp

lemma Router_recv_said [simp]: "map_option snd (Router_recv_said str errno t i x) = Router_recv t i x"
proof (cases x)
  case (Pair buf s)
  obtain n bs where r: "t_read t i = (n, bs)" by fastforce
  show ?thesis
    unfolding Router_recv_said_def Router_recv_def Pair prod.case r Let_def
    by (auto intro!: erase_same erase_bind AnalyzePacket_said)
qed

lemma Router_turn_said [simp]: "map_option snd (Router_turn_said str errno t x) = Router_turn t x"
proof -
  have "map_option snd (Option.bind (Router_recv_said str e0 t 0 x) (\<lambda>(u, x).
      Option.bind (Router_recv_said str e1 t 1 x) (\<lambda>(v, x). Some (u @ v, x)))) =
      Option.bind (Router_recv t 0 x) (Router_recv t 1)" for e0 e1
    by (rule erase_bind [OF Router_recv_said], rule erase_tail, simp)
  then show ?thesis by (cases x) (simp add: Router_turn_said_def Router_turn_def)
qed

lemma Router_said: "map_option snd (Router_said str ts x) = Router (map snd ts) x"
proof (induction ts arbitrary: x)
  case (Cons w ts)
  obtain errno t where w: "w = (errno, t)" by (cases w)
  have "map_option snd (Option.bind (Router_turn_said str errno t x) (\<lambda>(u, buf, s).
      Option.bind (Router_said str ts (buf, if t_signal t then EndSignal s else s)) (\<lambda>(v, y). Some (u @ v, y)))) =
      Option.bind (Router_turn t x) (\<lambda>(buf, s).
        Router (map snd ts) (buf, if t_signal t then EndSignal s else s))"
    by (rule erase_bind [OF Router_turn_said]) (auto intro!: erase_tail Cons.IH)
  then show ?case by (simp add: w)
qed simp

lemma init_device_said: "snd (init_device_said str errno e i name s) = init_device e i name s"
  by (simp add: init_device_said_def init_device_def Let_def case_prod_beta)

lemma main_setup_said: "snd (main_setup_said str errno e s) = main_setup e s"
  by (simp add: main_setup_said_def main_setup_def init_device_said [of str errno, symmetric] Let_def case_prod_beta)


end
