(* ===== verification/RouterSignals.thy ===== *)
theory RouterSignals
  imports RouterWhole RouterDebug
begin

text \<open>
  The end of \<open>main\<close> of \<open>router/main.c\<close> in single steps: after the buffer thread is created, \<open>main\<close>
  sets the dispositions of six signals, one call at a time, and enters \<open>Router\<close>, while the buffer
  thread already runs and signals may arrive. Until its call is made, a signal does what the
  process inherited. What \<open>main\<close> itself writes to \<open>stderr\<close> is part of the state. The runs are projected
  to those of theory \<open>RouterProcess\<close>, where the handlers count as installed from the start.
\<close>

section \<open>Signals\<close>

datatype signo = SIGINT | SIGTERM | SIGQUIT | SIGPIPE | SIGTTIN | SIGTTOU

datatype disp = SIG_DFL | SIG_IGN | End_signal

definition signal_calls :: "(signo \<times> disp) list" where
  "signal_calls = [(SIGINT, End_signal), (SIGTERM, End_signal), (SIGQUIT, End_signal),
     (SIGPIPE, SIG_IGN), (SIGTTIN, SIG_IGN), (SIGTTOU, SIG_IGN)]"

text \<open>By default \<open>SIGTTIN\<close> and \<open>SIGTTOU\<close> stop a process until it is continued, the others end it.\<close>

datatype life = Alive | Stopped | Killed signo

definition default_action :: "signo \<Rightarrow> life" where
  "default_action sg = (if sg = SIGTTIN \<or> sg = SIGTTOU then Stopped else Killed sg)"

section \<open>The program\<close>

text \<open>
  \<open>pc\<close> counts the steps of \<open>main\<close> after the creation of the thread: the six calls of \<open>signal\<close> and the
  message before \<open>Router\<close>. From 7 on the main thread is where \<open>p_main\<close> says.
\<close>

record program =
  threads :: proc
  pc :: nat
  disps :: "signo \<Rightarrow> disp"
  alive :: life
  text_out :: string

definition program_start ::
  "(int \<Rightarrow> string) \<Rightarrow> int \<Rightarrow> boot_env \<Rightarrow> int \<Rightarrow> bytes \<Rightarrow> (signo \<Rightarrow> disp) \<Rightarrow> program" where
  "program_start str errno e status buf d =
     (let (t, ok, _) = main_setup_said str errno e static_state
      in \<lparr>threads = main_start e status buf, pc = 0, disps = d, alive = Alive,
          text_out = t @ (if ok \<and> status \<noteq> 0
            then DebugPrintf (''pthread_create:'' @ str status @ nl) else [])\<rparr>)"

definition before_Router :: "program \<Rightarrow> program" where
  "before_Router P =
     (if pc P < 6
      then P\<lparr>disps := (disps P)(fst (signal_calls ! pc P) := snd (signal_calls ! pc P)), pc := pc P + 1\<rparr>
      else P\<lparr>text_out := text_out P @ DebugPrintf (''router start'' @ nl), pc := 7\<rparr>)"

definition left_Router :: "proc \<Rightarrow> bool" where
  "left_Router p \<longleftrightarrow> p_main p = In_join \<or> \<not> running p"

definition with_threads :: "proc \<Rightarrow> program \<Rightarrow> program" where
  "with_threads q P = P\<lparr>threads := q, text_out := text_out P @
     (if \<not> left_Router (threads P) \<and> left_Router q then DebugPrintf (''router end'' @ nl) else [])\<rparr>"

definition deliver :: "signo \<Rightarrow> program \<Rightarrow> program" where
  "deliver sg P = (case disps P sg of
     SIG_DFL \<Rightarrow> P\<lparr>alive := default_action sg\<rparr>
   | SIG_IGN \<Rightarrow> P
   | End_signal \<Rightarrow> P\<lparr>threads := handle_signal (threads P)\<rparr>)"

datatype pact = Before | Thread act | Deliver signo | Continue

definition can_go :: "program \<Rightarrow> bool" where
  "can_go P \<longleftrightarrow> alive P = Alive \<and> running (threads P)"

primrec thread_can :: "act \<Rightarrow> program \<Rightarrow> bool" where
  "thread_can (Main t) P = (pc P = 7)"
| "thread_can (Buffer l m) P = True"
| "thread_can Sig P = False"

inductive program_step :: "pact \<Rightarrow> program \<Rightarrow> program \<Rightarrow> bool" where
  before: "can_go P \<Longrightarrow> pc P < 7 \<Longrightarrow> program_step Before P (before_Router P)"
| thread: "can_go P \<Longrightarrow> thread_can a P \<Longrightarrow> proc_step a (threads P) q \<Longrightarrow>
    program_step (Thread a) P (with_threads q P)"
| deliver: "can_go P \<Longrightarrow> program_step (Deliver sg) P (deliver sg P)"
| continue: "alive P = Stopped \<Longrightarrow> program_step Continue P (P\<lparr>alive := Alive\<rparr>)"

inductive_simps program_step_simps:
  "program_step Before P Q" "program_step (Thread a) P Q" "program_step (Deliver sg) P Q"
  "program_step Continue P Q"

primrec pact_ok :: "pact \<Rightarrow> bool" where
  "pact_ok Before \<longleftrightarrow> True"
| "pact_ok (Thread a) \<longleftrightarrow> act_ok a"
| "pact_ok (Deliver sg) \<longleftrightarrow> True"
| "pact_ok Continue \<longleftrightarrow> True"

section \<open>What holds in every run\<close>

text \<open>The dispositions after the first \<open>n\<close> calls of \<open>signal\<close>\<close>

definition disps_after :: "(signo \<Rightarrow> disp) \<Rightarrow> nat \<Rightarrow> signo \<Rightarrow> disp" where
  "disps_after d n = fold (\<lambda>(sg, h) f. f(sg := h)) (take n signal_calls) d"

lemma signal_calls_length [simp]: "length signal_calls = 6"
  by (simp add: signal_calls_def)

lemma disps_after_0 [simp]: "disps_after d 0 = d"
  by (simp add: disps_after_def)

lemma disps_after_Suc:
  "n < 6 \<Longrightarrow> disps_after d (Suc n) =
     (disps_after d n)(fst (signal_calls ! n) := snd (signal_calls ! n))"
  by (simp add: disps_after_def take_Suc_conv_app_nth split: prod.splits)

definition end_signals :: "signo set" where
  "end_signals = {SIGINT, SIGTERM, SIGQUIT}"

lemma disps_after_6:
  "6 \<le> n \<Longrightarrow> disps_after d n sg = (if sg \<in> end_signals then End_signal else SIG_IGN)"
  by (cases sg) (simp_all add: disps_after_def signal_calls_def end_signals_def)

text \<open>A disposition is the inherited one or that of the call.\<close>

lemma fold_upd_cases:
  "fold (\<lambda>(a, b) f. f(a := b)) xs d x = d x \<or> (x, fold (\<lambda>(a, b) f. f(a := b)) xs d x) \<in> set xs"
  by (induction xs rule: rev_induct) (auto split: if_splits)

lemma disps_after_cases: "disps_after d n sg = d sg \<or> (sg, disps_after d n sg) \<in> set signal_calls"
  using fold_upd_cases [of "take n signal_calls" d sg] set_take_subset [of n signal_calls]
  by (auto simp: disps_after_def)

lemma disps_after_DFL: "disps_after d n sg = SIG_DFL \<Longrightarrow> n < 6 \<and> d sg = SIG_DFL"
  using disps_after_cases [of d n sg] disps_after_6 [of n d sg]
  by (cases "n < 6") (auto simp: signal_calls_def split: if_splits)

lemma disps_after_handler:
  "disps_after d n sg = End_signal \<Longrightarrow> sg \<in> end_signals \<or> d sg = End_signal"
  using disps_after_cases [of d n sg] by (auto simp: signal_calls_def end_signals_def)

section \<open>Projection to the threads\<close>

lemma proc_steps_append: "proc_steps as p q \<Longrightarrow> proc_steps bs q r \<Longrightarrow> proc_steps (as @ bs) p r"
  by (induction rule: proc_steps.induct) (auto intro: proc_steps.more)

text \<open>The step of the threads a step of the program makes, if it makes one\<close>

definition thread_step :: "pact \<Rightarrow> program \<Rightarrow> act list" where
  "thread_step x P = (case x of
     Thread a \<Rightarrow> [a]
   | Deliver sg \<Rightarrow> (if disps P sg = End_signal then [Sig] else [])
   | _ \<Rightarrow> [])"

lemma proc_steps_single: "proc_step a p q \<Longrightarrow> act_ok a \<Longrightarrow> proc_steps [a] p q"
  by (rule proc_steps.more [OF _ _ proc_steps.none])

lemma program_step_threads:
  "program_step x P Q \<Longrightarrow> pact_ok x \<Longrightarrow> proc_steps (thread_step x P) (threads P) (threads Q)"
proof (induction rule: program_step.induct)
  case (deliver P sg)
  then have "proc_steps [Sig] (threads P) (handle_signal (threads P))"
    by (intro proc_steps_single proc_step.sig) (simp_all add: can_go_def)
  then show ?case by (cases "disps P sg") (simp_all add: thread_step_def deliver_def proc_steps.none)
qed (simp_all add: thread_step_def before_Router_def with_threads_def proc_steps.none proc_steps_single)

text \<open>What \<open>main\<close> has written once it has called \<open>Router\<close>, and whether it has left it again\<close>

definition main_text :: "string \<Rightarrow> program \<Rightarrow> string" where
  "main_text t P = t @ (if pc P = 7 then DebugPrintf (''router start'' @ nl) else []) @
     (if left_Router (threads P) then DebugPrintf (''router end'' @ nl) else [])"

definition program_inv :: "(signo \<Rightarrow> disp) \<Rightarrow> string \<Rightarrow> program \<Rightarrow> bool" where
  "program_inv d t P \<longleftrightarrow> proc_inv (threads P) \<and> pc P \<le> 7 \<and> disps P = disps_after d (pc P) \<and>
     (pc P < 7 \<longrightarrow> p_main (threads P) = In_test) \<and> text_out P = main_text t P \<and>
     (\<forall>sg. alive P = Killed sg \<longrightarrow> pc P < 6 \<and> d sg = SIG_DFL) \<and>
     (alive P = Stopped \<longrightarrow> pc P < 6)"

lemma proc_steps_inv_threads:
  "program_step x P Q \<Longrightarrow> pact_ok x \<Longrightarrow> proc_inv (threads P) \<Longrightarrow> proc_inv (threads Q)"
  using program_step_threads proc_steps_inv by blast

lemma with_threads_sel [simp]: "threads (with_threads q P) = q"
  by (simp add: with_threads_def)

text \<open>The main thread stands still until it is in \<open>Router\<close>, and does not come back to it.\<close>

lemma proc_step_stays:
  assumes "proc_step a p q" and "\<nexists>t. a = Main t"
  shows "p_main q = p_main p" and "left_Router q = left_Router p"
proof -
  show m: "p_main q = p_main p"
    using assms by (cases rule: proc_step.cases)
      (auto simp: buf_defs handle_signal_def bind_eq_Some_conv split: buf_at.splits)
  then show "left_Router q = left_Router p" by (simp add: left_Router_def running_def)
qed

lemma proc_step_left: "proc_step a p q \<Longrightarrow> left_Router p \<Longrightarrow> left_Router q"
  using proc_step_stays(2) [of a p q]
  by (cases a) (auto simp: proc_step_simps main_defs left_Router_def running_def Let_def split: if_splits)

lemma program_inv_before:
  assumes "program_inv d t P" and "can_go P" and "pc P < 7"
  shows "program_inv d t (before_Router P)"
proof -
  have "\<not> left_Router (threads P)" using assms by (simp add: program_inv_def left_Router_def running_def)
  then show ?thesis using assms
    by (auto simp: program_inv_def before_Router_def main_text_def can_go_def disps_after_Suc disps_after_6 fun_eq_iff)
qed

lemma program_inv_thread:
  assumes "program_inv d t P" and g: "can_go P" "thread_can a P" and st: "proc_step a (threads P) q"
    and "proc_inv q"
  shows "program_inv d t (with_threads q P)"
proof -
  have "pc P < 7 \<longrightarrow> p_main q = p_main (threads P)"
    using proc_step_stays(1) [OF st] g(2) by (cases a) auto
  moreover have "left_Router (threads P) \<longrightarrow> left_Router q" using proc_step_left [OF st] by blast
  ultimately show ?thesis using assms
    by (auto simp: program_inv_def with_threads_def main_text_def can_go_def)
qed

lemma program_inv_deliver:
  assumes "program_inv d t P" and g: "can_go P" and "proc_inv (threads (deliver sg P))"
  shows "program_inv d t (deliver sg P)"
proof (cases "disps P sg")
  case SIG_DFL
  then have "pc P < 6 \<and> d sg = SIG_DFL"
    using assms(1) disps_after_DFL [of d "pc P" sg] by (simp add: program_inv_def)
  then show ?thesis using assms SIG_DFL
    by (auto simp: program_inv_def deliver_def main_text_def default_action_def split: if_splits)
qed (use assms in \<open>auto simp: program_inv_def deliver_def main_text_def left_Router_def running_def handle_signal_def\<close>)

lemma program_step_inv:
  assumes "program_step x P Q" and "pact_ok x" and "program_inv d t P"
  shows "program_inv d t Q"
proof -
  have "proc_inv (threads Q)"
    using proc_steps_inv_threads [OF assms(1,2)] assms(3) by (simp add: program_inv_def)
  with assms show ?thesis
  proof (induction rule: program_step.induct)
    case (continue P)
    then show ?case by (simp add: program_inv_def main_text_def)
  qed (simp_all add: program_inv_before program_inv_thread program_inv_deliver)
qed

text \<open>\<open>EndFlag\<close> is set exactly by a handled signal.\<close>

lemma program_step_stopping:
  assumes "program_step x P Q" and "pact_ok x" and I: "program_inv d t P"
  shows "stopping (threads Q) \<longleftrightarrow> stopping (threads P) \<or> (\<exists>sg. x = Deliver sg \<and> disps P sg = End_signal)"
  using assms
proof (induction rule: program_step.induct)
  case (thread P a q)
  then show ?case using step_stopping [of a "threads P" q] by (auto simp: program_inv_def)
next
  case (deliver P sg)
  show ?case
    by (cases "disps P sg") (simp_all add: deliver_def stopping_def handle_signal_def EndSignal_def)
qed (simp_all add: before_Router_def)

lemma program_start_inv:
  assumes "main_setup e static_state = (True, s)" and "length buf = 2048"
  shows "program_inv d (text_out (program_start str errno e status buf d)) (program_start str errno e status buf d)"
    and "threads (program_start str errno e status buf d) = main_start e status buf"
    and "\<not> stopping (main_start e status buf)"
proof -
  have ok: "fst (snd (main_setup_said str errno e static_state))"
    using assms(1) main_setup_said [of str errno e static_state] by (metis fst_conv)
  show t: "threads (program_start str errno e status buf d) = main_start e status buf"
    by (simp add: program_start_def split: prod.splits)
  have m: "p_main (main_start e status buf) = In_test" using assms(1) by (simp add: main_start_def)
  have "proc_inv (main_start e status buf)" using assms by (rule main_start_ok)
  then show "program_inv d (text_out (program_start str errno e status buf d)) (program_start str errno e status buf d)"
    using m by (simp add: program_inv_def program_start_def main_text_def left_Router_def running_def split: prod.splits)
  show "\<not> stopping (main_start e status buf)"
    using setup_ok(4) [OF assms(1)] assms(1) by (simp add: main_start_def stopping_def initial_def)
qed

lemma program_run:
  assumes "run_of program_step as P Q" and "program_inv d t P" and "\<forall>x \<in> set as. pact_ok x"
  shows "program_inv d t Q \<and> (\<exists>bs. proc_steps bs (threads P) (threads Q)) \<and>
    (stopping (threads Q) \<longrightarrow> stopping (threads P) \<or>
      (\<exists>sg. Deliver sg \<in> set as \<and> (sg \<in> end_signals \<or> d sg = End_signal)))"
  using assms
proof (induction rule: run_of.induct)
  case (nil P)
  then show ?case using proc_steps.none by blast
next
  case (snoc as P Q x R)
  then have ok: "pact_ok x" and IH: "program_inv d t Q" "\<exists>bs. proc_steps bs (threads P) (threads Q)"
    "stopping (threads Q) \<longrightarrow> stopping (threads P) \<or>
      (\<exists>sg. Deliver sg \<in> set as \<and> (sg \<in> end_signals \<or> d sg = End_signal))" by auto
  have D: "disps Q = disps_after d (pc Q)" using IH(1) by (simp add: program_inv_def)
  have "\<exists>bs. proc_steps bs (threads P) (threads R)"
    using IH(2) program_step_threads [OF snoc(2) ok] proc_steps_append by blast
  moreover have "program_inv d t R" using program_step_inv [OF snoc(2) ok IH(1)] .
  moreover have "stopping (threads R) \<longrightarrow> stopping (threads P) \<or>
      (\<exists>sg. Deliver sg \<in> set (as @ [x]) \<and> (sg \<in> end_signals \<or> d sg = End_signal))"
    using IH(3) program_step_stopping [OF snoc(2) ok IH(1)] disps_after_handler [of d "pc Q"]
    by (auto simp: D)
  ultimately show ?case by blast
qed

section \<open>Signals are handled\<close>

text \<open>C14: The start and the end of \<open>main\<close>, with signals that arrive at any time: the threads do what they
  do when the handlers are installed from the start. Only a signal whose call has not been made yet
  can end or stop the process, and only before \<open>Router\<close>, when no frame was read and no socket
  closed; from then on the three signals for the end set \<open>EndFlag\<close> and the three others change
  nothing. Nothing else ends the router: \<open>EndFlag\<close> is set only if one of the three signals arrived.
  \<open>main\<close> announces that the router starts when it does, and its end when the loop was left.\<close>

theorem signals_handled:
  assumes "main_setup e static_state = (True, s)" and "length buf = 2048"
    and inherited: "\<forall>sg. d sg \<noteq> End_signal"
    and start: "P0 = program_start str errno e status buf d"
    and run: "run_of program_step as P0 P" and ok: "\<forall>x \<in> set as. pact_ok x"
  shows "(\<exists>bs. proc_steps bs (main_start e status buf) (threads P)) \<and>
    (\<forall>sg. alive P = Killed sg \<longrightarrow> d sg = SIG_DFL \<and> pc P < 6 \<and>
       p_main (threads P) = In_test \<and> p_closed (threads P) = []) \<and>
    (6 \<le> pc P \<longrightarrow> alive P = Alive \<and> (\<forall>sg. deliver sg P =
       (if sg \<in> {SIGINT, SIGTERM, SIGQUIT} then P\<lparr>threads := handle_signal (threads P)\<rparr> else P))) \<and>
    (stopping (threads P) \<longrightarrow> (\<exists>sg \<in> {SIGINT, SIGTERM, SIGQUIT}. Deliver sg \<in> set as)) \<and>
    text_out P = text_out P0 @ (if pc P = 7 then DebugPrintf (''router start'' @ nl) else []) @
      (if left_Router (threads P) then DebugPrintf (''router end'' @ nl) else [])"
proof -
  have I0: "program_inv d (text_out P0) P0" "threads P0 = main_start e status buf"
    "\<not> stopping (main_start e status buf)"
    using program_start_inv [OF assms(1,2)] by (simp_all add: start)
  from program_run [OF run I0(1) ok] have I: "program_inv d (text_out P0) P"
    and bs: "\<exists>bs. proc_steps bs (main_start e status buf) (threads P)"
    and stop: "stopping (threads P) \<longrightarrow> (\<exists>sg \<in> end_signals. Deliver sg \<in> set as)"
    using I0(2,3) inherited by auto
  have "p_closed (threads P) = []" if "p_main (threads P) = In_test"
    using I that by (simp add: program_inv_def proc_inv_def)
  moreover have "6 \<le> pc P \<longrightarrow> alive P = Alive" using I by (cases "alive P") (auto simp: program_inv_def)
  moreover have "6 \<le> pc P \<longrightarrow> disps P sg = (if sg \<in> end_signals then End_signal else SIG_IGN)" for sg
    using I disps_after_6 [of "pc P" d sg] by (simp add: program_inv_def)
  then have "6 \<le> pc P \<longrightarrow> (\<forall>sg. deliver sg P =
       (if sg \<in> end_signals then P\<lparr>threads := handle_signal (threads P)\<rparr> else P))"
    by (simp add: deliver_def)
  ultimately show ?thesis
    using bs stop I unfolding end_signals_def [symmetric] program_inv_def main_text_def by auto
qed

text \<open>Started in a shell: all six calls, then \<open>SIGTERM\<close>\<close>

lemma before_run:
  "n \<le> 7 \<Longrightarrow> can_go P \<Longrightarrow> pc P = 0 \<Longrightarrow>
   \<exists>Q. run_of program_step (replicate n Before) P Q \<and> pc Q = n \<and> threads Q = threads P \<and> alive Q = Alive"
proof (induction n)
  case 0
  then show ?case using run_of.nil [of program_step P] by (auto simp: can_go_def)
next
  case (Suc n)
  then obtain Q where Q: "run_of program_step (replicate n Before) P Q" "pc Q = n" "threads Q = threads P"
    "alive Q = Alive" by auto
  then have "program_step Before Q (before_Router Q)"
    using Suc.prems by (intro program_step.before) (simp_all add: can_go_def)
  from run_of.snoc [OF Q(1) this] Q Suc.prems(1) show ?case
    by (intro exI [of _ "before_Router Q"]) (auto simp: before_Router_def replicate_append_same)
qed

definition ex_program :: program where
  "ex_program = program_start (\<lambda>_. []) 0 ex_boot 0 (in_buffer []) (\<lambda>_. SIG_DFL)"

theorem signals_handled_witness:
  "\<exists>(P :: program) bs. run_of program_step (replicate 7 Before) ex_program P \<and>
     program_step (Deliver SIGTERM) P (P\<lparr>threads := handle_signal (threads P)\<rparr>) \<and>
     program_step (Deliver SIGPIPE) P P \<and> proc_steps bs ex_proc (threads P)"
proof -
  have t: "threads ex_program = ex_proc" "pc ex_program = 0" "can_go ex_program"
    by (simp_all add: ex_program_def ex_proc_def program_start_def can_go_def running_def split: prod.splits)
       (simp_all add: running_def ex_proc_fields [unfolded ex_proc_def])
  then obtain P where P: "run_of program_step (replicate 7 Before) ex_program P" "pc P = 7"
    "threads P = ex_proc" "alive P = Alive" using before_run [of 7 ex_program] by auto
  have g: "can_go P" using P(3,4) t(3) by (simp add: can_go_def t(1))
  have len: "length (in_buffer []) = 2048" by simp
  have d: "\<forall>sg. (\<lambda>_. SIG_DFL) (sg :: signo) \<noteq> End_signal" by simp
  have ok: "\<forall>x \<in> set (replicate 7 Before). pact_ok x" by simp
  from signals_handled [OF ex_setup len d ex_program_def P(1) ok] P(2)
  have "deliver SIGTERM P = P\<lparr>threads := handle_signal (threads P)\<rparr>" "deliver SIGPIPE P = P"
    "\<exists>bs. proc_steps bs ex_proc (threads P)" by (simp_all add: ex_proc_def)
  with P(1) g show ?thesis
    using program_step.deliver [OF g, of SIGTERM] program_step.deliver [OF g, of SIGPIPE] by auto
qed

end
