(* ===== verification/Races.thy ===== *)
theory Races
  imports RouterProps
begin

text \<open>
  The two threads below the level of theory \<open>RouterSystem\<close>: \<open>GetSendData\<close> tests \<open>sd->top\<close> before
  it takes the mutex, and \<open>AnalyzePacket\<close> reads \<open>sd.dno\<close> before \<open>AppendSendData\<close> takes it. Here
  each of these functions is two steps, the unlocked test and the rest, and steps of the other
  thread may come between. The first section shows that the test of \<open>GetSendData\<close> is harmless
  beside \<open>AppendSendData\<close>, the others what goes wrong: a null dereference beside
  \<open>FreeSendData\<close>, and frames that are never sent.
\<close>

section \<open>\<open>GetSendData\<close> in two steps\<close>

text \<open>\<^verbatim>\<open>if (sd->top == NULL) { return (-1); }\<close>\<close>

definition GetSendData_test :: "SEND_DATA \<Rightarrow> bool" where
  "GetSendData_test sd \<longleftrightarrow> q_top sd \<noteq> None"

text \<open>From \<open>pthread_mutex_lock\<close> on\<close>

definition GetSendData_locked ::
  "int \<Rightarrow> DATA_BUF heap \<Rightarrow> SEND_DATA \<Rightarrow> ((int \<times> bytes option) option \<times> DATA_BUF heap \<times> SEND_DATA) option"
  where
  "GetSendData_locked lock h sd =
     (if lock \<noteq> 0 then Some (None, h, sd)
      else do {
        (d, h, sd) \<leftarrow> dl_pop h sd;
        n \<leftarrow> cells h d;
        let sd = sd\<lparr>dno := dno sd - 1,
                    inBucketSize := inBucketSize sd - word_of_int (d_size n)\<rparr>;
        h \<leftarrow> hfree d h;
        Some (Some (d_size n, d_data n), h, sd)
      })"

lemma GetSendData_split:
  "GetSendData lock h sd =
     (if GetSendData_test sd then GetSendData_locked lock h sd else Some (None, h, sd))"
  by (simp add: GetSendData_def GetSendData_test_def GetSendData_locked_def)

text \<open>
  One queue shared by the two threads: whether the buffer thread is between its test and the
  mutex, the heap, the queue, and the frames appended and obtained so far.
\<close>

record shared =
  w_tested :: bool
  w_heap :: "DATA_BUF heap"
  w_sd :: SEND_DATA
  w_in :: "bytes list"
  w_out :: "bytes list"

inductive thread_step :: "shared \<Rightarrow> shared \<Rightarrow> bool" where
  append: "AppendSendData e (w_heap w) (w_sd w) data (int n) = Some (r, h, sd) \<Longrightarrow>
    0 < n \<Longrightarrow> n \<le> 2048 \<Longrightarrow> n \<le> length data \<Longrightarrow>
    thread_step w (w\<lparr>w_heap := h, w_sd := sd,
      w_in := w_in w @ (if r = 0 then [take n data] else [])\<rparr>)"
| test: "\<not> w_tested w \<Longrightarrow> thread_step w (w\<lparr>w_tested := GetSendData_test (w_sd w)\<rparr>)"
| take: "w_tested w \<Longrightarrow> GetSendData_locked lock (w_heap w) (w_sd w) = Some (r, h, sd) \<Longrightarrow>
    thread_step w (w\<lparr>w_tested := False, w_heap := h, w_sd := sd,
      w_out := w_out w @ (case r of Some (n, Some f) \<Rightarrow> [f] | _ \<Rightarrow> [])\<rparr>)"

inductive_cases thread_stepE: "thread_step w w'"

definition start :: shared where
  "start = \<lparr>w_tested = False, w_heap = \<lparr>cells = (\<lambda>_. None), brk = 0\<rparr>, w_sd = sd_empty,
     w_in = [], w_out = []\<rparr>"

text \<open>The frames in the queue are those appended and not yet obtained, and a passed test stays true.\<close>

definition shared_inv :: "shared \<Rightarrow> bool" where
  "shared_inv w \<longleftrightarrow> (\<exists>ps fs. sdrep (w_heap w) (w_sd w) ps fs \<and> w_in w = w_out w @ fs \<and>
     (w_tested w \<longrightarrow> fs \<noteq> []))"

lemma GetSendData_locked_Cons:
  assumes "sdrep h sd ps (f # fs)"
  shows "\<exists>h' sd'. GetSendData_locked 0 h sd = Some (Some (int (length f), Some f), h', sd') \<and>
    sdrep h' sd' (tl ps) fs"
proof -
  have "GetSendData_test sd" using sdrep_top_None [OF assms] by (simp add: GetSendData_test_def)
  then show ?thesis using GetSendData_Cons [OF assms] GetSendData_split [of 0 h sd] by auto
qed

lemma AppendSendData_cases:
  assumes "sdrep h sd ps fs" and "0 < n" "n \<le> 2048" "n \<le> length data"
    and "AppendSendData e h sd data (int n) = Some (r, h', sd')"
  shows "\<exists>ps'. sdrep h' sd' ps' (fs @ (if r = 0 then [take n data] else []))"
proof (cases "append_succeeds e sd")
  case True
  then show ?thesis using AppendSendData_ok [OF assms(1-4) True] assms(5) by auto
next
  case False
  then show ?thesis using AppendSendData_fails [OF assms(1,4) False] assms(5) by auto
qed

lemma thread_step_inv: "thread_step w w' \<Longrightarrow> shared_inv w \<Longrightarrow> shared_inv w'"
proof (induction rule: thread_step.induct)
  case (append e w data n r h sd)
  then show ?case
    using AppendSendData_cases [of "w_heap w" "w_sd w" _ _ n data e r h sd]
    unfolding shared_inv_def by (auto; blast)
next
  case (test w)
  then show ?case
    using sdrep_top_None by (fastforce simp: shared_inv_def GetSendData_test_def)
next
  case (take w lock r h sd)
  obtain ps f fs where w: "sdrep (w_heap w) (w_sd w) ps (f # fs)" "w_in w = w_out w @ f # fs"
    using take unfolding shared_inv_def by (metis neq_Nil_conv)
  show ?case
  proof (cases "lock = 0")
    case True
    then obtain h' sd' where "r = Some (int (length f), Some f)" "h = h'" "sd = sd'" "sdrep h' sd' (tl ps) fs"
      using GetSendData_locked_Cons [OF w(1)] take(2) by auto
    then show ?thesis using w(2) by (auto simp: shared_inv_def)
  next
    case False
    then have "r = None" "h = w_heap w" "sd = w_sd w"
      using take(2) by (simp_all add: GetSendData_locked_def)
    then show ?thesis using w by (auto simp: shared_inv_def)
  qed
qed

lemma thread_steps_inv: "thread_step\<^sup>*\<^sup>* start w \<Longrightarrow> shared_inv w"
proof (induction rule: rtranclp_induct)
  case base
  have "sdrep (w_heap start) (w_sd start) [] []" by (simp add: start_def heap_ok_def dom_def)
  then show ?case
    unfolding shared_inv_def by (intro exI [of _ "[]"]) (simp add: start_def)
next
  case (step w w')
  then show ?case by (auto intro: thread_step_inv)
qed

text \<open>C16: However the receive loop's calls of \<open>AppendSendData\<close> and the buffer thread's unlocked
  test and locked part of \<open>GetSendData\<close> interleave, the frames come out once each and in the order
  in which they went in, and the locked part never meets an empty queue.\<close>

theorem concurrent_queue_fifo:
  assumes "thread_step\<^sup>*\<^sup>* start w"
  shows "(\<exists>fs. w_in w = w_out w @ fs) \<and>
    (\<not> w_tested w \<or> GetSendData_locked lock (w_heap w) (w_sd w) \<noteq> None)"
proof -
  obtain ps fs where w: "sdrep (w_heap w) (w_sd w) ps fs" "w_in w = w_out w @ fs" "w_tested w \<Longrightarrow> fs \<noteq> []"
    using thread_steps_inv [OF assms] by (auto simp: shared_inv_def)
  have "GetSendData_locked lock (w_heap w) (w_sd w) \<noteq> None" if "w_tested w"
  proof (cases "lock = 0")
    case True
    then show ?thesis using GetSendData_locked_Cons w(1,3) that by (cases fs) fastforce+
  next
    case False
    then show ?thesis by (simp add: GetSendData_locked_def)
  qed
  then show ?thesis using w(2) by blast
qed

theorem concurrent_queue_fifo_witness:
  "\<exists>w. thread_step\<^sup>*\<^sup>* start w \<and> w_tested w \<and> w_in w = [[1, 2]] \<and>
     GetSendData_locked 0 (w_heap w) (w_sd w) \<noteq> None"
proof -
  have "sdrep (w_heap start) (w_sd start) [] []" by (simp add: start_def heap_ok_def dom_def)
  then obtain h sd where a: "AppendSendData (send_ok 0) (w_heap start) (w_sd start) [1, 2] (int 2) = Some (0, h, sd)"
      "sdrep h sd [brk (w_heap start)] [[1, 2]]"
    using AppendSendData_ok [of "w_heap start" "w_sd start" "[]" "[]" 2 "[1, 2]" "send_ok 0"]
    by (auto simp: append_succeeds_def send_ok_def start_def sd_empty_def)
  let ?v = "start\<lparr>w_heap := h, w_sd := sd, w_in := w_in start @ (if (0 :: int) = 0 then [take 2 [1, 2]] else [])\<rparr>"
  have 1: "thread_step start ?v" by (rule thread_step.append [OF a(1)]) simp_all
  have t: "GetSendData_test sd" using sdrep_top_None [OF a(2)] by (simp add: GetSendData_test_def)
  have "thread_step ?v (?v\<lparr>w_tested := GetSendData_test (w_sd ?v)\<rparr>)"
    by (rule thread_step.test) (simp add: start_def)
  with 1 have r: "thread_step\<^sup>*\<^sup>* start (?v\<lparr>w_tested := GetSendData_test (w_sd ?v)\<rparr>)" by simp
  from concurrent_queue_fifo [OF r, of 0] show ?thesis
    using r t by (intro exI [of _ "?v\<lparr>w_tested := GetSendData_test (w_sd ?v)\<rparr>"]) (simp add: start_def)
qed

section \<open>\<open>FreeSendData\<close> between the test and the mutex\<close>

text \<open>\<open>FreeSendData\<close>, which the receive loop runs when an entry has expired, between the buffer
  thread's test and its mutex empties the queue the test saw: the locked part of \<open>GetSendData\<close>
  then dereferences a null pointer, for every queue that is not empty.\<close>

theorem free_between_test_and_lock:
  assumes "sdrep h sd ps fs" and "fs \<noteq> []"
  shows "GetSendData_test sd \<and>
    (\<exists>h' sd'. FreeSendData 0 h sd = Some (0, h', sd') \<and> GetSendData_locked 0 h' sd' = None)"
proof -
  have "GetSendData_test sd" using sdrep_top_None [OF assms(1)] assms(2) by (simp add: GetSendData_test_def)
  moreover obtain h' where "FreeSendData 0 h sd = Some (0, h', sd\<lparr>q_top := None, q_bottom := None\<rparr>)"
    using FreeSendData_ok [OF assms(1)] by blast
  ultimately show ?thesis by (simp add: GetSendData_locked_def dl_pop_def)
qed

theorem free_between_test_and_lock_witness:
  "\<exists>h sd h' sd'. AppendSendData (send_ok 0) no_heap sd_empty [1, 2] 2 = Some (0, h, sd) \<and>
     FreeSendData 0 h sd = Some (0, h', sd') \<and> GetSendData_locked 0 h' sd' = None"
proof -
  have "sdrep no_heap sd_empty [] []" by (simp add: no_heap_def heap_ok_def)
  then obtain h sd ps where a: "AppendSendData (send_ok 0) no_heap sd_empty [1, 2] (int 2) = Some (0, h, sd)"
      "sdrep h sd ps [[1, 2]]"
    using AppendSendData_ok [of no_heap sd_empty "[]" "[]" 2 "[1, 2]" "send_ok 0"]
    by (auto simp: append_succeeds_def send_ok_def sd_empty_def)
  from free_between_test_and_lock [OF a(2)] a(1) show ?thesis by auto
qed

section \<open>The next hop in two steps\<close>

text \<open>\<open>Ip2Mac\<close> and the test \<^verbatim>\<open>ip2mac->flag == FLAG_NG || ip2mac->sd.dno != 0\<close>\<close>

definition next_hop_check :: "os \<Rightarrow> nat \<Rightarrow> in_addr_t \<Rightarrow> router \<Rightarrow> (nat \<times> bool \<times> router) option" where
  "next_hop_check e tno a s = do {
     (i, s) \<leftarrow> Ip2Mac e tno a None s;
     m \<leftarrow> entry s tno i;
     Some (i, i_flag m = FLAG_NG \<or> dno (i_sd m) \<noteq> 0, s)
   }"

text \<open>The call of \<open>AppendSendData\<close> when the test holds\<close>

definition next_hop_append :: "os \<Rightarrow> nat \<Rightarrow> nat \<Rightarrow> bytes \<Rightarrow> int \<Rightarrow> router \<Rightarrow> router option" where
  "next_hop_append e tno i data size' s = do {
     m \<leftarrow> entry s tno i;
     (r, h, sd) \<leftarrow> AppendSendData (o_send e) (bufs s) (i_sd m) data size';
     Some (put_entry tno i (m\<lparr>i_sd := sd\<rparr>) (s\<lparr>bufs := h\<rparr>))
   }"

lemma next_hop_split:
  "next_hop e tno a data size' s = do {
     (i, wait, s) \<leftarrow> next_hop_check e tno a s;
     (if wait then map_option Inl (next_hop_append e tno i data size' s)
      else do { m \<leftarrow> entry s tno i; Some (Inr (i_hwaddr m, s)) })
   }"
  by (cases "Ip2Mac e tno a None s")
    (auto simp: next_hop_def next_hop_check_def next_hop_append_def Let_def map_conv_bind_option
      split: Option.bind_splits if_splits prod.splits)

text \<open>
  A resolved entry with waiting frames and no pending request: nothing in the program will send
  these frames until the next ARP packet from the neighbour.
\<close>

definition stuck :: "router \<Rightarrow> nat \<times> nat \<Rightarrow> in_addr_t \<Rightarrow> bool" where
  "stuck s k a \<longleftrightarrow> resolved_at s k a \<and> q_top (i_sd (ent s k)) \<noteq> None \<and> q_top (SendReq s) = None"

lemma inv_SendReq: "inv s X R \<Longrightarrow> q_top (SendReq s) = None \<longleftrightarrow> R = []"
  using rrep_top_None by (auto simp: inv_def reqs_ok_def)

lemma stuckI:
  "inv s X [] \<Longrightarrow> resolved_at s k a \<Longrightarrow> X k \<noteq> [] \<Longrightarrow> stuck s k a"
  using inv_top [of s X "[]" k] inv_SendReq [of s X "[]"]
  by (simp add: stuck_def resolved_at_def live_slot)

lemma resolved_q_step: "q_step s t k \<Longrightarrow> resolved_at t l a = resolved_at s l a"
  by (simp add: resolved_at_def q_step_live q_step_fields)

lemma resolved_qs_step: "qs_step s t \<Longrightarrow> resolved_at t l a = resolved_at s l a"
  by (simp add: resolved_at_def qs_step_fields)

text \<open>Appending to a resolved entry when no request is pending\<close>

lemma append_stuck:
  assumes inv: "inv s X []" and k: "resolved_at s (d, i) a"
    and n: "0 < n" "n \<le> 2048" "n \<le> length data" and ok: "append_succeeds (o_send e) (i_sd (ent s (d, i)))"
  shows "\<exists>t. next_hop_append e d i data (int n) s = Some t \<and> stuck t (d, i) a \<and>
    inv t (X((d, i) := X (d, i) @ [take n data])) [] \<and> out t = out s \<and> Device t = Device s"
proof -
  have lv: "live s (d, i)" using k by (simp add: resolved_at_def)
  then have sl: "(d, i) \<in> slots s" by (rule live_slot)
  obtain c h sd where A: "AppendSendData (o_send e) (bufs s) (i_sd (ent s (d, i))) data (int n) = Some (c, h, sd)"
    "inv (put_entry d i ((ent s (d, i))\<lparr>i_sd := sd\<rparr>) (s\<lparr>bufs := h\<rparr>)) (X((d, i) := X (d, i) @ [take n data])) []"
    using inv_AppendSendData [OF inv lv n, of "o_send e"] ok by auto
  let ?t = "put_entry d i ((ent s (d, i))\<lparr>i_sd := sd\<rparr>) (s\<lparr>bufs := h\<rparr>)"
  have "resolved_at ?t (d, i) a" using resolved_q_step [OF q_step_put [OF sl]] k by blast
  then have "stuck ?t (d, i) a" by (rule stuckI [OF A(2)]) simp
  then show ?thesis using A sl by (auto simp: next_hop_append_def entry_ent)
qed

lemma drained_room:
  assumes "inv s X R" and "live s k" and "X k = []" and "e_malloc_node e" "e_malloc_data e" "e_lock e = 0"
  shows "append_succeeds e (i_sd (ent s k))"
proof -
  have "unat (inBucketSize (i_sd (ent s k))) = 0"
    using inv_counts [OF assms(1,2)] assms(3) by (simp add: sd_counts_def)
  then show ?thesis using assms(4-6) by (simp add: append_succeeds_def unat_eq_zero MAX_BUCKET_SIZE_def)
qed

lemma search_post_reqs: "search_post e d a None s X R i t X' R' \<Longrightarrow> R' = R"
  by (auto simp: search_post_def split: if_splits)

text \<open>C24: A frame is lost from the buffer thread's sight when the thread empties a queue between the
  receive loop's test of \<open>sd.dno\<close> and its call of \<open>AppendSendData\<close>: the frame then waits in the
  queue of a resolved entry for which no request is pending.\<close>

theorem append_after_drain_stuck:
  assumes inv: "inv s X R" and d: "d < 2" and mem: "o_malloc_table e" and k: "resolved_at s (d, i) a"
    and wait: "X (d, i) \<noteq> []" and req: "(d, i) \<in> set R" and c: "\<forall>l. \<forall>f \<in> set (X l). complete f"
    and n: "0 < n" "n \<le> 2048" "n \<le> length data"
    and calls: "e_malloc_node (o_send e)" "e_malloc_data (o_send e)" "e_lock (o_send e) = 0"
  shows "\<exists>s1 s2 s3. next_hop_check e d a s = Some (i, True, s1) \<and>
    buffer_drain 0 (\<lambda>_. 0) s1 = Some s2 \<and> next_hop_append e d i data (int n) s2 = Some s3 \<and>
    stuck s3 (d, i) a"
proof -
  obtain j t X1 R1 where t: "search_post e d a None s X R j t X1 R1"
    "Ip2Mac e d a None s = Some (j, t\<lparr>out := arp_log s d a (ent t (d, j))\<rparr>)"
    using Ip2Mac_post [OF inv d mem] by blast
  note hit = search_resolved_hit [OF t(1) inv k]
  let ?t = "t\<lparr>out := arp_log s d a (ent t (d, i))\<rparr>"
  have I: "inv ?t X1 R1" and lv: "live ?t (d, i)"
    using t(1) hit(1) by (auto simp: search_post_def)
  have R: "R1 = R" using t(1) by (rule search_post_reqs)
  have rt: "resolved_at ?t (d, i) a"
    using lv hit(4) t(1) hit(1) by (simp add: resolved_at_def search_post_def)
  have dn: "dno (i_sd (ent ?t (d, i))) \<noteq> 0" using inv_dno [OF I lv] hit(3) wait by simp
  have 1: "next_hop_check e d a s = Some (i, True, ?t)"
    using t(2) hit(1) live_slot [OF lv] dn by (simp add: next_hop_check_def entry_ent)
  have c1: "\<forall>l. \<forall>f \<in> set (X1 l). complete f" using t(1) c by (rule search_post_frames)
  obtain u where u: "buffer_drain 0 (\<lambda>_. 0) ?t = Some u"
    "inv u (\<lambda>l. if l \<in> set (served (\<lambda>_. 0) R1) then [] else X1 l) []" "qs_step ?t u"
    using buffer_drain_post [OF I, of "\<lambda>_. 0"] c1 by blast
  have ru: "resolved_at u (d, i) a" using resolved_qs_step [OF u(3)] rt by simp
  then have "live u (d, i)" by (simp add: resolved_at_def)
  then have "append_succeeds (o_send e) (i_sd (ent u (d, i)))"
    by (rule drained_room [OF u(2)]) (use req R calls in simp_all)
  then obtain v where "next_hop_append e d i data (int n) u = Some v" "stuck v (d, i) a"
    using append_stuck [OF u(2) ru n] by blast
  with 1 u(1) show ?thesis by blast
qed

section \<open>Nothing gets a stuck queue going but the neighbour\<close>

text \<open>
  Wake-ups, signals, and frames that are to be forwarded to the next hop \<open>a\<close> on device \<open>d\<close>
  under the configuration of \<open>s\<close>
\<close>

fun traffic_for :: "router \<Rightarrow> nat \<Rightarrow> in_addr_t \<Rightarrow> event \<Rightarrow> bool" where
  "traffic_for s d a (Recv d' t) \<longleftrightarrow> d' < 2 \<and> other d' = d \<and> recv_ok t d' \<and>
     (let (n, bs) = t_read t d' in n \<le> 0 \<or> classify s d' bs (length bs) = Forward a)"
| "traffic_for s d a (Wake lock lock_sd) \<longleftrightarrow> True"
| "traffic_for s d a Signal \<longleftrightarrow> True"

lemma stuck_packet:
  assumes inv: "inv s X R" and k: "stuck s (d, i) a"
    and P: "forward_post e d a data n s X R r data' s' X' R'" and I: "inv s' X' R'"
  shows "stuck s' (d, i) a \<and> out s' = out s \<and> same_config s s'"
proof -
  have res: "resolved_at s (d, i) a" and R: "R = []" using k inv_SendReq [OF inv] by (simp_all add: stuck_def)
  have Xk: "X (d, i) \<noteq> []"
    using k inv_top [OF inv, of "(d, i)"] res by (auto simp: stuck_def resolved_at_def dest: live_slot)
  obtain j t X1 where t: "search_post e d a None s X R j t X1 R'"
    and o: "\<not> ready t (d, j) X1 \<Longrightarrow> X' = queued e t (d, j) (take n data) X1 \<and> q_step t s' (d, j) \<and>
      out s' = arp_log s d a (ent t (d, j))"
    using P unfolding forward_post_def Let_def by (elim exE conjE) (erule that, simp)
  note hit = search_resolved_hit [OF t inv res]
  have q: "X' = queued e t (d, i) (take n data) X1" "q_step t s' (d, i)" "out s' = out s"
    using o hit Xk by (simp_all add: ready_def arp_log_def)
  have "live t (d, i)" "i_addr (ent t (d, i)) = a" "same_world s t"
    using t hit(1) by (auto simp: search_post_def)
  then have "resolved_at s' (d, i) a" and w: "same_config s s'"
    using hit(4) q_step_fields(5,6) [OF q(2)]
    by (simp_all add: resolved_q_step [OF q(2)] same_world_def same_config_def)
       (simp add: resolved_at_def)
  moreover have "R' = []" using search_post_reqs [OF t] R by simp
  moreover have "X' (d, i) \<noteq> []" using q(1) hit(3) Xk by (simp add: queued_def)
  ultimately show ?thesis using stuckI [of s' X' "(d, i)" a] I q(3) by simp
qed

lemma stuck_step:
  assumes st: "sys_step (buf, s) ev (buf', s')" and inv: "sys_inv (buf, s) X R" and k: "stuck s (d, i) a"
    and ev: "traffic_for s d a ev"
  shows "stuck s' (d, i) a \<and> out s' = out s \<and> same_config s s'"
proof (cases ev)
  case (Recv d' t)
  obtain n bs where r: "t_read t d' = (n, bs)" by (cases "t_read t d'")
  have e: "d' < 2" "other d' = d" "recv_ok t d'" "n \<le> 0 \<or> classify s d' bs (length bs) = Forward a"
    using ev Recv r by simp_all
  have I: "inv s X R" using inv by (simp add: sys_inv_def)
  from Recv_step [OF _ inv e(1,3) r] st Recv consider "s' = s" | c X' R' where "0 < n" "n = int (length bs)"
    "packet_post (t_os t d') d' (bs @ drop (length bs) buf) (length bs) s X R c buf' s' X' R'" by blast
  then show ?thesis
  proof cases
    case 1
    then show ?thesis using k by (simp add: same_config_def)
  next
    case 2
    then have f: "classify s d' bs (length bs) = Forward a" using e(4) by simp
    have "ether_type (eh_of bs) = htons ETHERTYPE_IP" "34 \<le> length bs"
      using classify_Forward [of s d' bs "[]" a] f by simp_all
    then have "complete bs" using e(3) r 2(1) by (simp add: recv_ok_def)
    from classify_buffer [of bs s d' "drop (length bs) buf"] this f 2(3) e(2)
    have P: "forward_post (t_os t d') d a (bs @ drop (length bs) buf) (length bs) s X R c buf' s' X' R'" "inv s' X' R'"
      by (simp_all add: packet_post_def)
    from stuck_packet [OF I k P] show ?thesis .
  qed
next
  case (Wake lock lock_sd)
  have I: "inv s X R" using inv by (simp add: sys_inv_def)
  moreover have "R = []" using k inv_SendReq [OF I] by (simp add: stuck_def)
  ultimately have "GetSendReqData lock s = Some (None, s)" by (simp add: GetSendReqData_none)
  then have "s' = s" using st Wake by (subst (asm) buffer_drain.simps | simp add: sys_step_simps)+
  then show ?thesis using k by (simp add: same_config_def)
next
  case Signal
  then have "s' = EndSignal s" using st by (simp add: sys_step_simps)
  then show ?thesis
    using k by (simp add: EndSignal_def stuck_def resolved_at_def same_config_def)
qed

lemma traffic_for_config:
  assumes "same_config s t" shows "traffic_for t d a = traffic_for s d a"
proof
  have "classify t d' f n = classify s d' f n" for d' f n
    using assms by (intro classify_world) (simp_all add: same_config_def)
  then show "traffic_for t d a ev = traffic_for s d a ev" for ev by (cases ev) simp_all
qed

lemma traffic_event_ok: "traffic_for s d a ev \<Longrightarrow> event_ok ev"
  by (cases ev) auto

lemma stuck_steps:
  "steps G w w' \<Longrightarrow> G = traffic_for (snd w) d a \<Longrightarrow> sys_inv w X R \<Longrightarrow> stuck (snd w) (d, i) a \<Longrightarrow>
   (\<exists>Y Q. sys_inv w' Y Q) \<and> stuck (snd w') (d, i) a \<and> out (snd w') = out (snd w) \<and>
     same_config (snd w) (snd w')"
proof (induction rule: steps.induct)
  case (stop w)
  then show ?case by (auto simp: same_config_def)
next
  case (more w u ev v)
  obtain Y Q where u: "sys_inv u Y Q" "stuck (snd u) (d, i) a" "out (snd u) = out (snd w)"
    "same_config (snd w) (snd u)" using more by blast
  have ev: "traffic_for (snd u) d a ev" using more(2,5) traffic_for_config [OF u(4)] by simp
  have "\<exists>Y Q. sys_inv v Y Q"
    using sys_step_ok [OF u(1) traffic_event_ok [OF ev]] sys_step_det [OF more(3)] by blast
  moreover have "stuck (snd v) (d, i) a \<and> out (snd v) = out (snd u) \<and> same_config (snd u) (snd v)"
    using stuck_step [of "fst u" "snd u" ev "fst v" "snd v" Y Q] more(3) u(1,2) ev by simp
  ultimately show ?case using u(3,4) by (auto simp: same_config_def)
qed

text \<open>C25: Once the queue of a resolved entry is stuck, it stays so and nothing is sent, however many
  frames for this next hop arrive and however often the buffer thread wakes up: all traffic to the
  neighbour is queued or dropped until the neighbour sends an ARP packet.\<close>

theorem stuck_queue_black_hole:
  assumes "steps (traffic_for (snd w) d a) w w'" and "sys_inv w X R" and "stuck (snd w) (d, i) a"
  shows "stuck (snd w') (d, i) a \<and> out (snd w') = out (snd w)"
  using stuck_steps [OF assms(1) refl assms(2,3)] by blast

section \<open>A run\<close>

text \<open>The resolved entry of 192.168.1.2 with one waiting frame and no request\<close>

lemma ex_stuck:
  obtains s where "next_hop_append ex_os 1 0 ex_frame64 54 (ex_router1 FLAG_OK 90) = Some s"
    and "stuck s (1, 0) (addr_of 1 2)" and "inv s ((\<lambda>_. [])((1, 0) := [ex_frame64])) []"
    and "out s = []" and "Device s = ex_device"
proof -
  have "append_succeeds (o_send ex_os) (i_sd (ent (ex_router1 FLAG_OK 90) (1, 0)))"
    by (simp add: append_succeeds_def ex_entry_def sd_empty_def)
  from append_stuck [OF ex_router1_inv ex_resolved _ _ _ this, of 54 ex_frame64] that
  show ?thesis by auto
qed

lemma ex_frame_complete: "\<forall>l. \<forall>f \<in> set (((\<lambda>_. [])((1, 0) := [ex_frame64])) l). complete f"
  by simp

theorem append_after_drain_stuck_witness:
  "\<exists>t s1 s2 s3. next_hop_check ex_os 1 (addr_of 1 2) t = Some (0, True, s1) \<and>
     buffer_drain 0 (\<lambda>_. 0) s1 = Some s2 \<and> next_hop_append ex_os 1 0 ex_frame64 (int 54) s2 = Some s3 \<and>
     stuck s3 (1, 0) (addr_of 1 2)"
proof -
  let ?X = "(\<lambda>_. [])((1, 0) := [ex_frame64])"
  obtain s where s: "stuck s (1, 0) (addr_of 1 2)" "inv s ?X []"
    using ex_stuck by blast
  have r: "resolved_at s (1, 0) (addr_of 1 2)" using s(1) by (simp add: stuck_def)
  then have "(1, 0) \<in> slots s" by (simp add: resolved_at_def live_slot)
  then obtain c t where t: "inv t ?X (add_req ex_os (1, 0) [])" "same_shape s t" "\<forall>l. ent t l = ent s l"
    using inv_AppendSendReqData [OF s(2), of 1 0 ex_os] by blast
  have "resolved_at t (1, 0) (addr_of 1 2)"
    using r t(3) same_shape_slots [OF t(2)] by (simp add: resolved_at_def live_def)
  from append_after_drain_stuck [OF t(1) _ _ this _ _ ex_frame_complete, of ex_os 54 ex_frame64]
  show ?thesis by (simp add: add_req_def) blast
qed

theorem stuck_queue_black_hole_witness:
  "\<exists>s v w. stuck s (1, 0) (addr_of 1 2) \<and> sys_step (in_buffer [], s) (Recv 0 (ex_turn ex_frame64)) v \<and>
     sys_step v (Wake 0 (\<lambda>_. 0)) w \<and> stuck (snd w) (1, 0) (addr_of 1 2) \<and> out (snd w) = []"
proof -
  let ?X = "(\<lambda>_. [])((1, 0) := [ex_frame64])" and ?a = "addr_of 1 2" and ?ev = "Recv 0 (ex_turn ex_frame64)"
  obtain s where s: "stuck s (1, 0) ?a" "inv s ?X []" "out s = []" "Device s = ex_device"
    using ex_stuck by blast
  have I: "sys_inv (in_buffer [], s) ?X []" using s(2) by (simp add: sys_inv_def)
  have c: "classify s 0 ex_frame64 54 = Forward ?a"
    using ex_net by (simp add: classify_def classify_ip_def ex_eh ex_ip ex_header_ok s(4) ex_device_def
        next_hop_addr_def)
  have T: "traffic_for s 1 ?a ?ev"
    using c ex_turn_ok(1) [of 0] by (simp add: ex_turn_def)
  obtain v X1 R1 where v: "sys_step (in_buffer [], s) ?ev v" "sys_inv v X1 R1"
    using sys_step_ok [OF I traffic_event_ok [OF T]] by blast
  obtain w where w: "sys_step v (Wake 0 (\<lambda>_. 0)) w"
    using sys_step_ok [OF v(2), of "Wake 0 (\<lambda>_. 0)"] by auto
  have "steps (traffic_for (snd (in_buffer [], s)) 1 ?a) (in_buffer [], s) w"
    using steps.more [OF steps.more [OF steps.stop _ v(1)] _ w] T by simp
  from stuck_queue_black_hole [OF this I] show ?thesis using s v(1) w by fastforce
qed

end
