(* ===== verification/RacesReq.thy ===== *)
theory RacesReq
  imports RouterProps
begin

text \<open>
  The queue of send requests below the level of theory \<open>RouterSystem\<close>: \<open>GetSendReqData\<close> tests
  \<open>SendReq.top\<close> before it takes the mutex, and \<open>BufferSend\<close> waits for \<open>SendReq.cond\<close> without testing the
  queue. The loop of the buffer thread is taken in single steps, and \<open>AppendSendReqData\<close>, which runs
  under the mutex, and all else the receive loop does may come between any two of them.
\<close>

section \<open>\<open>GetSendReqData\<close> in two steps\<close>

text \<open>\<^verbatim>\<open>if (SendReq.top == NULL) { return (-1); }\<close>\<close>

definition GetSendReqData_test :: "router \<Rightarrow> bool" where
  "GetSendReqData_test s \<longleftrightarrow> q_top (SendReq s) \<noteq> None"

text \<open>From \<open>pthread_mutex_lock\<close> on\<close>

definition GetSendReqData_locked :: "int \<Rightarrow> router \<Rightarrow> ((nat \<times> nat) option \<times> router) option" where
  "GetSendReqData_locked lock s =
     (if lock \<noteq> 0 then Some (None, s)
      else do {
        (d, h, q) \<leftarrow> dl_pop (reqs s) (SendReq s);
        n \<leftarrow> cells h d;
        Some (Some (r_deviceNo n, r_ip2macNo n), s\<lparr>reqs := h, SendReq := q\<rparr>)
      })"

lemma GetSendReqData_split:
  "GetSendReqData lock s =
     (if GetSendReqData_test s then GetSendReqData_locked lock s else Some (None, s))"
  by (simp add: GetSendReqData_def GetSendReqData_test_def GetSendReqData_locked_def)

lemma GetSendReqData_locked_Cons:
  assumes "rrep (reqs s) (SendReq s) ps (r # rs)"
  shows "\<exists>h q. GetSendReqData_locked 0 s = Some (Some r, s\<lparr>reqs := h, SendReq := q\<rparr>) \<and> rrep h q (tl ps) rs"
proof -
  have "GetSendReqData_test s" using rrep_top_None [OF assms] by (simp add: GetSendReqData_test_def)
  then show ?thesis using GetSendReqData_Cons [OF assms] GetSendReqData_split [of 0 s] by auto
qed

section \<open>The buffer thread\<close>

text \<open>
  \<open>S_loop\<close>: before \<^verbatim>\<open>while (EndFlag == 0)\<close>; \<open>S_asleep\<close>: in \<open>pthread_cond_timedwait\<close>, which has released the
  mutex; \<open>S_test\<close> and \<open>S_take\<close>: before the two steps of \<open>GetSendReqData\<close>; \<open>S_send\<close>: before
  \<open>BufferSendOne\<close>; \<open>S_end\<close>: returned.
\<close>

datatype sender_at = S_loop | S_asleep | S_test | S_take | S_send nat nat | S_end

text \<open>The requests posted and those taken so far are recorded beside the state.\<close>

record sender =
  z_at :: sender_at
  z_state :: router
  z_posted :: "(nat \<times> nat) list"
  z_taken :: "(nat \<times> nat) list"

text \<open>A step of \<open>BufferSend\<close>; the one out of \<open>S_asleep\<close> is the time-out, or a spurious wake-up.\<close>

definition sender_step :: "int \<Rightarrow> int \<Rightarrow> sender \<Rightarrow> sender option" where
  "sender_step lock lock_sd z = (case z_at z of
     S_loop \<Rightarrow> Some (z\<lparr>z_at := (if EndFlag (z_state z) then S_end else S_asleep)\<rparr>)
   | S_asleep \<Rightarrow> Some (z\<lparr>z_at := S_test\<rparr>)
   | S_test \<Rightarrow> Some (z\<lparr>z_at := (if GetSendReqData_test (z_state z) then S_take else S_loop)\<rparr>)
   | S_take \<Rightarrow> do {
       (r, s) \<leftarrow> GetSendReqData_locked lock (z_state z);
       Some (case r of
          None \<Rightarrow> z\<lparr>z_at := S_loop, z_state := s\<rparr>
        | Some (d, i) \<Rightarrow> z\<lparr>z_at := S_send d i, z_state := s, z_taken := z_taken z @ [(d, i)]\<rparr>)
     }
   | S_send d i \<Rightarrow> do {
       s \<leftarrow> BufferSendOne lock_sd d i (z_state z);
       Some (z\<lparr>z_at := S_test, z_state := s\<rparr>)
     }
   | S_end \<Rightarrow> Some z)"

text \<open>
  \<open>AppendSendReqData\<close> of the receive loop. Only a new request signals \<open>SendReq.cond\<close>, and the signal
  has an effect only on a thread that waits.
\<close>

definition post_step :: "os \<Rightarrow> nat \<Rightarrow> nat \<Rightarrow> sender \<Rightarrow> sender option" where
  "post_step e d i z = do {
     (r, s) \<leftarrow> AppendSendReqData e d i (z_state z);
     Some (if r = 0
       then z\<lparr>z_at := (if z_at z = S_asleep then S_test else z_at z), z_state := s,
              z_posted := z_posted z @ [(d, i)]\<rparr>
       else z\<lparr>z_state := s\<rparr>)
   }"

inductive req_step :: "sender \<Rightarrow> sender \<Rightarrow> bool" where
  sender: "sender_step lock lock_sd z = Some z' \<Longrightarrow> req_step z z'"
| post: "post_step e d i z = Some z' \<Longrightarrow> req_step z z'"
| other: "reqs s = reqs (z_state z) \<Longrightarrow> SendReq s = SendReq (z_state z) \<Longrightarrow>
    req_step z (z\<lparr>z_state := s\<rparr>)"

lemma req_steps_more:
  assumes "req_step\<^sup>*\<^sup>* y z"
  shows "sender_step lock lock_sd z = Some z' \<Longrightarrow> req_step\<^sup>*\<^sup>* y z'"
    and "post_step e d i z = Some z' \<Longrightarrow> req_step\<^sup>*\<^sup>* y z'"
  using assms rtranclp.rtrancl_into_rtrancl req_step.sender req_step.post by metis+

definition req_start :: "router \<Rightarrow> sender" where
  "req_start s = \<lparr>z_at = S_loop, z_state = s, z_posted = [], z_taken = []\<rparr>"

section \<open>What holds in every run\<close>

definition sender_inv :: "sender \<Rightarrow> bool" where
  "sender_inv z \<longleftrightarrow> (\<exists>ps rs. rrep (reqs (z_state z)) (SendReq (z_state z)) ps rs \<and>
     z_posted z = z_taken z @ rs \<and> distinct rs \<and> (z_at z = S_take \<longrightarrow> rs \<noteq> []))"

lemma sender_invI:
  "rrep (reqs (z_state z)) (SendReq (z_state z)) ps rs \<Longrightarrow> z_posted z = z_taken z @ rs \<Longrightarrow>
   distinct rs \<Longrightarrow> (z_at z = S_take \<Longrightarrow> rs \<noteq> []) \<Longrightarrow> sender_inv z"
  unfolding sender_inv_def by blast

lemma sender_invE:
  assumes "sender_inv z"
  obtains ps rs where "rrep (reqs (z_state z)) (SendReq (z_state z)) ps rs"
    "z_posted z = z_taken z @ rs" "distinct rs" "z_at z = S_take \<Longrightarrow> rs \<noteq> []"
  using assms unfolding sender_inv_def by blast

text \<open>Sending does not touch the requests.\<close>

lemma BufferSendOne_reqs:
  "BufferSendOne lock d i s = Some t \<Longrightarrow> reqs t = reqs s \<and> SendReq t = SendReq s"
proof (induction rule: BufferSendOne.raw_induct [rotated, consumes 1])
  case (1 send lock d i s t)
  from 1(2) show ?case
    by (auto simp: bind_eq_Some_conv put_entry_def Let_def split: option.splits dest!: 1(1))
qed

lemma post_rep:
  assumes "rrep (reqs s) (SendReq s) ps rs" and "distinct rs"
    and "AppendSendReqData e d i s = Some (r, t)"
  shows "\<exists>qs. rrep (reqs t) (SendReq t) qs (if r = 0 then rs @ [(d, i)] else rs)"
    and "r = 0 \<longrightarrow> (d, i) \<notin> set rs" and "r = 1 \<longrightarrow> (d, i) \<in> set rs" and "r \<in> {-1, 0, 1}"
  using AppendSendReqData_rep [OF assms(1), of e d i] assms(3)
  by (auto simp: add_req_def split: if_splits)

lemma post_step_inv:
  assumes "sender_inv z" and "post_step e d i z = Some z'"
  shows "sender_inv z'"
  using assms(1)
proof (rule sender_invE)
  fix ps rs
  assume z: "rrep (reqs (z_state z)) (SendReq (z_state z)) ps rs" "z_posted z = z_taken z @ rs"
    "distinct rs" "z_at z = S_take \<Longrightarrow> rs \<noteq> []"
  obtain r s where a: "AppendSendReqData e d i (z_state z) = Some (r, s)"
    using assms(2) by (auto simp: post_step_def bind_eq_Some_conv)
  from post_rep [OF z(1,3) a] obtain qs where
    "rrep (reqs s) (SendReq s) qs (if r = 0 then rs @ [(d, i)] else rs)" "r = 0 \<longrightarrow> (d, i) \<notin> set rs" by blast
  then show ?thesis using assms(2) a z(2-4)
    by (intro sender_invI [of z' qs "if r = 0 then rs @ [(d, i)] else rs"])
      (auto simp: post_step_def split: if_splits)
qed

lemma sender_step_inv:
  assumes "sender_inv z" and st: "sender_step lock lock_sd z = Some z'"
  shows "sender_inv z'"
  using assms(1)
proof (rule sender_invE)
  fix ps rs
  assume z: "rrep (reqs (z_state z)) (SendReq (z_state z)) ps rs" "z_posted z = z_taken z @ rs"
    "distinct rs" "z_at z = S_take \<Longrightarrow> rs \<noteq> []"
  show ?thesis
  proof (cases "z_at z")
    case S_test
    then show ?thesis using z st rrep_top_None [OF z(1)]
      by (intro sender_invI [of z' ps rs]) (auto simp: sender_step_def GetSendReqData_test_def)
  next
    case S_take
    then obtain r qs where rs: "rs = r # qs" using z(4) by (cases rs) auto
    show ?thesis
    proof (cases "lock = 0")
      case True
      with S_take GetSendReqData_locked_Cons [OF z(1) [unfolded rs]] obtain h q where
        "z' = z\<lparr>z_at := S_send (fst r) (snd r), z_state := (z_state z)\<lparr>reqs := h, SendReq := q\<rparr>,
          z_taken := z_taken z @ [r]\<rparr>" "rrep h q (tl ps) qs"
        using st by (auto simp: sender_step_def split: prod.splits)
      then show ?thesis using z(2,3) rs by (intro sender_invI [of z' "tl ps" qs]) simp_all
    next
      case False
      then show ?thesis using z st S_take
        by (intro sender_invI [of z' ps rs]) (auto simp: sender_step_def GetSendReqData_locked_def)
    qed
  next
    case (S_send d i)
    then show ?thesis using z st
      by (intro sender_invI [of z' ps rs]) (auto simp: sender_step_def bind_eq_Some_conv BufferSendOne_reqs)
  qed (use z st in \<open>auto simp: sender_step_def intro!: sender_invI [of _ ps rs] split: if_splits\<close>)
qed

lemma req_step_inv: "req_step z z' \<Longrightarrow> sender_inv z \<Longrightarrow> sender_inv z'"
proof (induction rule: req_step.induct)
  case (other s z)
  then show ?case by (auto simp: sender_inv_def)
qed (auto intro: sender_step_inv post_step_inv)

lemma initial_rrep: "initial s \<Longrightarrow> rrep (reqs s) (SendReq s) [] []"
  by (simp add: initial_def rrep_def dlrep_Nil heap_ok_def dom_def)

lemma req_steps_inv:
  assumes "req_step\<^sup>*\<^sup>* (req_start s) z" and "initial s"
  shows "sender_inv z"
  using assms(1)
proof (induction rule: rtranclp_induct)
  case base
  show ?case using initial_rrep [OF assms(2)]
    by (intro sender_invI [of _ "[]" "[]"]) (simp_all add: req_start_def)
qed (auto intro: req_step_inv)

section \<open>Requests are taken once, in order\<close>

text \<open>C17: However the buffer thread and the receive loop interleave, the requests are taken once each and
  in the order in which they were posted, no request is pending twice, the locked part of
  \<open>GetSendReqData\<close> never meets an empty queue, and posting is defined and leaves the request pending
  unless it reports an error, so that none is lost.\<close>

theorem concurrent_requests:
  assumes "req_step\<^sup>*\<^sup>* (req_start s) z" and "initial s"
  shows "(\<exists>rs. z_posted z = z_taken z @ rs \<and> distinct rs) \<and>
    (z_at z = S_take \<longrightarrow> GetSendReqData_locked lock (z_state z) \<noteq> None) \<and>
    (\<exists>r t. AppendSendReqData e d i (z_state z) = Some (r, t) \<and>
      (r \<noteq> -1 \<longrightarrow> find_req (q_top (SendReq t)) (reqs t) d i = Some True))"
  using req_steps_inv [OF assms]
proof (rule sender_invE)
  fix ps rs
  assume z: "rrep (reqs (z_state z)) (SendReq (z_state z)) ps rs" "z_posted z = z_taken z @ rs"
    "distinct rs" "z_at z = S_take \<Longrightarrow> rs \<noteq> []"
  have "GetSendReqData_locked lock (z_state z) \<noteq> None" if "z_at z = S_take"
  proof (cases "lock = 0")
    case True
    then show ?thesis using GetSendReqData_locked_Cons z(1,4) that by (cases rs) fastforce+
  qed (simp add: GetSendReqData_locked_def)
  moreover obtain r t where a: "AppendSendReqData e d i (z_state z) = Some (r, t)"
    using AppendSendReqData_rep [OF z(1)] by blast
  note p = post_rep [OF z(1,3) a]
  from p(1) obtain qs where q: "rrep (reqs t) (SendReq t) qs (if r = 0 then rs @ [(d, i)] else rs)" by blast
  have "find_req (q_top (SendReq t)) (reqs t) d i = Some True" if "r \<noteq> -1"
    using find_req_rrep [OF q, of d i] p(3,4) that by auto
  ultimately show ?thesis using z(2,3) a by blast
qed

text \<open>The first request of all\<close>

lemma ex_posted:
  "\<exists>t. AppendSendReqData ex_os 1 0 ex_router0 = Some (0, t) \<and> \<not> EndFlag t \<and> GetSendReqData_test t"
proof -
  from AppendSendReqData_rep [OF initial_rrep [OF ex_router0_initial], of ex_os 1 0] obtain h q ps where
    "AppendSendReqData ex_os 1 0 ex_router0 = Some (0, ex_router0\<lparr>reqs := h, SendReq := q\<rparr>)"
    "rrep h q ps [(1, 0)]" by (auto simp: ex_os_def add_req_def)
  then show ?thesis using rrep_top_None by (fastforce simp: ex_router0_def GetSendReqData_test_def)
qed

theorem concurrent_requests_witness:
  "\<exists>z. req_step\<^sup>*\<^sup>* (req_start ex_router0) z \<and> z_at z = S_take \<and> z_posted z = [(1, 0)] \<and> z_taken z = [] \<and>
     GetSendReqData_locked 0 (z_state z) \<noteq> None"
proof -
  obtain t where t: "AppendSendReqData ex_os 1 0 ex_router0 = Some (0, t)" "\<not> EndFlag t" "GetSendReqData_test t"
    using ex_posted by blast
  let ?z = "\<lambda>at. \<lparr>z_at = at, z_state = t, z_posted = [(1, 0)], z_taken = []\<rparr>"
  have 1: "post_step ex_os 1 0 (req_start ex_router0) = Some (?z S_loop)"
    using t by (simp add: post_step_def req_start_def)
  have 2: "sender_step 0 0 (?z S_loop) = Some (?z S_asleep)" "sender_step 0 0 (?z S_asleep) = Some (?z S_test)"
    "sender_step 0 0 (?z S_test) = Some (?z S_take)"
    using t by (simp_all add: sender_step_def)
  have r: "req_step\<^sup>*\<^sup>* (req_start ex_router0) (?z S_take)"
    by (rule req_steps_more(1) [OF req_steps_more(1) [OF req_steps_more(1)
          [OF req_steps_more(2) [OF rtranclp.rtrancl_refl 1] 2(1)] 2(2)] 2(3)])
  from concurrent_requests [OF r ex_router0_initial, of 0] r show ?thesis
    by (intro exI [of _ "?z S_take"]) simp
qed

section \<open>A signal without effect\<close>

text \<open>
  A request posted after the last test of the queue and before the wait: the buffer thread goes to sleep
  beside a pending request, and posting the request again does not wake it. Only the time-out of one
  second does.
\<close>

theorem request_sleeps:
  assumes "req_step\<^sup>*\<^sup>* (req_start s) z" and "initial s" and at: "z_at z = S_loop" "\<not> EndFlag (z_state z)"
    and new: "post_step e d i z = Some z'" "z_posted z' \<noteq> z_posted z"
  shows "\<exists>u. req_step\<^sup>*\<^sup>* z' u \<and> z_at u = S_asleep \<and> (d, i) \<in> set (drop (length (z_taken u)) (z_posted u)) \<and>
    (\<forall>e'. \<exists>v. post_step e' d i u = Some v \<and> z_at v = S_asleep)"
proof -
  have "sender_inv z'" using req_steps_inv [OF assms(1,2)] new(1) by (rule post_step_inv)
  then obtain ps rs where z': "rrep (reqs (z_state z')) (SendReq (z_state z')) ps rs"
    "z_posted z' = z_taken z' @ rs" "distinct rs" by (rule sender_invE)
  obtain t where a: "AppendSendReqData e d i (z_state z) = Some (0, t)" "z_state z' = t" "z_at z' = S_loop"
    "z_posted z' = z_posted z @ [(d, i)]" "z_taken z' = z_taken z"
    using new at by (auto simp: post_step_def bind_eq_Some_conv split: if_splits)
  have "EndFlag t = EndFlag (z_state z)"
    using a(1) by (auto simp: AppendSendReqData_def bind_eq_Some_conv Let_def split: if_splits prod.splits)
  let ?u = "z'\<lparr>z_at := S_asleep\<rparr>"
  have "sender_step 0 0 z' = Some ?u"
    using a at \<open>EndFlag t = _\<close> by (simp add: sender_step_def)
  then have step: "req_step\<^sup>*\<^sup>* z' ?u" by (blast intro: req_step.sender)
  obtain rs0 where "z_posted z = z_taken z @ rs0"
    using req_steps_inv [OF assms(1,2)] by (rule sender_invE)
  then have "rs = rs0 @ [(d, i)]" using z'(2) a(4,5) by simp
  then have pend: "(d, i) \<in> set rs" by simp
  have "\<exists>v. post_step e' d i ?u = Some v \<and> z_at v = S_asleep" for e'
  proof -
    obtain r v where v: "AppendSendReqData e' d i (z_state z') = Some (r, v)" "r = -1 \<or> r = 1"
      using AppendSendReqData_rep [OF z'(1), of e' d i] pend by (auto split: if_splits)
    then show ?thesis by (auto simp: post_step_def)
  qed
  then show ?thesis using step pend z'(2) by (intro exI [of _ ?u]) simp
qed

theorem request_sleeps_witness:
  "\<exists>z u. post_step ex_os 1 0 (req_start ex_router0) = Some z \<and> req_step\<^sup>*\<^sup>* z u \<and> z_at u = S_asleep \<and>
     (1, 0) \<in> set (drop (length (z_taken u)) (z_posted u))"
proof -
  obtain t where t: "AppendSendReqData ex_os 1 0 ex_router0 = Some (0, t)" using ex_posted by blast
  then have p: "post_step ex_os 1 0 (req_start ex_router0) =
      Some \<lparr>z_at = S_loop, z_state = t, z_posted = [(1, 0)], z_taken = []\<rparr>"
    by (simp add: post_step_def req_start_def)
  have "z_at (req_start ex_router0) = S_loop" "\<not> EndFlag (z_state (req_start ex_router0))"
    by (simp_all add: req_start_def ex_router0_def)
  from request_sleeps [OF rtranclp.rtrancl_refl ex_router0_initial this p] p show ?thesis
    by (auto simp: req_start_def)
qed

end
