(* ===== verification/RouterStale.thy ===== *)
theory RouterStale
  imports RouterRefine
begin

text \<open>
  The null address of \<open>traffic_explained\<close> does occur. A request names a place of the table, not a
  neighbour: when the entry that was there expires before the buffer thread wakes up, the request
  is carried out for the neighbour that took its place.
\<close>

section \<open>Steps by the frame received\<close>

lemma Recv_packet:
  assumes I: "sys_inv (buf, s) X R" and cfg: "same_config c s" and ev: "event_ok (Recv d t)"
    and st: "sys_step (buf, s) (Recv d t) (buf', s')" and r: "received c (Recv d t) = Some (d', f, act)"
  obtains rest v X' R' where "classify s d (f @ rest) (length f) = act" "act = Forward a \<Longrightarrow> complete f"
    "packet_post (t_os t d) d (f @ rest) (length f) s X R v buf' s' X' R'" "sys_inv (buf', s') X' R'"
proof -
  have "d < 2" "recv_ok t d" using ev by simp_all
  from Recv_posts [OF I cfg this st] r obtain rest v X' R' where
    act: "classify s d f (length f) = act"
    and f: "ether_type (eh_of f) = htons ETHERTYPE_IP \<and> 34 \<le> length f \<longrightarrow> complete f"
    and P: "packet_post (t_os t d) d (f @ rest) (length f) s X R v buf' s' X' R'" "sys_inv (buf', s') X' R'"
    by (auto simp del: received.simps)
  have "classify s d (f @ rest) (length f) = act" using classify_buffer [OF f] act by simp
  moreover have "act = Forward a \<Longrightarrow> complete f"
    using classify_Forward [of s d f "[]" a] act f by simp
  ultimately show ?thesis using P by (rule that)
qed

lemma Recv_forward:
  assumes "sys_inv (buf, s) X R" and "same_config c s" and "event_ok (Recv d t)"
    and "sys_step (buf, s) (Recv d t) (buf', s')" and "received c (Recv d t) = Some (d, f, Forward a)"
  obtains rest v X' R' where "complete f" "sys_inv (buf', s') X' R'"
    "forward_post (t_os t d) (other d) a (f @ rest) (length f) s X R v buf' s' X' R'"
  using assms by (rule Recv_packet [where a = a]) (auto simp: packet_post_def intro: that)

lemma Recv_learn:
  assumes "sys_inv (buf, s) X R" and "same_config c s" and "event_ok (Recv d t)"
    and "sys_step (buf, s) (Recv d t) (buf', s')" and "received c (Recv d t) = Some (d, f, Learn a m)"
  obtains i X' R' where "sys_inv (buf', s') X' R'" "search_post (t_os t d) d a (Some m) s X R i s' X' R'"
  using assms by (rule Recv_packet) (auto simp: packet_post_def intro: that)

section \<open>The place of an expired entry\<close>

text \<open>A new neighbour, asked for or announced, takes the place of the only entry if that is expired.\<close>

lemma search_takes_place:
  assumes S: "search_post e d a hw s X R j t X1 R'"
    and k: "(d, i) \<in> slots s" and only: "\<forall>l. (d, l) \<in> slots s \<longrightarrow> l = i"
    and old: "expired (o_now e) (ent s (d, i))" and a: "i_addr (ent s (d, i)) \<noteq> a"
  shows "j = i \<and> ent t (d, i) = init_entry e d a hw \<and> X1 (d, i) = [] \<and> R' = R"
proof -
  have no_hit: "\<not> (\<exists>j. is_hit e d a hw s j)"
    using only a live_slot unfolding is_hit_def by metis
  have P: "ent t (d, j) = init_entry e d a hw" "X1 (d, j) = []" "R' = R" "clean_post e d j s t"
    using S no_hit unfolding search_post_def by simp_all
  have "j = i"
  proof (rule ccontr)
    assume "j \<noteq> i"
    then have "(d, j) \<notin> slots s" using only by blast
    then have "live t (d, i)" using P(4) k unfolding clean_post_def by blast
    moreover have "ent t (d, i) = ent s (d, i)"
      using search_post_other(2) [OF S, of "(d, i)"] calculation \<open>j \<noteq> i\<close> by simp
    ultimately show False using P(4) old \<open>j \<noteq> i\<close> unfolding clean_post_def by metis
  qed
  with P show ?thesis by simp
qed

text \<open>C26: A request outlives its entry. If the only entry of a device has a pending request and has expired
  when a frame for another neighbour arrives, that neighbour gets its place in the table, and the
  next wake-up sends the frame, which should wait for the ARP reply, to the MAC address
  00:00:00:00:00:00.\<close>

theorem stale_request_null_mac:
  assumes I: "sys_inv (buf, s) X R" and req: "(other d, i) \<in> set R"
    and only: "\<forall>j. (other d, j) \<in> slots s \<longrightarrow> j = i"
    and old: "expired (o_now (t_os t d)) (ent s (other d, i))" and a: "i_addr (ent s (other d, i)) \<noteq> a"
    and ev: "event_ok (Recv d t)" and r: "received s (Recv d t) = Some (d, f, Forward a)"
    and calls: "append_succeeds (o_send (t_os t d)) sd_empty"
  shows "\<exists>buf' s1 s2. sys_step (buf, s) (Recv d t) (buf', s1) \<and>
    sys_step (buf', s1) (Wake 0 (\<lambda>_. 0)) (buf', s2) \<and>
    (soc (Device s (other d)), fwd_frame zero_mac None f) \<in> set (out s2)"
proof -
  let ?e = "t_os t d" and ?k = "(other d, i)"
  have k: "?k \<in> slots s" using I req by (auto simp: sys_inv_def inv_def reqs_ok_def)
  have cfg: "same_config s s" by (simp add: same_config_def)
  obtain buf' s1 where st: "sys_step (buf, s) (Recv d t) (buf', s1)"
    using sys_step_ok [OF I ev] by auto
  obtain rest v X' R' where c: "complete f" and I1: "sys_inv (buf', s1) X' R'"
    and P: "forward_post ?e (other d) a (f @ rest) (length f) s X R v buf' s1 X' R'"
    using I cfg ev st r by (rule Recv_forward)
  have new: "X' ?k = [f] \<and> R' = R \<and> i_hwaddr (ent s1 ?k) = zero_mac \<and> Device s1 = Device s"
    using P cfg c
  proof (cases rule: forward_cases)
    case (sent j u X1)
    from search_takes_place [OF sent(1) k only old a] sent(2) show ?thesis
      by (simp add: ready_def init_entry_def)
  next
    case (waits j u X1 L)
    note n = search_takes_place [OF waits(1) k only old a]
    have "Device s1 = Device s"
      using q_step_fields(5) [OF waits(4)] search_post_world [OF waits(1)] by (simp add: same_world_def)
    then show ?thesis
      using n waits(3) calls q_step_fields(3) [OF waits(4)]
      by (simp add: queued_def) (simp add: init_entry_def)
  qed
  have J: "inv s1 X' R'" "\<forall>k \<in> set R'. \<forall>f \<in> set (X' k). complete f"
    using I1 unfolding sys_inv_def snd_conv by blast+
  obtain s2 where s2: "buffer_drain 0 (\<lambda>_. 0) s1 = Some s2" "out s2 = out s1 @ drained s1 X' R'"
    using buffer_drain_post [OF J, of "\<lambda>_. 0"] by auto
  have "(soc (Device s (other d)), fwd_frame zero_mac None f) \<in> set (drained s1 X' R')"
    using req new unfolding drained_def resend_def by force
  with st s2 show ?thesis by (auto simp: sys_step_simps)
qed

section \<open>Such a run\<close>

text \<open>The frame is received at time 100, the reply and a frame for 192.168.1.3 at time 200.\<close>

definition ex_other :: bytes where
  "ex_other =
     [2, 0, 0, 0, 0, 1, 2, 0, 0, 0, 0, 0x11, 8, 0,
      0x45, 0, 0, 40, 0, 1, 0, 0, 64, 17, 248, 110, 192, 168, 0, 2, 192, 168, 1, 3,
      0x10, 0, 0x20, 0, 0, 20, 0, 0, 1, 2, 3, 4, 5, 6, 7, 8, 9, 10, 11, 12]"

definition ex_late :: "bytes \<Rightarrow> turn" where
  "ex_late f = (ex_turn f)\<lparr>t_os := \<lambda>_. ex_os\<lparr>o_now := 200\<rparr>\<rparr>"

lemma ex_other_parts:
  "length ex_other = 54" "ip_ihl (ip_of ex_other) = 5" "ip_ttl (ip_of ex_other) = 64"
  "ip_daddr (ip_of ex_other) = addr_of 1 3"
  "eh_of ex_other = \<lparr>ether_dhost = mac_of 1, ether_shost = mac_of 0x11, ether_type = 8\<rparr>"
  by (simp_all add: ip_of_def dec_iphdr_def eh_of_def dec_ether_header_def field_at ex_other_def
      addr_of_def mac_of_def lo_nibble_def le16_def)

lemma ex_other_ok: "complete ex_other" "header_ok ex_other"
  by (simp_all add: complete_def header_ok_def opts_of_def ex_other_parts option_len_eq)
    (simp_all add: ex_other_def)

lemma ex_other_received:
  assumes "Device s = ex_device"
  shows "received s (Recv 0 (ex_late ex_other)) = Some (0, ex_other, Forward (addr_of 1 3))"
proof -
  have "addr_of 1 3 AND 0x00FFFFFF = addr_of 1 0" "addr_of 1 3 \<noteq> addr_of 1 1"
    by (simp_all add: addr_of_def le32_def)
  then have "classify s 0 ex_other (length ex_other) = Forward (addr_of 1 3)"
    by (simp add: classify_def classify_ip_def ex_other_parts ex_other_ok assms ex_device_def next_hop_addr_def)
  then show ?thesis by (simp add: ex_late_def ex_turn_def ex_other_parts flip: length_greater_0_conv)
qed

lemma received_late: "received c (Recv d (ex_late f)) = received c (Recv d (ex_turn f))"
  by (simp add: ex_late_def)

lemma ex_late_ok: "recv_ok (ex_late f) d = recv_ok (ex_turn f) d"
  by (simp add: recv_ok_def ex_late_def ex_turn_def)

lemma ex_other_event: "event_ok (Recv 0 (ex_late ex_other))"
  by (simp add: ex_late_ok) (simp add: recv_ok_def ex_turn_def ex_other_parts ex_other_ok)

text \<open>A miss in the empty table takes its first place\<close>

lemma ex_first_entry:
  assumes "search_post ex_os 1 (addr_of 1 2) None ex_router0 (\<lambda>_. []) [] i t X1 R"
  shows "i_flag (ent t (1, i)) = FLAG_NG" and "i_addr (ent t (1, i)) = addr_of 1 2"
    and "i_lastTime (ent t (1, i)) = 100" and "i_sd (ent t (1, i)) = sd_empty"
    and "X1 (1, i) = []" and "R = []" and "slots t = {(1, i)}"
proof -
  have "slots ex_router0 = {}" by (auto simp: slots_def ex_router0_def)
  with assms show "i_flag (ent t (1, i)) = FLAG_NG" "i_addr (ent t (1, i)) = addr_of 1 2"
    "i_lastTime (ent t (1, i)) = 100" "i_sd (ent t (1, i)) = sd_empty" "X1 (1, i) = []" "R = []"
    "slots t = {(1, i)}"
    by (simp_all add: search_post_def is_hit_def no_live0) (simp_all add: init_entry_def)
qed

text \<open>The frame leaves one entry, the late reply its request.\<close>

lemma ex_asked:
  "\<exists>buf s X i. sys_step (in_buffer [], ex_router0) (Recv 0 (ex_turn ex_frame64)) (buf, s) \<and>
     sys_inv (buf, s) X [] \<and> slots s = {(1, i)} \<and> Device s = ex_device \<and> same_config ex_router0 s \<and>
     X (1, i) = [ex_frame64] \<and> i_flag (ent s (1, i)) = FLAG_NG \<and>
     i_addr (ent s (1, i)) = addr_of 1 2 \<and> i_lastTime (ent s (1, i)) = 100"
proof -
  let ?ev = "Recv 0 (ex_turn ex_frame64)"
  have I: "sys_inv (in_buffer [], ex_router0) (\<lambda>_. []) []"
    using ex_router0_inv by (simp add: sys_inv_def)
  have cfg: "same_config ex_router0 ex_router0" by (simp add: same_config_def)
  have ev: "event_ok ?ev" by (simp add: ex_turn_ok)
  have os: "t_os (ex_turn ex_frame64) 0 = ex_os" by (simp add: ex_turn_def)
  obtain buf s where st: "sys_step (in_buffer [], ex_router0) ?ev (buf, s)"
    using sys_step_ok [OF I ev] by auto
  have cfg': "same_config ex_router0 s" using step_config [OF st I ev] by simp
  obtain rest v X R where P: "complete ex_frame64" "sys_inv (buf, s) X R"
    "forward_post (t_os (ex_turn ex_frame64) 0) (other 0) (addr_of 1 2) (ex_frame64 @ rest)
      (length ex_frame64) ex_router0 (\<lambda>_. []) [] v buf s X R"
    using I cfg ev st ex_received(1) by (rule Recv_forward)
  from P(3) cfg P(1) show ?thesis
  proof (cases rule: forward_cases)
    case (sent i t X1)
    with ex_first_entry [of i t X1 R] show ?thesis by (simp add: os ready_def)
  next
    case (waits i t X1 L)
    have "search_post ex_os 1 (addr_of 1 2) None ex_router0 (\<lambda>_. []) [] i t X1 R"
      using waits(1) by (simp add: os)
    note n = ex_first_entry [OF this]
    have q: "q_step t s (1, i)" using waits(4) by simp
    have "append_succeeds (o_send ex_os) sd_empty"
      by (simp add: append_succeeds_def sd_empty_def)
    then have "X (1, i) = [ex_frame64]" using waits(3) n(4,5) by (simp add: os queued_def)
    moreover have "Device s = ex_device" using cfg' by (simp add: same_config_def)
    moreover have "i_flag (ent s (1, i)) = FLAG_NG" "i_addr (ent s (1, i)) = addr_of 1 2"
      "i_lastTime (ent s (1, i)) = 100" "slots s = {(1, i)}"
      using n q_step_slots [OF q] q_step_fields [OF q] by simp_all
    ultimately show ?thesis using st P(2) [unfolded n(6)] cfg' by blast
  qed
qed

lemma ex_resolved_late:
  assumes I: "sys_inv (buf, s) X []" and s: "slots s = {(1, i)}" "same_config ex_router0 s"
    "X (1, i) = [ex_frame64]" "i_flag (ent s (1, i)) = FLAG_NG"
    "i_addr (ent s (1, i)) = addr_of 1 2" "i_lastTime (ent s (1, i)) = 100"
  shows "\<exists>buf' u Y R. sys_step (buf, s) (Recv 1 (ex_late ex_reply)) (buf', u) \<and> sys_inv (buf', u) Y R \<and>
    (1, i) \<in> set R \<and> slots u = {(1, i)} \<and> expired 200 (ent u (1, i)) \<and>
    i_addr (ent u (1, i)) = addr_of 1 2 \<and> same_config ex_router0 u"
proof -
  let ?ev = "Recv 1 (ex_late ex_reply)" and ?e = "t_os (ex_late ex_reply) 1"
  have ev: "event_ok ?ev" by (simp add: ex_late_ok ex_turn_ok)
  have r: "received ex_router0 ?ev = Some (1, ex_reply, Learn (addr_of 1 2) (mac_of 0x22))"
    using ex_received(2) by (simp only: received_late)
  have e: "o_now ?e = 200" "o_lock_req ?e = 0" "o_malloc_req ?e" by (simp_all add: ex_late_def)
  obtain buf' u where st: "sys_step (buf, s) ?ev (buf', u)" using sys_step_ok [OF I ev] by auto
  obtain j Y R where P: "sys_inv (buf', u) Y R"
    "search_post ?e 1 (addr_of 1 2) (Some (mac_of 0x22)) s X [] j u Y R"
    using I s(2) ev st r by (rule Recv_learn)
  have lv: "live s (1, i)" using s(1,4) by (simp add: live_def)
  have inv: "inv s X []" using I by (simp add: sys_inv_def)
  note h = search_post_same [OF P(2) lv s(5) inv]
  have j: "j = i" "(1, i) \<in> set R" using h add_req_in [OF e(2,3)] s(3) by simp_all
  have hit: "\<exists>j. is_hit ?e 1 (addr_of 1 2) (Some (mac_of 0x22)) s j"
    using lv s(5) by (auto simp: is_hit_def resolves_def)
  have "ent u (1, i) = hit_entry ?e (Some (mac_of 0x22)) (ent s (1, i))" "slots u = {(1, i)}"
    using P(2) s(1) j(1) unfolding search_post_def if_P [OF hit] by blast+
  moreover from this(1) have "expired 200 (ent u (1, i))" "i_addr (ent u (1, i)) = addr_of 1 2"
    using s(4-6) by (simp_all add: hit_entry_def touch_def expired_def IP2MAC_TIMEOUT_SEC_def)
  moreover have "same_config ex_router0 u"
    using step_config [OF st I ev] s(2) by (simp add: same_config_def)
  ultimately show ?thesis using st P(1) j(2) by blast
qed

theorem stale_request_null_mac_witness:
  "\<exists>w. router_run [Recv 0 (ex_turn ex_frame64), Recv 1 (ex_late ex_reply), Recv 0 (ex_late ex_other),
      Wake 0 (\<lambda>_. 0)] (in_buffer [], ex_router0) w \<and>
     (4, fwd_frame zero_mac None ex_other) \<in> set (out (snd w))"
proof -
  obtain buf s X i where 1: "sys_step (in_buffer [], ex_router0) (Recv 0 (ex_turn ex_frame64)) (buf, s)"
    "sys_inv (buf, s) X []" "slots s = {(1, i)}" "same_config ex_router0 s" "X (1, i) = [ex_frame64]"
    "i_flag (ent s (1, i)) = FLAG_NG" "i_addr (ent s (1, i)) = addr_of 1 2"
    "i_lastTime (ent s (1, i)) = 100"
    using ex_asked by blast
  obtain buf' u Y R where 2: "sys_step (buf, s) (Recv 1 (ex_late ex_reply)) (buf', u)"
    "sys_inv (buf', u) Y R" "(1, i) \<in> set R" "slots u = {(1, i)}" "expired 200 (ent u (1, i))"
    "i_addr (ent u (1, i)) = addr_of 1 2" "same_config ex_router0 u"
    using ex_resolved_late [OF 1(2-)] by blast
  have dev: "Device u = ex_device" using 2(7) by (simp add: same_config_def)
  have a: "addr_of 1 2 \<noteq> addr_of 1 3" by (simp add: addr_of_def le32_def)
  have os: "o_now (t_os (ex_late ex_other) 0) = 200"
    "append_succeeds (o_send (t_os (ex_late ex_other) 0)) sd_empty"
    by (simp_all add: ex_late_def append_succeeds_def sd_empty_def)
  have place: "(other 0, i) \<in> set R" "\<forall>j. (other 0, j) \<in> slots u \<longrightarrow> j = i"
    "expired (o_now (t_os (ex_late ex_other) 0)) (ent u (other 0, i))"
    "i_addr (ent u (other 0, i)) \<noteq> addr_of 1 3"
    using 2(3-6) os(1) a by simp_all
  from stale_request_null_mac [OF 2(2) place ex_other_event ex_other_received [OF dev] os(2)]
  obtain b v w where 3: "sys_step (buf', u) (Recv 0 (ex_late ex_other)) (b, v)"
    "sys_step (b, v) (Wake 0 (\<lambda>_. 0)) (b, w)"
    "(soc (Device u (other 0)), fwd_frame zero_mac None ex_other) \<in> set (out w)"
    by blast
  have "router_run ((([] @ [Recv 0 (ex_turn ex_frame64)]) @ [Recv 1 (ex_late ex_reply)]) @
      [Recv 0 (ex_late ex_other)]) (in_buffer [], ex_router0) (b, v)"
    by (rule run_of.snoc, rule run_of.snoc, rule run_of.snoc, rule run_of.nil) (fact 1(1) 2(1) 3(1))+
  from run_of.snoc [OF this 3(2)] 3(3) dev show ?thesis
    by (intro exI [of _ "(b, w)"]) (simp add: ex_device_def)
qed

end
