(* ===== verification/RacesSend.thy ===== *)
theory RacesSend
  imports RouterStale
begin

text \<open>
  The buffer thread below the level of theory \<open>RouterSystem\<close>: between taking a request, taking a frame
  from a queue and writing it, the receive loop may handle any number of frames. The buffer thread
  keeps a pointer to a table entry across these steps, and \<open>realloc\<close> may move the table: the pointer
  is good as long as the array has the size it had when the pointer was made. The calls of
  \<open>AnalyzePacket\<close>, \<open>GetSendReqData\<close> and \<open>GetSendData\<close> are single steps here.
\<close>

section \<open>The steps of the buffer thread\<close>

text \<open>
  \<open>F_idle\<close>: waiting, before the inner loop of \<open>BufferSend\<close>; \<open>F_req\<close>: before \<open>GetSendReqData\<close>;
  \<open>F_one d i n\<close>: in \<open>BufferSendOne\<close> before \<open>GetSendData\<close>, with a pointer to place \<open>i\<close> of the array of
  \<open>n\<close> places; \<open>F_write d i n data size\<close>: after \<open>GetSendData\<close>, with the frame it returned.
\<close>

datatype send_at = F_idle | F_req | F_one nat nat nat | F_write nat nat nat bytes int

record fine =
  f_world :: world
  f_at :: send_at

definition deref :: "nat \<Rightarrow> nat \<Rightarrow> nat \<Rightarrow> router \<Rightarrow> IP2MAC option" where
  "deref d i n s = (if t_size (Ip2Macs s d) = n then entry s d i else None)"

definition move_to :: "router \<Rightarrow> send_at \<Rightarrow> fine \<Rightarrow> fine" where
  "move_to s at p = p\<lparr>f_world := (fst (f_world p), s), f_at := at\<rparr>"

definition send_step :: "int \<Rightarrow> int \<Rightarrow> fine \<Rightarrow> fine option" where
  "send_step lock lock_sd p =
     (let s = snd (f_world p)
      in case f_at p of
           F_idle \<Rightarrow> Some (move_to s F_req p)
         | F_req \<Rightarrow> do {
             (r, s) \<leftarrow> GetSendReqData lock s;
             Some (case r of
                None \<Rightarrow> move_to s F_idle p
              | Some (d, i) \<Rightarrow> move_to s (F_one d i (t_size (Ip2Macs s d))) p)
           }
         | F_one d i n \<Rightarrow> do {
             m \<leftarrow> deref d i n s;
             (r, h, sd) \<leftarrow> GetSendData lock_sd (bufs s) (i_sd m);
             let s = put_entry d i (m\<lparr>i_sd := sd\<rparr>) (s\<lparr>bufs := h\<rparr>);
             (case r of
                None \<Rightarrow> Some (move_to s F_req p)
              | Some (size', block) \<Rightarrow> do {
                  data \<leftarrow> block;
                  Some (move_to s (F_write d i n data size') p)
                })
           }
         | F_write d i n data size' \<Rightarrow> do {
             m \<leftarrow> deref d i n s;
             data \<leftarrow> rewrite_buffered (i_hwaddr m) data;
             bs \<leftarrow> mread data 0 (nat size');
             Some (move_to (s\<lparr>out := sock_write (soc (Device s d)) bs (out s)\<rparr>) (F_one d i n) p)
           })"

datatype move = Net event | Buf int int

text \<open>\<open>Net\<close>: a call of \<open>AnalyzePacket\<close> or the handler; \<open>Buf\<close>: the buffer thread, with the statuses of the two locks\<close>

inductive fine_step :: "move \<Rightarrow> fine \<Rightarrow> fine \<Rightarrow> bool" where
  net: "sys_step (f_world p) ev w \<Longrightarrow> \<nexists>l m. ev = Wake l m \<Longrightarrow> fine_step (Net ev) p (p\<lparr>f_world := w\<rparr>)"
| buf: "send_step lock lock_sd p = Some q \<Longrightarrow> fine_step (Buf lock lock_sd) p q"

inductive_simps fine_step_simps: "fine_step (Net ev) p q" "fine_step (Buf l m) p q"

primrec move_ok :: "move \<Rightarrow> bool" where
  "move_ok (Net ev) \<longleftrightarrow> event_ok ev \<and> (\<nexists>l m. ev = Wake l m)"
| "move_ok (Buf l m) \<longleftrightarrow> True"

definition fine_start :: "world \<Rightarrow> fine" where
  "fine_start w = \<lparr>f_world = w, f_at = F_idle\<rparr>"

abbreviation fine_run :: "move list \<Rightarrow> fine \<Rightarrow> fine \<Rightarrow> bool" where
  "fine_run \<equiv> run_of fine_step"

section \<open>Uninterrupted, the steps are those of \<open>BufferSend\<close>\<close>

text \<open>What is left of the inner loop of \<open>BufferSend\<close> at a location\<close>

definition finish :: "int \<Rightarrow> (nat \<Rightarrow> int) \<Rightarrow> fine \<Rightarrow> router option" where
  "finish lock lock_sd p =
     (let s = snd (f_world p)
      in case f_at p of
           F_idle \<Rightarrow> Some s
         | F_req \<Rightarrow> buffer_drain lock lock_sd s
         | F_one d i n \<Rightarrow> do { s \<leftarrow> BufferSendOne (lock_sd i) d i s; buffer_drain lock lock_sd s }
         | F_write d i n data size' \<Rightarrow> do {
             m \<leftarrow> entry s d i;
             data \<leftarrow> rewrite_buffered (i_hwaddr m) data;
             bs \<leftarrow> mread data 0 (nat size');
             s \<leftarrow> BufferSendOne (lock_sd i) d i (s\<lparr>out := sock_write (soc (Device s d)) bs (out s)\<rparr>);
             buffer_drain lock lock_sd s
           })"

inductive alone :: "int \<Rightarrow> (nat \<Rightarrow> int) \<Rightarrow> fine \<Rightarrow> fine \<Rightarrow> bool" for lock lock_sd where
  "f_at p \<noteq> F_idle \<Longrightarrow>
   send_step lock (case f_at p of F_one d i n \<Rightarrow> lock_sd i | _ \<Rightarrow> 0) p = Some q \<Longrightarrow>
   alone lock lock_sd p q"

lemma move_to_sel [simp]:
  "f_world (move_to s at p) = (fst (f_world p), s)" "f_at (move_to s at p) = at"
  by (simp_all add: move_to_def)

lemma move_to_eq [simp]: "move_to s at p = move_to t at' p \<longleftrightarrow> s = t \<and> at = at'"
  using move_to_sel by (metis prod.inject)

lemma deref_entry: "deref d i n s = Some m \<Longrightarrow> entry s d i = Some m"
  by (simp add: deref_def split: if_splits)

lemma put_entry_Some:
  "entry s d i = Some m \<Longrightarrow> entry (put_entry d i m' (s\<lparr>bufs := h\<rparr>)) d i = Some m'"
  by (simp add: entry_def put_entry_def split: if_splits)

lemma alone_finish: "alone lock lock_sd p q \<Longrightarrow> finish lock lock_sd p = finish lock lock_sd q"
proof (induction rule: alone.induct)
  case (1 p q)
  show ?case
  proof (cases "f_at p")
    case F_req
    with 1 show ?thesis
      by (auto simp: send_step_def finish_def bind_eq_Some_conv buffer_drain.simps [of _ _ "snd (f_world p)"]
          split: option.splits prod.splits)
  next
    case (F_one d i n)
    let ?s = "snd (f_world p)"
    obtain m r h sd where m: "entry ?s d i = Some m"
      "GetSendData (lock_sd i) (bufs ?s) (i_sd m) = Some (r, h, sd)"
      using 1 F_one by (auto simp: send_step_def Let_def bind_eq_Some_conv dest: deref_entry)
    have "finish lock lock_sd p = BufferSendOne (lock_sd i) d i ?s \<bind> buffer_drain lock lock_sd"
      using F_one by (simp add: finish_def)
    with 1 F_one m show ?thesis
      by (subst (asm) BufferSendOne.simps)
        (auto simp: send_step_def finish_def bind_eq_Some_conv Let_def put_entry_Some [OF m(1)]
          dest!: deref_entry split: option.splits prod.splits)
  next
    case (F_write d i n data size')
    with 1 show ?thesis
      by (auto simp: send_step_def finish_def bind_eq_Some_conv Let_def dest!: deref_entry)
  qed (use 1 in simp)
qed

text \<open>Running alone, the buffer thread empties the queue of requests as \<open>buffer_drain\<close> does.\<close>

lemma alone_write:
  assumes "deref d i n s = Some m" and "rewrite_buffered (i_hwaddr m) f = Some g" and "mread g 0 (nat k) = Some bs"
  shows "alone lock lock_sd \<lparr>f_world = (buf, s), f_at = F_write d i n f k\<rparr>
    \<lparr>f_world = (buf, s\<lparr>out := sock_write (soc (Device s d)) bs (out s)\<rparr>), f_at = F_one d i n\<rparr>"
  using assms by (intro alone.intros) (simp_all add: send_step_def move_to_def Let_def)

lemma alone_one:
  assumes "BufferSendOne l d i s = Some t" and "n = t_size (Ip2Macs s d)" and "lock_sd i = l"
  shows "(alone lock lock_sd)\<^sup>*\<^sup>* \<lparr>f_world = (buf, s), f_at = F_one d i n\<rparr> \<lparr>f_world = (buf, t), f_at = F_req\<rparr>"
  using assms
proof (induction rule: BufferSendOne.raw_induct [rotated, consumes 1])
  case (1 send l d i s t)
  obtain m r h sd where m: "entry s d i = Some m" "GetSendData l (bufs s) (i_sd m) = Some (r, h, sd)"
    using 1(2) by (auto simp: bind_eq_Some_conv)
  let ?s = "put_entry d i (m\<lparr>i_sd := sd\<rparr>) (s\<lparr>bufs := h\<rparr>)"
  let ?p = "\<lambda>s at. \<lparr>f_world = (buf, s), f_at = at\<rparr> :: fine"
  have n: "t_size (Ip2Macs ?s d) = n" using 1(3) by (simp add: put_entry_def)
  have d: "deref d i n s = Some m" using m(1) 1(3) by (simp add: deref_def)
  show ?case
  proof (cases r)
    case None
    then have "t = ?s" using 1(2) m by simp
    moreover have "alone lock lock_sd (?p s (F_one d i n)) (?p ?s F_req)"
      using m d None 1(4) by (intro alone.intros) (simp_all add: send_step_def move_to_def Let_def)
    ultimately show ?thesis by blast
  next
    case (Some x)
    then obtain k f g bs where f: "r = Some (k, Some f)" "rewrite_buffered (i_hwaddr m) f = Some g"
      "mread g 0 (nat k) = Some bs"
      "send l d i (?s\<lparr>out := sock_write (soc (Device s d)) bs (out s)\<rparr>) = Some t"
      using 1(2) m by (cases x) (auto simp: bind_eq_Some_conv Let_def)
    have "alone lock lock_sd (?p s (F_one d i n)) (?p ?s (F_write d i n f k))"
      using m d f(1) 1(4) by (intro alone.intros) (simp_all add: send_step_def move_to_def Let_def)
    moreover have "deref d i n ?s = Some (m\<lparr>i_sd := sd\<rparr>)"
      using n put_entry_Some [OF m(1)] by (simp add: deref_def)
    from alone_write [OF this _ f(3)] f(2)
    have "alone lock lock_sd (?p ?s (F_write d i n f k))
        (?p (?s\<lparr>out := sock_write (soc (Device s d)) bs (out s)\<rparr>) (F_one d i n))" by simp
    moreover have "n = t_size (Ip2Macs (?s\<lparr>out := sock_write (soc (Device s d)) bs (out s)\<rparr>) d)" using n by simp
    from 1(1) [OF f(4) this 1(4)]
    have "(alone lock lock_sd)\<^sup>*\<^sup>* (?p (?s\<lparr>out := sock_write (soc (Device s d)) bs (out s)\<rparr>) (F_one d i n)) (?p t F_req)" .
    ultimately show ?thesis by (meson converse_rtranclp_into_rtranclp)
  qed
qed

lemma alone_drain:
  "buffer_drain lock lock_sd s = Some t \<Longrightarrow>
   (alone lock lock_sd)\<^sup>*\<^sup>* \<lparr>f_world = (buf, s), f_at = F_req\<rparr> \<lparr>f_world = (buf, t), f_at = F_idle\<rparr>"
proof (induction rule: buffer_drain.raw_induct [rotated, consumes 1])
  case (1 drain lock lock_sd s t)
  let ?p = "\<lambda>s at. \<lparr>f_world = (buf, s), f_at = at\<rparr> :: fine"
  obtain r u where r: "GetSendReqData lock s = Some (r, u)" using 1(2) by (auto simp: bind_eq_Some_conv)
  show ?case
  proof (cases r)
    case None
    then have "t = u" using 1(2) r by simp
    moreover have "alone lock lock_sd (?p s F_req) (?p u F_idle)"
      using r None by (intro alone.intros) (simp_all add: send_step_def move_to_def)
    ultimately show ?thesis by blast
  next
    case (Some k)
    obtain d i where k: "k = (d, i)" by (cases k)
    obtain v where v: "BufferSendOne (lock_sd i) d i u = Some v" "drain lock lock_sd v = Some t"
      using 1(2) r Some k by (auto simp: bind_eq_Some_conv)
    have "alone lock lock_sd (?p s F_req) (?p u (F_one d i (t_size (Ip2Macs u d))))"
      using r Some k by (intro alone.intros) (simp_all add: send_step_def move_to_def)
    also have "(alone lock lock_sd)\<^sup>*\<^sup>* \<dots> (?p v F_req)" using alone_one [OF v(1)] by simp
    also have "(alone lock lock_sd)\<^sup>*\<^sup>* \<dots> (?p t F_idle)" using 1(1) [OF v(2)] .
    finally show ?thesis .
  qed
qed

lemma alone_finishes: "(alone lock lock_sd)\<^sup>*\<^sup>* p q \<Longrightarrow> finish lock lock_sd p = finish lock lock_sd q"
  by (induction rule: rtranclp_induct) (simp_all add: alone_finish)


section \<open>The invariant\<close>

text \<open>The request and the frame the buffer thread is working on\<close>

definition at_ok :: "router \<Rightarrow> send_at \<Rightarrow> bool" where
  "at_ok s at = (case at of
     F_one d i n \<Rightarrow> (d, i) \<in> slots s
   | F_write d i n f k \<Rightarrow> (d, i) \<in> slots s \<and> complete f \<and> k = int (length f)
   | _ \<Rightarrow> True)"

text \<open>The array has grown since the pointer into it was made.\<close>

definition stale :: "fine \<Rightarrow> bool" where
  "stale p = (case f_at p of
     F_one d i n \<Rightarrow> t_size (Ip2Macs (snd (f_world p)) d) \<noteq> n
   | F_write d i n f k \<Rightarrow> t_size (Ip2Macs (snd (f_world p)) d) \<noteq> n
   | _ \<Rightarrow> False)"

definition fine_inv :: "fine \<Rightarrow> (nat \<times> nat \<Rightarrow> bytes list) \<Rightarrow> (nat \<times> nat) list \<Rightarrow> bool" where
  "fine_inv p X R \<longleftrightarrow> sys_inv (f_world p) X R \<and> at_ok (snd (f_world p)) (f_at p)"

text \<open>A step of the receive loop keeps the entries the buffer thread points to.\<close>

lemma packet_slots:
  assumes "packet_post e d data n s X R r data' s' X' R'"
  shows "slots s \<subseteq> slots s'"
proof (cases "classify s d data n")
  case (Learn a m)
  then show ?thesis using assms by (auto simp: packet_post_def search_post_def)
next
  case (Forward a)
  with assms show ?thesis
    by (cases rule: packet_forward_cases) (auto simp: search_post_def dest: q_step_slots)
qed (use assms in \<open>auto simp: packet_post_def\<close>)

lemma sys_step_slots:
  assumes I: "sys_inv (buf, s) X R" and ev: "event_ok ev" and st: "sys_step (buf, s) ev (buf', s')"
  shows "slots s \<subseteq> slots s'"
proof -
  have "same_config s s" by (simp add: same_config_def)
  from I this ev st show ?thesis
  proof (cases rule: sys_step_posts)
    case (packet d t f rest r X' R')
    from packet_slots [OF packet(4)] show ?thesis .
  next
    case (drain lock lock_sd Y)
    with qs_step_fields(1) show ?thesis by blast
  qed simp
qed

lemma at_ok_mono: "at_ok s at \<Longrightarrow> slots s \<subseteq> slots t \<Longrightarrow> at_ok t at"
  by (auto simp: at_ok_def split: send_at.splits)

lemma fine_net:
  assumes I: "fine_inv p X R" and ev: "event_ok ev" and st: "sys_step (f_world p) ev w"
  shows "\<exists>X' R'. fine_inv (p\<lparr>f_world := w\<rparr>) X' R'"
proof -
  obtain X' R' where "sys_inv w X' R'"
    using sys_step_ok [OF _ ev] sys_step_det [OF st] I unfolding fine_inv_def by blast
  moreover have "slots (snd (f_world p)) \<subseteq> slots (snd w)"
    using sys_step_slots [of "fst (f_world p)" "snd (f_world p)" X R ev "fst w" "snd w"] I ev st
    by (simp add: fine_inv_def)
  ultimately show ?thesis using I at_ok_mono by (auto simp: fine_inv_def)
qed

section \<open>What each step does\<close>

text \<open>With the pointer good, \<open>n\<close> is the size of the array.\<close>

lemma deref_ent:
  "(d, i) \<in> slots s \<Longrightarrow> t_size (Ip2Macs s d) = n \<Longrightarrow> deref d i n s = Some (ent s (d, i))"
  by (simp add: deref_def entry_ent)

lemma sys_inv_queue:
  "sys_inv (buf, s) X R \<Longrightarrow> inv t (X(k := fs)) R \<Longrightarrow> set fs \<subseteq> set (X k) \<Longrightarrow> sys_inv (buf, t) (X(k := fs)) R"
  by (auto simp: sys_inv_def)

text \<open>Taking a request\<close>

lemma send_req:
  assumes I: "fine_inv p X R" and at: "f_at p = F_req"
  obtains (no_req) "send_step lock lock_sd p = Some (p\<lparr>f_at := F_idle\<rparr>)" "lock \<noteq> 0 \<or> R = []"
  | (req) d i R' h q where "R = (d, i) # R'"
    "send_step lock lock_sd p = Some (move_to ((snd (f_world p))\<lparr>reqs := h, SendReq := q\<rparr>)
       (F_one d i (t_size (Ip2Macs (snd (f_world p)) d))) p)"
    "fine_inv (move_to ((snd (f_world p))\<lparr>reqs := h, SendReq := q\<rparr>)
       (F_one d i (t_size (Ip2Macs (snd (f_world p)) d))) p) X R'"
proof -
  obtain buf s where w: "f_world p = (buf, s)" by (cases "f_world p")
  have J: "sys_inv (buf, s) X R" "inv s X R" using I w by (simp_all add: fine_inv_def sys_inv_def)
  have same: "move_to s F_idle p = p\<lparr>f_at := F_idle\<rparr>" by (simp add: move_to_def w [symmetric]) (simp add: w)
  show ?thesis
  proof (cases "lock = 0 \<and> R \<noteq> []")
    case False
    have "GetSendReqData lock s = Some (None, s)"
    proof (cases "R = []")
      case True
      then show ?thesis using GetSendReqData_none J(2) by simp
    next
      case ne: False
      then show ?thesis using False by (simp add: GetSendReqData_def)
    qed
    then show ?thesis using at w same False by (intro no_req) (auto simp: send_step_def)
  next
    case True
    then obtain d i R' where R: "R = (d, i) # R'" by (cases R) auto
    obtain h q where h: "GetSendReqData 0 s = Some (Some (d, i), s\<lparr>reqs := h, SendReq := q\<rparr>)"
      "inv (s\<lparr>reqs := h, SendReq := q\<rparr>) X R'"
      using inv_GetSendReqData [of s X "(d, i)" R'] J(2) R by blast
    have "(d, i) \<in> slots s" using J(2) R by (simp add: inv_def reqs_ok_def)
    moreover have "slots (s\<lparr>reqs := h, SendReq := q\<rparr>) = slots s" by (simp add: slots_def)
    ultimately have "fine_inv (move_to (s\<lparr>reqs := h, SendReq := q\<rparr>) (F_one d i (t_size (Ip2Macs s d))) p) X R'"
      using h(2) J(1) w by (simp add: fine_inv_def sys_inv_def at_ok_def)
    then show ?thesis
      using h(1) at w True R by (intro req [of d i R' q h]) (simp_all add: send_step_def)
  qed
qed

text \<open>Taking a frame\<close>

lemma GetSendData_locked_out:
  assumes "inv s X R" and "(d, i) \<in> slots s" and "lock_sd \<noteq> 0 \<or> X (d, i) = []"
  shows "GetSendData lock_sd (bufs s) (i_sd (ent s (d, i))) = Some (None, bufs s, i_sd (ent s (d, i)))"
  using inv_top [OF assms(1,2)] assms(3) by (auto simp: GetSendData_def)

lemma send_one:
  assumes I: "fine_inv p X R" and at: "f_at p = F_one d i n" and ok: "\<not> stale p"
  obtains (empty) "send_step lock lock_sd p = Some (p\<lparr>f_at := F_req\<rparr>)" "lock_sd \<noteq> 0 \<or> X (d, i) = []"
  | (frame) f fs t where "X (d, i) = f # fs" "q_step (snd (f_world p)) t (d, i)"
    "out t = out (snd (f_world p))"
    "send_step lock lock_sd p = Some (move_to t (F_write d i n f (int (length f))) p)"
    "fine_inv (move_to t (F_write d i n f (int (length f))) p) (X((d, i) := fs)) R"
proof -
  obtain buf s where w: "f_world p = (buf, s)" by (cases "f_world p")
  let ?k = "(d, i)"
  have J: "sys_inv (buf, s) X R" "inv s X R" "?k \<in> slots s"
    using I w at by (simp_all add: fine_inv_def sys_inv_def at_ok_def)
  have d: "deref d i n s = Some (ent s ?k)" using ok at w J(3) by (simp add: stale_def deref_ent)
  have same: "move_to s F_req p = p\<lparr>f_at := F_req\<rparr>" by (simp add: move_to_def w [symmetric]) (simp add: w)
  show ?thesis
  proof (cases "lock_sd = 0 \<and> X ?k \<noteq> []")
    case False
    then have "GetSendData lock_sd (bufs s) (i_sd (ent s ?k)) = Some (None, bufs s, i_sd (ent s ?k))"
      by (intro GetSendData_locked_out [OF J(2,3)]) simp
    then show ?thesis using at w d same False put_same [OF J(3)]
      by (intro empty) (auto simp: send_step_def Let_def)
  next
    case True
    then obtain f fs where f: "X ?k = f # fs" by (cases "X ?k") auto
    obtain h sd where h: "GetSendData 0 (bufs s) (i_sd (ent s ?k)) = Some (Some (int (length f), Some f), h, sd)"
      "inv (put_entry d i ((ent s ?k)\<lparr>i_sd := sd\<rparr>) (s\<lparr>bufs := h\<rparr>)) (X(?k := fs)) R"
      using inv_GetSendData [OF J(2,3) f] by blast
    let ?t = "put_entry d i ((ent s ?k)\<lparr>i_sd := sd\<rparr>) (s\<lparr>bufs := h\<rparr>)"
    have q: "q_step s ?t ?k" using J(3) by (rule q_step_put)
    have "\<forall>g \<in> set (X ?k). complete g" using J(1) unfolding sys_inv_def by blast
    then have "complete f" using f by simp
    moreover have "sys_inv (buf, ?t) (X(?k := fs)) R" using J(1) h(2) f by (intro sys_inv_queue) auto
    ultimately have "fine_inv (move_to ?t (F_write d i n f (int (length f))) p) (X(?k := fs)) R"
      using w J(3) q_step_slots [OF q] by (simp add: fine_inv_def at_ok_def)
    then show ?thesis
      using at w d True h(1) q f by (intro frame [of f fs ?t]) (simp_all add: send_step_def Let_def)
  qed
qed

text \<open>Writing it, to the MAC address the entry has now\<close>

lemma send_write:
  assumes I: "fine_inv p X R" and at: "f_at p = F_write d i n f k" and ok: "\<not> stale p"
    and s: "s = snd (f_world p)"
    and q: "q = move_to (s\<lparr>out := out s @ [(soc (Device s d), fwd_frame (i_hwaddr (ent s (d, i))) None f)]\<rparr>) (F_one d i n) p"
  shows "send_step lock lock_sd p = Some q" and "fine_inv q X R"
proof -
  have J: "sys_inv (f_world p) X R" "(d, i) \<in> slots s" "complete f" "k = int (length f)"
    using I at s by (simp_all add: fine_inv_def at_ok_def)
  have d: "deref d i n s = Some (ent s (d, i))" using ok at s J(2) by (simp add: stale_def deref_ent)
  have "rewrite_buffered (i_hwaddr (ent s (d, i))) f = Some (fwd_frame (i_hwaddr (ent s (d, i))) None f)"
    using J(3) by (rule rewrite_buffered_eq)
  moreover have "length (fwd_frame (i_hwaddr (ent s (d, i))) None f) = length f"
    using complete_lengthD [OF J(3)] J(3) by simp
  ultimately show "send_step lock lock_sd p = Some q"
    using at s d J(4) q by (simp add: send_step_def Let_def mem_simps sock_write_def)
  show "fine_inv q X R" using I J(1,2) s q by (simp add: fine_inv_def sys_inv_def at_ok_def)
qed

text \<open>Every step of the buffer thread is defined and keeps the invariant as long as the pointer is good.\<close>

lemma fine_buf:
  assumes I: "fine_inv p X R" and ok: "\<not> stale p"
  shows "\<exists>q X' R'. send_step lock lock_sd p = Some q \<and> fine_inv q X' R' \<and> \<not> stale q"
proof (cases "f_at p")
  case F_idle
  have "send_step lock lock_sd p = Some (move_to (snd (f_world p)) F_req p)"
    using F_idle by (simp add: send_step_def)
  then show ?thesis using I by (auto simp: fine_inv_def at_ok_def stale_def)
next
  case F_req
  with I show ?thesis
  proof (cases rule: send_req [where lock = lock and lock_sd = lock_sd])
    case no_req
    then show ?thesis using I by (auto simp: fine_inv_def at_ok_def stale_def)
  next
    case (req d i R' h q)
    let ?q = "move_to ((snd (f_world p))\<lparr>reqs := h, SendReq := q\<rparr>)
      (F_one d i (t_size (Ip2Macs (snd (f_world p)) d))) p"
    have "\<not> stale ?q" by (simp add: stale_def)
    with req(2,3) show ?thesis by blast
  qed
next
  case (F_one d i n)
  with I show ?thesis using ok
  proof (cases rule: send_one [where lock = lock and lock_sd = lock_sd])
    case empty
    then show ?thesis using I by (auto simp: fine_inv_def at_ok_def stale_def)
  next
    case (frame f fs t)
    have "t_size (Ip2Macs t d) = t_size (Ip2Macs (snd (f_world p)) d)"
      using frame(2) by (simp add: q_step_def same_shape_def)
    then have "\<not> stale (move_to t (F_write d i n f (int (length f))) p)"
      using ok F_one by (simp add: stale_def)
    with frame(4,5) show ?thesis by blast
  qed
next
  case (F_write d i n f k)
  note W = send_write [OF I F_write ok refl refl]
  have "\<not> stale (move_to t (F_one d i n) p)" if "t_size (Ip2Macs t d) = n" for t
    using that by (simp add: stale_def)
  then show ?thesis using W(1) [of lock lock_sd] W(2) ok F_write by (fastforce simp: stale_def)
qed

text \<open>And undefined otherwise.\<close>

lemma stale_undefined: "stale p \<Longrightarrow> send_step lock lock_sd p = None"
  by (auto simp: stale_def send_step_def deref_def Let_def split: send_at.splits)

lemma fine_step_inv:
  assumes st: "fine_step mv p q" and ok: "move_ok mv" and I: "fine_inv p X R"
  shows "\<exists>X' R'. fine_inv q X' R'"
  using st
proof cases
  case (net ev w)
  then show ?thesis using fine_net [OF I] ok by simp
next
  case (buf lock lock_sd)
  then have "\<not> stale p" using stale_undefined by auto
  from fine_buf [OF I this, of lock lock_sd] buf(2) show ?thesis by auto
qed

lemma fine_start_inv: "initial s \<Longrightarrow> length buf = 2048 \<Longrightarrow> fine_inv (fine_start (buf, s)) (\<lambda>_. []) []"
  using initial_inv by (simp add: fine_inv_def fine_start_def sys_inv_def at_ok_def)

lemma fine_run_inv:
  "fine_run ms p q \<Longrightarrow> \<forall>mv \<in> set ms. move_ok mv \<Longrightarrow> fine_inv p X R \<Longrightarrow> \<exists>X' R'. fine_inv q X' R'"
proof (induction rule: run_of.induct)
  case (snoc ms p q mv r)
  then show ?case using fine_step_inv [OF snoc(2)] by auto
qed blast

text \<open>Only a step of the receive loop that finds every place of the array taken makes a pointer bad.\<close>

lemma becomes_stale:
  assumes st: "fine_step mv p q" and ok: "move_ok mv" and I: "fine_inv p X R"
    and s: "\<not> stale p" "stale q"
  shows "\<exists>d. t_no (Ip2Macs (snd (f_world p)) d) = t_size (Ip2Macs (snd (f_world p)) d) \<and>
    (\<forall>i \<le> t_size (Ip2Macs (snd (f_world p)) d). live (snd (f_world q)) (d, i))"
  using st
proof cases
  case (buf lock lock_sd)
  then show ?thesis using fine_buf [OF I s(1), of lock lock_sd] s(2) by auto
next
  case (net ev w)
  have T: "table_post (snd (f_world p)) (snd w)"
    using step_table_post [of "fst (f_world p)" "snd (f_world p)" ev "fst w" "snd w" X R] net ok I
    by (simp add: fine_inv_def)
  from s net(2) have "\<exists>d. (\<exists>i. (d, i) \<in> slots (snd (f_world p))) \<and>
      t_size (Ip2Macs (snd w) d) \<noteq> t_size (Ip2Macs (snd (f_world p)) d)"
    using I by (auto simp: stale_def fine_inv_def at_ok_def split: send_at.splits)
  then obtain d where "d < 2" "t_size (Ip2Macs (snd w) d) \<noteq> t_size (Ip2Macs (snd (f_world p)) d)"
    by (auto simp: slots_def)
  with T net(2) show ?thesis unfolding table_post_def by auto
qed

text \<open>From the wake-up to the first frame of the first request\<close>

lemma run_of_three: "step a s t \<Longrightarrow> step b t u \<Longrightarrow> step c u v \<Longrightarrow> run_of step [a, b, c] s v"
  using run_of.snoc [OF run_of.snoc [OF run_of_single, of step a s t b u], of c v] by simp

lemma takes_first:
  assumes I: "fine_inv p X ((d, i) # R)" and at: "f_at p = F_idle" and f: "X (d, i) = f # fs"
  shows "\<exists>q n. fine_run [Buf 0 0, Buf 0 0, Buf 0 0] p q \<and> fine_inv q (X((d, i) := fs)) R \<and> \<not> stale q \<and>
    f_at q = F_write d i n f (int (length f)) \<and> qs_step (snd (f_world p)) (snd (f_world q)) \<and>
    out (snd (f_world q)) = out (snd (f_world p))"
proof -
  let ?s = "snd (f_world p)" and ?n = "t_size (Ip2Macs (snd (f_world p)) d)"
  let ?p = "move_to ?s F_req p" and ?k = "int (length f)"
  let ?q = "\<lambda>h q. move_to (?s\<lparr>reqs := h, SendReq := q\<rparr>) (F_one d i ?n) ?p"
  let ?r = "\<lambda>h q t. move_to t (F_write d i ?n f ?k) (?q h q)"
  have 1: "fine_step (Buf 0 0) p ?p" using at by (simp add: fine_step_simps send_step_def)
  have "fine_inv ?p X ((d, i) # R)" "f_at ?p = F_req" using I by (simp_all add: fine_inv_def at_ok_def)
  then obtain h q where 2: "send_step 0 0 ?p = Some (?q h q)" "fine_inv (?q h q) X R"
    by (cases rule: send_req [where lock = 0 and lock_sd = 0]) auto
  have good: "\<not> stale (?q h q)" "f_at (?q h q) = F_one d i ?n" by (simp_all add: stale_def)
  from 2(2) good(2,1) obtain t where t: "q_step (snd (f_world (?q h q))) t (d, i)"
    "out t = out (snd (f_world (?q h q)))" "send_step 0 0 (?q h q) = Some (?r h q t)"
    "fine_inv (?r h q t) (X((d, i) := fs)) R"
    by (cases rule: send_one [where lock = 0 and lock_sd = 0]) (use f in auto)
  have 3: "fine_run [Buf 0 0, Buf 0 0, Buf 0 0] p (?r h q t)"
    using 1 2(1) t(3) by (intro run_of_three) (simp_all add: fine_step_simps)
  have Q: "qs_step ?s (snd (f_world (?r h q t)))"
    using qs_step_trans [OF qs_step_reqs [of ?s q h]] q_step_qs_step [OF t(1)] by simp
  have "t_size (Ip2Macs t d) = ?n" using t(1) by (simp add: q_step_def same_shape_def)
  then have "\<not> stale (?r h q t)" by (simp add: stale_def)
  with 3 t(2,4) Q show ?thesis by (intro exI [of _ "?r h q t"] exI [of _ ?n]) simp
qed

section \<open>A run\<close>

text \<open>A frame for a neighbour is received, then the neighbour's reply; the buffer thread wakes up and takes the frame.\<close>

definition ex_moves :: "move list" where
  "ex_moves = [Net (Recv 0 (ex_turn ex_frame64)), Net (Recv 1 (ex_turn ex_reply)), Buf 0 0, Buf 0 0, Buf 0 0]"

lemma ex_moves_ok: "\<forall>mv \<in> set ex_moves. move_ok mv"
  by (simp add: ex_moves_def ex_turn_ok)

lemma ex_replied:
  assumes I: "sys_inv (buf, s) X []" and s: "slots s = {(1, i)}" "same_config ex_router0 s"
    "X (1, i) = [ex_frame64]" "i_flag (ent s (1, i)) = FLAG_NG"
    "i_addr (ent s (1, i)) = addr_of 1 2" "i_lastTime (ent s (1, i)) = 100"
  shows "\<exists>buf' u Y. sys_step (buf, s) (Recv 1 (ex_turn ex_reply)) (buf', u) \<and> sys_inv (buf', u) Y [(1, i)] \<and>
    Y (1, i) = [ex_frame64] \<and> resolved_at u (1, i) (addr_of 1 2) \<and> i_lastTime (ent u (1, i)) = 100 \<and>
    i_hwaddr (ent u (1, i)) = mac_of 0x22 \<and> slots u = {(1, i)} \<and> same_config ex_router0 u"
proof -
  let ?ev = "Recv 1 (ex_turn ex_reply)" and ?e = "t_os (ex_turn ex_reply) 1"
  have ev: "event_ok ?ev" by (simp add: ex_turn_ok)
  have e: "o_lock_req ?e = 0" "o_malloc_req ?e" by (simp_all add: ex_turn_def)
  obtain buf' u where st: "sys_step (buf, s) ?ev (buf', u)" using sys_step_ok [OF I ev] by auto
  obtain j Y R where P: "sys_inv (buf', u) Y R"
    "search_post ?e 1 (addr_of 1 2) (Some (mac_of 0x22)) s X [] j u Y R"
    using I s(2) ev st ex_received(2) by (rule Recv_learn)
  have lv: "live s (1, i)" using s(1,4) by (simp add: live_def)
  have inv: "inv s X []" using I by (simp add: sys_inv_def)
  note h = search_post_same [OF P(2) lv s(5) inv]
  have j: "j = i" "Y (1, i) = [ex_frame64]" "R = [(1, i)]"
    using h s(3) e by (simp_all add: add_req_def)
  have hit: "\<exists>j. is_hit ?e 1 (addr_of 1 2) (Some (mac_of 0x22)) s j"
    using lv s(5) by (auto simp: is_hit_def resolves_def)
  have u: "ent u (1, i) = hit_entry ?e (Some (mac_of 0x22)) (ent s (1, i))" "slots u = {(1, i)}" "live u (1, i)"
    using P(2) s(1) j(1) unfolding search_post_def if_P [OF hit] by blast+
  then have "i_lastTime (ent u (1, i)) = 100" "resolved_at u (1, i) (addr_of 1 2)" "i_hwaddr (ent u (1, i)) = mac_of 0x22"
    using s(4-6) by (simp_all add: hit_entry_def touch_def resolved_at_def)
  moreover have "same_config ex_router0 u"
    using step_config [OF st I ev] s(2) by (simp add: same_config_def)
  ultimately show ?thesis using st P(1) j u(2) by blast
qed

lemma ex_taken:
  "\<exists>p X i n. fine_run ex_moves (fine_start (in_buffer [], ex_router0)) p \<and> fine_inv p X [] \<and> \<not> stale p \<and>
     f_at p = F_write 1 i n ex_frame64 (int (length ex_frame64)) \<and> X (1, i) = [] \<and>
     resolved_at (snd (f_world p)) (1, i) (addr_of 1 2) \<and> i_lastTime (ent (snd (f_world p)) (1, i)) = 100 \<and>
     i_hwaddr (ent (snd (f_world p)) (1, i)) = mac_of 0x22 \<and> same_config ex_router0 (snd (f_world p)) \<and>
     slots (snd (f_world p)) = {(1, i)}"
proof -
  obtain buf s X i where 1: "sys_step (in_buffer [], ex_router0) (Recv 0 (ex_turn ex_frame64)) (buf, s)"
    "sys_inv (buf, s) X []" "slots s = {(1, i)}" "same_config ex_router0 s" "X (1, i) = [ex_frame64]"
    "i_flag (ent s (1, i)) = FLAG_NG" "i_addr (ent s (1, i)) = addr_of 1 2" "i_lastTime (ent s (1, i)) = 100"
    using ex_asked by blast
  obtain buf' u Y where 2: "sys_step (buf, s) (Recv 1 (ex_turn ex_reply)) (buf', u)"
    "sys_inv (buf', u) Y [(1, i)]" "Y (1, i) = [ex_frame64]" "resolved_at u (1, i) (addr_of 1 2)"
    "i_lastTime (ent u (1, i)) = 100" "i_hwaddr (ent u (1, i)) = mac_of 0x22" "same_config ex_router0 u"
    "slots u = {(1, i)}"
    using ex_replied [OF 1(2-)] by blast
  let ?p = "\<lambda>w. fine_start w"
  have net: "fine_step (Net ev) (?p w) (?p w')" if "sys_step w ev w'" "\<nexists>l m. ev = Wake l m" for w ev w'
    using fine_step.net [of "?p w" ev w'] that by (simp add: fine_start_def)
  have I: "fine_inv (?p (buf', u)) Y ((1, i) # [])" "f_at (?p (buf', u)) = F_idle"
    using 2(2) by (simp_all add: fine_inv_def fine_start_def at_ok_def)
  from takes_first [OF this 2(3)] obtain q n where q: "fine_run [Buf 0 0, Buf 0 0, Buf 0 0] (?p (buf', u)) q"
    "fine_inv q (Y((1, i) := [])) []" "\<not> stale q" "f_at q = F_write 1 i n ex_frame64 (int (length ex_frame64))"
    "qs_step u (snd (f_world q))" by (auto simp: fine_start_def)
  have "fine_run ([Net (Recv 0 (ex_turn ex_frame64))] @ [Net (Recv 1 (ex_turn ex_reply))])
      (?p (in_buffer [], ex_router0)) (?p (buf', u))"
    by (rule run_of.snoc [OF run_of_single]) (use net [OF 1(1)] net [OF 2(1)] in simp_all)
  from run_of_append [OF q(1) this] have "fine_run ex_moves (?p (in_buffer [], ex_router0)) q"
    by (simp add: ex_moves_def)
  moreover have "same_config ex_router0 (snd (f_world q))"
    using 2(7) qs_step_fields(3,5) [OF q(5)] by (simp add: same_config_def)
  ultimately show ?thesis
    using q 2(4-6,8) by (intro exI [of _ q] exI [of _ "Y((1, i) := [])"] exI [of _ i] exI [of _ n])
      (simp add: resolved_at_def qs_step_fields [OF q(5)])
qed

section \<open>Safety\<close>



end
