(* ===== verification/RacesTraffic.thy ===== *)
theory RacesTraffic
  imports RacesSend
begin

text \<open>
  What the router writes when the buffer thread is interrupted between its steps: the traffic is still
  accounted for, but a frame that was taken from its queue and is not yet written may be overtaken by
  a later one, and it goes to whatever MAC address its table entry has when it is written.
\<close>

section \<open>The specification of the fine steps\<close>

text \<open>
  The steps of the receive loop are those of \<open>spec_step\<close>. A step of the buffer thread changes nothing,
  or sends one of the frames held back, to an address announced for some neighbour on the device.
\<close>

definition some_mac :: "spec \<Rightarrow> nat \<Rightarrow> mac \<Rightarrow> bool" where
  "some_mac A d m \<longleftrightarrow> m = zero_mac \<or> (\<exists>a. ((d, a), m) \<in> set (announced A))"

inductive fine_spec :: "router \<Rightarrow> move \<Rightarrow> spec \<Rightarrow> spec \<Rightarrow> bool" for c where
  net: "spec_step c ev A B \<Longrightarrow> \<nexists>l m. ev = Wake l m \<Longrightarrow> fine_spec c (Net ev) A B"
| wait: "fine_spec c (Buf l m) A A"
| sent: "waiting A = add_mset (d, a, f) W \<Longrightarrow> some_mac A d mac \<Longrightarrow>
    fine_spec c (Buf l m) A (A\<lparr>waiting := W, log := log A @ [Send d a mac False f]\<rparr>)"

definition net_events :: "move list \<Rightarrow> event list" where
  "net_events ms = concat (map (\<lambda>mv. case mv of Net ev \<Rightarrow> [ev] | Buf l m \<Rightarrow> []) ms)"

lemma net_events_simps [simp]:
  "net_events [] = []" "net_events (ms @ ns) = net_events ms @ net_events ns"
  "net_events (Net ev # ms) = ev # net_events ms" "net_events (Buf l m # ms) = net_events ms"
  by (simp_all add: net_events_def)

lemma fine_spec_frames:
  "fine_spec c mv A B \<Longrightarrow>
   sent_frames (log B) + waiting B \<subseteq># sent_frames (log A) + waiting A + offered c (net_events [mv])"
  by (induction rule: fine_spec.induct) (simp_all add: spec_step_frames)

lemma fine_run_frames:
  "run_of (fine_spec c) ms A B \<Longrightarrow>
   sent_frames (log B) + waiting B \<subseteq># sent_frames (log A) + waiting A + offered c (net_events ms)"
proof (induction rule: run_of.induct)
  case (snoc ms A B mv C)
  have "sent_frames (log C) + waiting C \<subseteq># (sent_frames (log B) + waiting B) + offered c (net_events [mv])"
    using fine_spec_frames [OF snoc(2)] .
  also have "\<dots> \<subseteq># (sent_frames (log A) + waiting A + offered c (net_events ms)) + offered c (net_events [mv])"
    using snoc(3) by (rule subset_mset.add_right_mono)
  finally show ?case by (simp add: ac_simps)
qed simp

lemma fine_run_announced:
  "run_of (fine_spec c) ms A B \<Longrightarrow> announced B = announcements c (net_events ms) @ announced A"
proof (induction rule: run_of.induct)
  case (snoc ms A B mv C)
  from snoc(2) show ?case
  proof cases
    case (net ev)
    then show ?thesis
      using snoc(3) spec_step_announced [OF net(2)] announcements_snoc [of c "net_events ms" ev] by simp
  qed (use snoc(3) in simp_all)
qed (simp add: announcements_def)

text \<open>As \<open>justified\<close>, but the address of a frame that had to wait may be that of another neighbour.\<close>

definition fine_justified :: "router \<Rightarrow> event list \<Rightarrow> item \<Rightarrow> bool" where
  "fine_justified c evs it \<longleftrightarrow> justified c evs it \<or>
     (\<exists>d a m f. it = Send d a m False f \<and> (\<exists>a'. ((d, a'), m) \<in> set (announcements c evs)))"

lemma fine_justified_mono: "fine_justified c evs it \<Longrightarrow> fine_justified c (evs @ [ev]) it"
  using justified_mono by (auto simp: fine_justified_def announcements_snoc [of c evs])

lemma fine_run_justified:
  "run_of (fine_spec c) ms A B \<Longrightarrow> A = spec_start \<Longrightarrow> \<forall>it \<in> set (log B). fine_justified c (net_events ms) it"
proof (induction rule: run_of.induct)
  case (snoc ms A B mv C)
  have H: "announced B = announcements c (net_events ms)"
    using fine_run_announced [OF snoc(1)] snoc.prems by (simp add: spec_start_def)
  have IH: "\<forall>it \<in> set (log B). fine_justified c (net_events ms) it" using snoc by simp
  from snoc(2) show ?case
  proof cases
    case (net ev)
    obtain L where L: "log C = log B @ L" "\<forall>it \<in> set L. justified c (net_events ms @ [ev]) it"
      using spec_step_justified [OF net(2) H] by blast
    then have "\<forall>it \<in> set L. fine_justified c (net_events ms @ [ev]) it"
      by (simp add: fine_justified_def)
    with L(1) IH net(1) show ?thesis by (auto intro: fine_justified_mono)
  next
    case (sent d a f W mac l m)
    then have "fine_justified c (net_events ms) (Send d a mac False f)"
      using H by (auto simp: fine_justified_def justified_def some_mac_def)
    with sent IH show ?thesis by simp
  qed (use IH in simp)
qed (simp add: spec_start_def)

section \<open>The simulation\<close>

text \<open>The frame the buffer thread has in hand is one of those held back.\<close>

definition in_hand :: "send_at \<Rightarrow> (nat \<times> in_addr_t \<times> bytes) multiset \<Rightarrow> bool" where
  "in_hand at H \<longleftrightarrow> (case at of F_write d i n f k \<Rightarrow> \<exists>a. H = {#(d, a, f)#} | _ \<Rightarrow> H = {#})"

definition fine_rel :: "router \<Rightarrow> fine \<Rightarrow> spec \<Rightarrow> bool" where
  "fine_rel c p A \<longleftrightarrow> (\<exists>X R H. fine_inv p X R \<and> in_hand (f_at p) H \<and> same_config c (snd (f_world p)) \<and>
     shows_spec c (snd (f_world p)) X (A\<lparr>waiting := waiting A - H\<rparr>) \<and> H \<subseteq># waiting A)"

lemma fine_relI:
  "fine_inv p X R \<Longrightarrow> in_hand (f_at p) H \<Longrightarrow> same_config c (snd (f_world p)) \<Longrightarrow>
   shows_spec c (snd (f_world p)) X A \<Longrightarrow> fine_rel c p (A\<lparr>waiting := waiting A + H\<rparr>)"
  unfolding fine_rel_def by (intro exI [of _ X] exI [of _ R] exI [of _ H]) simp

text \<open>A step of the receive loop leaves further frames held back.\<close>

lemma spec_step_more:
  assumes "spec_step c ev A B" and "\<nexists>l m. ev = Wake l m"
  shows "spec_step c ev (A\<lparr>waiting := waiting A + H\<rparr>) (B\<lparr>waiting := waiting B + H\<rparr>)"
  using assms
proof (induction rule: spec_step.induct)
  case (learn ev d f a m W A)
  then show ?case
    using spec_step.learn [of c ev d f a m "W + H" "A\<lparr>waiting := waiting A + H\<rparr>"] by simp
next
  case (forward ev d f a A m W)
  then show ?case
    using spec_step.forward [of c ev d f a "A\<lparr>waiting := waiting A + H\<rparr>" m "W + H"]
    by (cases A) simp
next
  case (hold ev d f a W A L)
  then show ?case
    using spec_step.hold [of c ev d f a "W + H" "A\<lparr>waiting := waiting A + H\<rparr>" L]
    by (cases A) simp
next
  case (reply ev d f b A)
  then show ?case using spec_step.reply [of c ev d f b "A\<lparr>waiting := waiting A + H\<rparr>"]
    by (cases A) simp
qed (simp_all add: spec_step.idle spec_step.pass)

lemma refines_net:
  assumes rel: "fine_rel c p A" and st: "sys_step (f_world p) ev w" and ev: "event_ok ev" "\<nexists>l m. ev = Wake l m"
  shows "\<exists>B. fine_spec c (Net ev) A B \<and> fine_rel c (p\<lparr>f_world := w\<rparr>) B"
proof -
  obtain X R H where I: "fine_inv p X R" and h: "in_hand (f_at p) H" "H \<subseteq># waiting A"
    and cfg: "same_config c (snd (f_world p))"
    and A: "shows_spec c (snd (f_world p)) X (A\<lparr>waiting := waiting A - H\<rparr>)"
    using rel by (auto simp: fine_rel_def)
  let ?A = "A\<lparr>waiting := waiting A - H\<rparr>"
  have "spec_rel c (f_world p) ?A"
    using I cfg A spec_relI [of "fst (f_world p)" "snd (f_world p)" X R c ?A] by (simp add: fine_inv_def)
  from step_refines [OF this ev(1) st] obtain B where B: "spec_step c ev ?A B" "spec_rel c w B" by blast
  obtain Y Q where w: "sys_inv w Y Q" "same_config c (snd w)" "shows_spec c (snd w) Y B"
    using B(2) by (auto simp: spec_rel_def shows_spec_def)
  have "slots (snd (f_world p)) \<subseteq> slots (snd w)"
    using sys_step_slots [of "fst (f_world p)" "snd (f_world p)" X R ev "fst w" "snd w"] I ev st
    by (simp add: fine_inv_def)
  then have "fine_inv (p\<lparr>f_world := w\<rparr>) Y Q" using I w(1) at_ok_mono by (auto simp: fine_inv_def)
  then have "fine_rel c (p\<lparr>f_world := w\<rparr>) (B\<lparr>waiting := waiting B + H\<rparr>)"
    using h(1) w(2,3) by (intro fine_relI) simp_all
  moreover have "spec_step c ev A (B\<lparr>waiting := waiting B + H\<rparr>)"
    using spec_step_more [OF B(1) ev(2), of H] h(2) by simp
  then have "fine_spec c (Net ev) A (B\<lparr>waiting := waiting B + H\<rparr>)" using ev(2) by (rule fine_spec.net)
  ultimately show ?thesis by blast
qed

text \<open>Taking a frame from the queue of an entry\<close>

lemma held_pop:
  assumes "k \<in> slots s" and "X k = f # fs"
  shows "held s X = add_mset (fst k, i_addr (ent s k), f) (held s (X(k := fs)))"
  using held_remove [OF assms(1), of X] held_remove [OF assms(1), of "X(k := fs)"] assms(2) by simp

lemma shows_spec_qs:
  assumes "qs_step s t" and "out t = out s" and "shows_spec c s X A" and "held t Y = W"
  shows "shows_spec c t Y (A\<lparr>waiting := W\<rparr>)"
  using assms macs_ok_step [OF assms(1)] by (simp add: shows_spec_def)

lemma same_config_qs: "qs_step s t \<Longrightarrow> same_config c s \<Longrightarrow> same_config c t"
  by (simp add: same_config_def qs_step_fields)

lemma fine_relE:
  assumes "fine_rel c p A"
  obtains X R H where "fine_inv p X R" "in_hand (f_at p) H" "H \<subseteq># waiting A" "same_config c (snd (f_world p))"
    "shows_spec c (snd (f_world p)) X (A\<lparr>waiting := waiting A - H\<rparr>)"
  using assms unfolding fine_rel_def by blast

text \<open>Steps of the buffer thread without a frame in hand, before and after\<close>

lemma refines_stay:
  assumes A: "shows_spec c s X A" and cfg: "same_config c s" and I: "fine_inv q Y Q"
    and at: "in_hand (f_at q) {#}" and qs: "qs_step s (snd (f_world q))"
    and o: "out (snd (f_world q)) = out s" "held (snd (f_world q)) Y = held s X"
  shows "\<exists>B. fine_spec c (Buf l m) A B \<and> fine_rel c q B"
proof -
  have "shows_spec c (snd (f_world q)) Y A"
    using A o macs_ok_step [OF qs] by (simp add: shows_spec_def)
  with fine_relI [OF I at same_config_qs [OF qs cfg], of A] show ?thesis
    using fine_spec.wait by fastforce
qed

lemma refines_req:
  assumes I: "fine_inv p X R" and at: "f_at p = F_req" and cfg: "same_config c (snd (f_world p))"
    and A: "shows_spec c (snd (f_world p)) X A" and st: "send_step l m p = Some q"
  shows "\<exists>B. fine_spec c (Buf l m) A B \<and> fine_rel c q B"
  using I at
proof (cases rule: send_req [where lock = l and lock_sd = m])
  case no_req
  then show ?thesis
    using st I by (intro refines_stay [OF A cfg, of q X R]) (auto simp: fine_inv_def at_ok_def in_hand_def)
next
  case (req d i R' h qu)
  then have q: "q = move_to ((snd (f_world p))\<lparr>reqs := h, SendReq := qu\<rparr>)
      (F_one d i (t_size (Ip2Macs (snd (f_world p)) d))) p" using st by simp
  show ?thesis
    by (rule refines_stay [OF A cfg, of q X R'])
      (use req(3) qs_step_reqs in \<open>simp_all add: q in_hand_def held_def slots_def ent_def\<close>)
qed

lemma refines_one:
  assumes I: "fine_inv p X R" and at: "f_at p = F_one d i n" "\<not> stale p"
    and cfg: "same_config c (snd (f_world p))" and A: "shows_spec c (snd (f_world p)) X A"
    and st: "send_step l m p = Some q"
  shows "\<exists>B. fine_spec c (Buf l m) A B \<and> fine_rel c q B"
  using I at
proof (cases rule: send_one [where lock = l and lock_sd = m])
  case empty
  then show ?thesis
    using st I by (intro refines_stay [OF A cfg, of q X R]) (auto simp: fine_inv_def at_ok_def in_hand_def)
next
  case (frame f fs t)
  let ?s = "snd (f_world p)" and ?k = "(d, i)" and ?X = "X((d, i) := fs)"
  let ?H = "{#(d, i_addr (ent ?s ?k), f)#}" and ?B = "A\<lparr>waiting := held t ?X\<rparr>"
  have q: "q = move_to t (F_write d i n f (int (length f))) p" using frame(4) st by simp
  have k: "?k \<in> slots ?s" using I at(1) by (simp add: fine_inv_def at_ok_def)
  have "waiting A = held t ?X + ?H"
    using A held_pop [of ?k ?s X f fs] k frame(1) held_q_step [OF frame(2)] by (simp add: shows_spec_def)
  then have "?B\<lparr>waiting := waiting ?B + ?H\<rparr> = A" by (cases A) simp
  moreover have "shows_spec c t ?X ?B"
    using q_step_qs_step [OF frame(2)] frame(3) A by (rule shows_spec_qs) simp
  then have "fine_rel c q (?B\<lparr>waiting := waiting ?B + ?H\<rparr>)"
    using frame(5) same_config_qs [OF q_step_qs_step [OF frame(2)] cfg]
    by (intro fine_relI) (simp_all add: q in_hand_def)
  ultimately show ?thesis using fine_spec.wait by metis
qed

lemma refines_write:
  assumes I: "fine_inv p X R" and at: "f_at p = F_write d i n f k" "\<not> stale p"
    and cfg: "same_config c (snd (f_world p))" and W: "waiting A = add_mset (d, a, f) W"
    and A: "shows_spec c (snd (f_world p)) X (A\<lparr>waiting := W\<rparr>)" and st: "send_step l m p = Some q"
  shows "\<exists>B. fine_spec c (Buf l m) A B \<and> fine_rel c q B"
proof -
  let ?s = "snd (f_world p)" and ?mac = "i_hwaddr (ent (snd (f_world p)) (d, i))"
  let ?t = "?s\<lparr>out := out ?s @ [(soc (Device ?s d), fwd_frame ?mac None f)]\<rparr>"
  let ?B = "A\<lparr>waiting := W, log := log A @ [Send d a ?mac False f]\<rparr>"
  note w = send_write [OF I at refl refl]
  have q: "q = move_to ?t (F_one d i n) p" using w(1) st by simp
  have k: "(d, i) \<in> slots ?s" using I at(1) by (simp add: fine_inv_def at_ok_def)
  have "macs_ok ?s (announced A)" using A by (simp add: shows_spec_def)
  from macs_okD(1) [OF this k] have "some_mac A d ?mac" by (auto simp: some_mac_def)
  with W have "fine_spec c (Buf l m) A ?B" by (rule fine_spec.sent)
  moreover have "shows_spec c ?t X ?B" using A cfg by (simp add: shows_spec_def same_config_def)
  then have "fine_rel c q (?B\<lparr>waiting := waiting ?B + {#}\<rparr>)"
    using w(2) cfg by (intro fine_relI) (simp_all add: q in_hand_def same_config_def)
  moreover have "?B\<lparr>waiting := waiting ?B + {#}\<rparr> = ?B" by (cases A) simp
  ultimately show ?thesis by metis
qed

lemma refines_buf:
  assumes rel: "fine_rel c p A" and st: "send_step l m p = Some q"
  shows "\<exists>B. fine_spec c (Buf l m) A B \<and> fine_rel c q B"
  using rel
proof (rule fine_relE)
  fix X R H
  assume I: "fine_inv p X R" and h: "in_hand (f_at p) H" "H \<subseteq># waiting A" and cfg: "same_config c (snd (f_world p))"
    and A: "shows_spec c (snd (f_world p)) X (A\<lparr>waiting := waiting A - H\<rparr>)"
  have ok: "\<not> stale p" using st stale_undefined by auto
  have none: "shows_spec c (snd (f_world p)) X A" if "H = {#}" using A that by simp
  show ?thesis
  proof (cases "f_at p")
    case F_idle
    then have "q = move_to (snd (f_world p)) F_req p" "H = {#}" using st h(1) by (simp_all add: send_step_def in_hand_def)
    then show ?thesis
      using I by (intro refines_stay [OF none cfg, of q X R]) (simp_all add: fine_inv_def at_ok_def in_hand_def)
  next
    case F_req
    then show ?thesis using refines_req [OF I _ cfg none st] h(1) by (simp add: in_hand_def)
  next
    case (F_one d i n)
    then show ?thesis using refines_one [OF I F_one ok cfg none st] h(1) by (simp add: in_hand_def)
  next
    case (F_write d i n f k)
    then obtain a where H: "H = {#(d, a, f)#}" using h(1) by (auto simp: in_hand_def)
    then have "waiting A = add_mset (d, a, f) (waiting A - H)" using h(2) by simp
    from refines_write [OF I F_write ok cfg this _ st] A H show ?thesis by simp
  qed
qed

lemma fine_refines:
  assumes "fine_rel c p A" and "move_ok mv" and "fine_step mv p q"
  shows "\<exists>B. fine_spec c mv A B \<and> fine_rel c q B"
  using assms(3)
proof cases
  case (net ev w)
  with refines_net [OF assms(1) net(3)] assms(2) show ?thesis by simp
next
  case (buf lock lock_sd)
  with refines_buf [OF assms(1) buf(2)] show ?thesis by simp
qed

interpretation fine_sim: simulation fine_step "fine_spec c" "fine_rel c" move_ok for c
  by unfold_locales (rule fine_refines)

lemma fine_rel_start:
  assumes "initial s" and "length buf = 2048"
  shows "fine_rel s (fine_start (buf, s)) spec_start"
proof -
  obtain X R where "sys_inv (buf, s) X R" "same_config s s" "shows_spec s s X spec_start"
    using spec_rel_start [OF assms] by (auto simp: spec_rel_def shows_spec_def)
  then have "fine_rel s (fine_start (buf, s)) (spec_start\<lparr>waiting := waiting spec_start + {#}\<rparr>)"
    by (intro fine_relI) (simp_all add: fine_inv_def fine_start_def at_ok_def in_hand_def)
  then show ?thesis by simp
qed

text \<open>C21: Also when the buffer thread is interrupted between its steps, all that the router writes is
  accounted for: each frame was received for the next hop it was to go to, and no frame is sent more
  often than it was received. A frame sent at once goes to a MAC address announced for its next hop;
  one that waited goes to an address announced for some neighbour on its device, or to the null
  address.\<close>

theorem fine_traffic:
  assumes "initial s" and "length buf = 2048" and "\<forall>mv \<in> set ms. move_ok mv"
    and "fine_run ms (fine_start (buf, s)) p"
  shows "\<exists>L. out (snd (f_world p)) = out s @ map (render s) L \<and>
    sent_frames L \<subseteq># offered s (net_events ms) \<and> (\<forall>it \<in> set L. fine_justified s (net_events ms) it)"
proof -
  obtain A where A: "run_of (fine_spec s) ms spec_start A" "fine_rel s p A"
    using fine_sim.runs [OF assms(4,3) fine_rel_start [OF assms(1,2)]] by blast
  have "sent_frames (log A) + waiting A \<subseteq># offered s (net_events ms)"
    using fine_run_frames [OF A(1)] by (simp add: spec_start_def)
  then have "sent_frames (log A) \<subseteq># offered s (net_events ms)"
    by (rule subset_mset.order_trans [rotated]) simp
  moreover have "out (snd (f_world p)) = out s @ map (render s) (log A)"
    using A(2) by (auto elim!: fine_relE simp: shows_spec_def)
  ultimately show ?thesis using fine_run_justified [OF A(1) refl] by blast
qed

theorem fine_traffic_witness:
  "\<exists>p L. fine_run ex_moves (fine_start (in_buffer [], ex_router0)) p \<and> out (snd (f_world p)) = map (render ex_router0) L \<and>
     sent_frames L \<subseteq># {#(1, addr_of 1 2, ex_frame64)#}"
proof -
  obtain p where p: "fine_run ex_moves (fine_start (in_buffer [], ex_router0)) p" using ex_taken by blast
  have "length (in_buffer []) = 2048" by simp
  from fine_traffic [OF ex_router0_initial this ex_moves_ok p] obtain L where
    "out (snd (f_world p)) = map (render ex_router0) L" "sent_frames L \<subseteq># offered ex_router0 (net_events ex_moves)"
    by auto
  moreover have "offered ex_router0 (net_events ex_moves) = {#(1, addr_of 1 2, ex_frame64)#}"
    using ex_received by (simp add: ex_moves_def offered_def offer_list_def)
  ultimately show ?thesis using p by metis
qed

section \<open>Overtaking\<close>

text \<open>A search that finds an entry leaves the array where it is.\<close>

lemma hit_keeps_array:
  assumes S: "search_post e d a hw s X R i t X' R'" and inv: "inv s X R" and k: "(d, i) \<in> slots s" and l: "l < 2"
  shows "t_size (Ip2Macs t l) = t_size (Ip2Macs s l)"
proof (rule ccontr)
  assume "t_size (Ip2Macs t l) \<noteq> t_size (Ip2Macs s l)"
  moreover have "table_post s t" "slots t = slots s" using S k by (auto simp: search_post_def)
  ultimately have "t_no (Ip2Macs s l) = t_size (Ip2Macs s l)" "live t (l, t_size (Ip2Macs s l))"
    using l unfolding table_post_def by auto
  then have "(l, t_no (Ip2Macs s l)) \<in> slots s" using live_slot \<open>slots t = slots s\<close> by metis
  then show False using inv l by (auto simp: slots_def inv_def tables_ok_def)
qed

text \<open>A frame for a resolved entry without waiting frames is sent at once.\<close>

lemma Recv_sends:
  assumes I: "sys_inv (buf, s) X R" and ev: "event_ok (Recv d t)" and k: "resolved_at s (other d, i) a" "X (other d, i) = []"
    and r: "received s (Recv d t) = Some (d, g, Forward a)"
  shows "\<exists>buf' u. sys_step (buf, s) (Recv d t) (buf', u) \<and>
    out u = out s @ [(soc (Device s (other d)),
      fwd_frame (i_hwaddr (ent s (other d, i))) (Some (hwaddr (Device s (other d)))) g)] \<and>
    i_hwaddr (ent u (other d, i)) = i_hwaddr (ent s (other d, i)) \<and> Device u = Device s \<and>
    t_size (Ip2Macs u (other d)) = t_size (Ip2Macs s (other d))"
proof -
  have cfg: "same_config s s" and inv: "inv s X R" using I by (simp_all add: same_config_def sys_inv_def)
  obtain buf' u where st: "sys_step (buf, s) (Recv d t) (buf', u)" using sys_step_ok [OF I ev] by auto
  obtain rest v X' R' where "complete g"
    "forward_post (t_os t d) (other d) a (g @ rest) (length g) s X R v buf' u X' R'"
    using I cfg ev st r by (rule Recv_forward)
  from this(2) cfg this(1) show ?thesis
  proof (cases rule: forward_cases)
    case (sent j t' X1)
    note h = search_resolved_hit [OF sent(1) inv k(1)]
    have k': "(other d, j) \<in> slots s" using k(1) h(1) by (simp add: resolved_at_def live_slot)
    have "t_size (Ip2Macs t' (other d)) = t_size (Ip2Macs s (other d))"
      using hit_keeps_array [OF sent(1) inv k'] k' by (simp add: slots_def)
    moreover have "Device t' = Device s" using search_post_world [OF sent(1)] by (simp add: same_world_def)
    ultimately show ?thesis
      using st sent(4) h(1,2) by (intro exI [of _ buf'] exI [of _ u]) simp
  next
    case (waits j t' X1 L)
    with search_resolved_hit [OF waits(1) inv k(1)] k(2) show ?thesis by (simp add: ready_def)
  qed
qed

text \<open>A step of the receive loop while the buffer thread has a frame in hand, which it then writes\<close>

lemma writes_after:
  assumes I: "fine_inv p X R" and at: "f_at p = F_write d i n f k" and good: "\<not> stale p"
    and st: "sys_step (f_world p) ev w" and ev: "event_ok ev" "\<nexists>l m. ev = Wake l m"
    and size: "t_size (Ip2Macs (snd w) d) = t_size (Ip2Macs (snd (f_world p)) d)"
  shows "\<exists>q. fine_run [Net ev, Buf lock lock_sd] p q \<and> out (snd (f_world q)) =
    out (snd w) @ [(soc (Device (snd w) d), fwd_frame (i_hwaddr (ent (snd w) (d, i))) None f)]"
proof -
  let ?q = "p\<lparr>f_world := w\<rparr>"
  have 1: "fine_step (Net ev) p ?q" using st ev(2) by (rule fine_step.net)
  obtain Y Q where I': "fine_inv ?q Y Q" using fine_step_inv [OF 1 _ I] ev by auto
  have "\<not> stale ?q" using good at size by (simp add: stale_def)
  from send_write(1) [OF I' _ this refl refl] at obtain v where
    2: "fine_step (Buf lock lock_sd) ?q v" "out (snd (f_world v)) = out (snd w) @
      [(soc (Device (snd w) d), fwd_frame (i_hwaddr (ent (snd w) (d, i))) None f)]"
    by (simp add: fine_step_simps)
  with run_of.snoc [OF run_of_single [of fine_step, OF 1] 2(1)] show ?thesis
    by (intro exI [of _ v]) simp
qed

text \<open>C22: While the buffer thread has taken the last waiting frame for a next hop and not written it, the
  receive loop finds the queue empty and sends a frame that arrives then at once: it overtakes the
  older frame.\<close>

theorem frame_overtaken:
  assumes I: "fine_inv p X R" and at: "f_at p = F_write (other d) i n f k" and good: "\<not> stale p"
    and s: "s = snd (f_world p)" and res: "resolved_at s (other d, i) a" "X (other d, i) = []"
    and ev: "event_ok (Recv d t)" and r: "received s (Recv d t) = Some (d, g, Forward a)"
  shows "\<exists>q. fine_run [Net (Recv d t), Buf lock lock_sd] p q \<and> out (snd (f_world q)) = out s @
      [(soc (Device s (other d)), fwd_frame (i_hwaddr (ent s (other d, i))) (Some (hwaddr (Device s (other d)))) g),
       (soc (Device s (other d)), fwd_frame (i_hwaddr (ent s (other d, i))) None f)]"
proof -
  obtain buf where w: "f_world p = (buf, s)" using s by (cases "f_world p") simp
  have J: "sys_inv (buf, s) X R" using I w by (simp add: fine_inv_def)
  obtain buf' u where u: "sys_step (buf, s) (Recv d t) (buf', u)"
    "out u = out s @ [(soc (Device s (other d)),
      fwd_frame (i_hwaddr (ent s (other d, i))) (Some (hwaddr (Device s (other d)))) g)]"
    "i_hwaddr (ent u (other d, i)) = i_hwaddr (ent s (other d, i))" "Device u = Device s"
    "t_size (Ip2Macs u (other d)) = t_size (Ip2Macs s (other d))"
    using Recv_sends [OF J ev res r] by blast
  have "sys_step (f_world p) (Recv d t) (buf', u)" using u(1) w by simp
  from writes_after [OF I at good this ev] u(2-5) s show ?thesis by simp
qed

definition ex_frame63 :: bytes where "ex_frame63 = ex_packet 63 249 111"

lemma ex_frame63_parts:
  "length ex_frame63 = 54" "ip_ihl (ip_of ex_frame63) = 5" "ip_ttl (ip_of ex_frame63) = 63"
  "ip_daddr (ip_of ex_frame63) = addr_of 1 2"
  "eh_of ex_frame63 = \<lparr>ether_dhost = mac_of 1, ether_shost = mac_of 0x11, ether_type = 8\<rparr>"
  by (simp_all add: ip_of_def dec_iphdr_def eh_of_def dec_ether_header_def field_at ex_frame63_def ex_packet_def
      addr_of_def mac_of_def lo_nibble_def le16_def)

lemma ex_frame63_ok: "complete ex_frame63" "header_ok ex_frame63"
  by (simp_all add: complete_def header_ok_def opts_of_def ex_frame63_parts option_len_eq)
    (simp_all add: ex_frame63_def ex_packet_def)

lemma ex_frame63_received:
  assumes "same_config ex_router0 s"
  shows "received s (Recv 0 (ex_turn ex_frame63)) = Some (0, ex_frame63, Forward (addr_of 1 2))"
proof -
  have "Device s = ex_device" using assms by (simp add: same_config_def)
  then have "classify s 0 ex_frame63 (length ex_frame63) = Forward (addr_of 1 2)"
    using ex_net by (simp add: classify_def classify_ip_def ex_frame63_parts ex_frame63_ok ex_device_def next_hop_addr_def)
  then show ?thesis by (simp add: ex_turn_def ex_frame63_parts flip: length_greater_0_conv)
qed

lemma ex_frame63_event: "event_ok (Recv 0 (ex_turn ex_frame63))"
  by (simp add: recv_ok_def ex_turn_def ex_frame63_parts ex_frame63_ok)

theorem frame_overtaken_witness:
  "\<exists>q l. fine_run (ex_moves @ [Net (Recv 0 (ex_turn ex_frame63)), Buf 0 0]) (fine_start (in_buffer [], ex_router0)) q \<and>
     out (snd (f_world q)) = l @ [(4, fwd_frame (mac_of 0x22) (Some (mac_of 2)) ex_frame63),
       (4, fwd_frame (mac_of 0x22) None ex_frame64)]"
proof -
  obtain p X i n where p: "fine_run ex_moves (fine_start (in_buffer [], ex_router0)) p" "fine_inv p X []" "\<not> stale p"
    "f_at p = F_write 1 i n ex_frame64 (int (length ex_frame64))" "X (1, i) = []"
    "resolved_at (snd (f_world p)) (1, i) (addr_of 1 2)"
    "i_hwaddr (ent (snd (f_world p)) (1, i)) = mac_of 0x22" "same_config ex_router0 (snd (f_world p))"
    using ex_taken by blast
  have at: "f_at p = F_write (other 0) i n ex_frame64 (int (length ex_frame64))"
    and res: "resolved_at (snd (f_world p)) (other 0, i) (addr_of 1 2)" "X (other 0, i) = []"
    using p(4-6) by simp_all
  from frame_overtaken [OF p(2) at p(3) refl res ex_frame63_event ex_frame63_received [OF p(8)], of 0 0]
  obtain q where "fine_run [Net (Recv 0 (ex_turn ex_frame63)), Buf 0 0] p q"
    "out (snd (f_world q)) = out (snd (f_world p)) @
      [(4, fwd_frame (mac_of 0x22) (Some (mac_of 2)) ex_frame63), (4, fwd_frame (mac_of 0x22) None ex_frame64)]"
    using p(7,8) by (auto simp: same_config_def ex_device_def)
  with run_of_append [OF this(1) p(1)] show ?thesis by blast
qed

section \<open>The wrong neighbour\<close>

text \<open>C23: The MAC address is read after the frame was taken from the queue. If the entry has expired and an
  ARP packet of another neighbour, which then gets its place in the table, is handled in between, the
  frame is sent to that neighbour.\<close>

theorem frame_to_wrong_neighbour:
  assumes I: "fine_inv p X R" and at: "f_at p = F_write d i n f k" and good: "\<not> stale p"
    and s: "s = snd (f_world p)" and only: "\<forall>j. (d, j) \<in> slots s \<longrightarrow> j = i"
    and old: "expired (o_now (t_os t d)) (ent s (d, i))" and b: "i_addr (ent s (d, i)) \<noteq> b"
    and ev: "event_ok (Recv d t)" and r: "received s (Recv d t) = Some (d, g, Learn b m)"
  shows "\<exists>q. fine_run [Net (Recv d t), Buf lock lock_sd] p q \<and>
    out (snd (f_world q)) = out s @ [(soc (Device s d), fwd_frame m None f)]"
proof -
  obtain buf where w: "f_world p = (buf, s)" using s by (cases "f_world p") simp
  have J: "sys_inv (buf, s) X R" "inv s X R" "(d, i) \<in> slots s"
    using I w at by (simp_all add: fine_inv_def sys_inv_def at_ok_def)
  have cfg: "same_config s s" by (simp add: same_config_def)
  obtain buf' u where st: "sys_step (buf, s) (Recv d t) (buf', u)" using sys_step_ok [OF J(1) ev] by auto
  obtain j X' R' where S: "search_post (t_os t d) d b (Some m) s X R j u X' R'"
    using J(1) cfg ev st r by (rule Recv_learn)
  have u: "i_hwaddr (ent u (d, i)) = m" "out u = out s" "Device u = Device s"
    using search_takes_place [OF S J(3) only old b] search_post_out [OF S] search_post_world [OF S]
    by (simp_all add: init_entry_def same_world_def)
  have "j = i" "d < 2" using search_takes_place [OF S J(3) only old b] J(3) by (simp_all add: slots_def)
  then have "t_size (Ip2Macs u d) = t_size (Ip2Macs s d)" using hit_keeps_array [OF S J(2)] J(3) by simp
  moreover have "sys_step (f_world p) (Recv d t) (buf', u)" using st w by simp
  from writes_after [OF I at good this ev] calculation u s show ?thesis by simp
qed

text \<open>The ARP reply of 192.168.1.3\<close>

definition ex_reply3 :: bytes where
  "ex_reply3 = [2, 0, 0, 0, 0, 2, 2, 0, 0, 0, 0, 0x33, 8, 6,
     0, 1, 8, 0, 6, 4, 0, 2, 2, 0, 0, 0, 0, 0x33, 192, 168, 1, 3, 2, 0, 0, 0, 0, 2, 192, 168, 1, 1]"

lemma ex_reply3_parts:
  "length ex_reply3 = 42"
  "eh_of ex_reply3 = \<lparr>ether_dhost = mac_of 2, ether_shost = mac_of 0x33, ether_type = 0x608\<rparr>"
  "arp_op (arp_of ex_reply3) = htons ARPOP_REPLY" "arp_sha (arp_of ex_reply3) = mac_of 0x33"
  "in_addr_of (arp_spa (arp_of ex_reply3)) = addr_of 1 3"
  by (simp_all add: eh_of_def dec_ether_header_def arp_of_def dec_ether_arp_def field_at ex_reply3_def
      addr_of_def mac_of_def ether_consts htons_def le16_def)

lemma ex_reply3_received:
  assumes "same_config ex_router0 s"
  shows "received s (Recv 1 (ex_late ex_reply3)) = Some (1, ex_reply3, Learn (addr_of 1 3) (mac_of 0x33))"
proof -
  have "Device s = ex_device" using assms by (simp add: same_config_def)
  then have "classify s 1 ex_reply3 (length ex_reply3) = Learn (addr_of 1 3) (mac_of 0x33)"
    by (simp add: classify_def ex_reply3_parts ex_device_def)
  then show ?thesis by (simp add: ex_late_def ex_turn_def ex_reply3_parts flip: length_greater_0_conv)
qed

lemma ex_reply3_event: "event_ok (Recv 1 (ex_late ex_reply3))"
  by (simp add: ex_late_ok) (simp add: recv_ok_def ex_turn_def ex_reply3_parts)

theorem frame_to_wrong_neighbour_witness:
  "\<exists>q l. fine_run (ex_moves @ [Net (Recv 1 (ex_late ex_reply3)), Buf 0 0]) (fine_start (in_buffer [], ex_router0)) q \<and>
     out (snd (f_world q)) = l @ [(4, fwd_frame (mac_of 0x33) None ex_frame64)]"
proof -
  obtain p X i n where p: "fine_run ex_moves (fine_start (in_buffer [], ex_router0)) p" "fine_inv p X []" "\<not> stale p"
    "f_at p = F_write 1 i n ex_frame64 (int (length ex_frame64))"
    "resolved_at (snd (f_world p)) (1, i) (addr_of 1 2)" "i_lastTime (ent (snd (f_world p)) (1, i)) = 100"
    "same_config ex_router0 (snd (f_world p))" "slots (snd (f_world p)) = {(1, i)}"
    using ex_taken by blast
  let ?s = "snd (f_world p)"
  have old: "expired (o_now (t_os (ex_late ex_reply3) 1)) (ent ?s (1, i))"
    using p(5,6) by (simp add: ex_late_def expired_def resolved_at_def IP2MAC_TIMEOUT_SEC_def)
  have "i_addr (ent ?s (1, i)) \<noteq> addr_of 1 3" "\<forall>j. (1, j) \<in> slots ?s \<longrightarrow> j = i"
    using p(5,8) by (simp_all add: resolved_at_def addr_of_def le32_def)
  from frame_to_wrong_neighbour [OF p(2,4,3) refl this(2) old this(1) ex_reply3_event ex_reply3_received [OF p(7)], of 0 0]
  obtain q where "fine_run [Net (Recv 1 (ex_late ex_reply3)), Buf 0 0] p q"
    "out (snd (f_world q)) = out ?s @ [(4, fwd_frame (mac_of 0x33) None ex_frame64)]"
    using p(7) by (auto simp: same_config_def ex_device_def)
  with run_of_append [OF this(1) p(1)] show ?thesis by blast
qed

end
