(* ===== verification/RacesEnd.thy ===== *)
theory RacesEnd
  imports RacesSend
begin

text \<open>
  The inner loops of the buffer thread end: once awake, and left alone by the receive loop, the thread
  takes a bounded number of steps until it waits again, whatever the outcomes of its locks.
\<close>

inductive busy :: "fine \<Rightarrow> fine \<Rightarrow> bool" where
  "f_at p \<noteq> F_idle \<Longrightarrow> send_step lock lock_sd p = Some q \<Longrightarrow> busy p q"

text \<open>
  The steps left: two for each request (taking it, and finding the queue empty), two for each frame in its
  queue (taking and writing it), and one to find no request.
\<close>

definition queue_work :: "(nat \<times> nat \<Rightarrow> bytes list) \<Rightarrow> (nat \<times> nat) list \<Rightarrow> nat" where
  "queue_work X R = sum_list (map (\<lambda>k. 2 + 2 * length (X k)) R)"

definition work :: "(nat \<times> nat \<Rightarrow> bytes list) \<Rightarrow> (nat \<times> nat) list \<Rightarrow> send_at \<Rightarrow> nat" where
  "work X R at = (case at of
     F_idle \<Rightarrow> 0
   | F_req \<Rightarrow> 1 + queue_work X R
   | F_one d i n \<Rightarrow> 2 + 2 * length (X (d, i)) + queue_work X R
   | F_write d i n f k \<Rightarrow> 3 + 2 * length (X (d, i)) + queue_work X R)"

lemma queue_work_mono: "length fs \<le> length (X k) \<Longrightarrow> queue_work (X(k := fs)) R \<le> queue_work X R"
  unfolding queue_work_def by (intro sum_list_mono) simp

lemma busy_work:
  assumes "busy p q" and I: "fine_inv p X R"
  shows "\<exists>Y Q. fine_inv q Y Q \<and> work Y Q (f_at q) < work X R (f_at p)"
  using assms(1)
proof cases
  case (1 lock lock_sd)
  note st = 1(2)
  have ok: "\<not> stale p" using st stale_undefined by auto
  show ?thesis
  proof (cases "f_at p")
    case F_req
    with I show ?thesis
    proof (cases rule: send_req [where lock = lock and lock_sd = lock_sd])
      case no_req
      then have "f_at q = F_idle" "fine_inv q X R" using st I by (auto simp: fine_inv_def at_ok_def)
      then show ?thesis using F_req by (intro exI [of _ X] exI [of _ R] conjI) (simp_all add: work_def)
    next
      case (req d i R' h qu)
      then have "fine_inv q X R'" "f_at q = F_one d i (t_size (Ip2Macs (snd (f_world p)) d))" using st by auto
      then show ?thesis using F_req req(1) by (intro exI [of _ X] exI [of _ R'] conjI) (simp_all add: work_def queue_work_def)
    qed
  next
    case (F_one d i n)
    with I show ?thesis using ok
    proof (cases rule: send_one [where lock = lock and lock_sd = lock_sd])
      case empty
      then have "f_at q = F_req" "fine_inv q X R" using st I by (auto simp: fine_inv_def at_ok_def)
      then show ?thesis using F_one by (intro exI [of _ X] exI [of _ R] conjI) (simp_all add: work_def)
    next
      case (frame f fs t)
      then have "fine_inv q (X((d, i) := fs)) R" "f_at q = F_write d i n f (int (length f))" using st by auto
      moreover have "queue_work (X((d, i) := fs)) R \<le> queue_work X R"
        using frame(1) by (intro queue_work_mono) simp
      ultimately show ?thesis using F_one frame(1)
        by (intro exI [of _ "X((d, i) := fs)"] exI [of _ R] conjI) (simp_all add: work_def)
    qed
  next
    case (F_write d i n f k)
    then have "fine_inv q X R" "f_at q = F_one d i n"
      using send_write [OF I F_write ok refl refl] st by auto
    then show ?thesis using F_write by (intro exI [of _ X] exI [of _ R] conjI) (simp_all add: work_def)
  qed (use 1 in simp)
qed

lemma busy_bounded: "(busy ^^ m) p q \<Longrightarrow> fine_inv p X R \<Longrightarrow> m \<le> work X R (f_at p)"
proof (induction m arbitrary: p X R)
  case (Suc m)
  then obtain r where r: "busy p r" "(busy ^^ m) r q" by (metis relpowp_Suc_D2)
  from busy_work [OF r(1) Suc.prems(2)] obtain Y Q where
    "fine_inv r Y Q" "work Y Q (f_at r) < work X R (f_at p)" by blast
  with Suc.IH [OF r(2)] show ?case by fastforce
qed simp

lemma busy_ends:
  "fine_inv p X R \<Longrightarrow> \<not> stale p \<Longrightarrow> \<exists>m q. (busy ^^ m) p q \<and> f_at q = F_idle"
proof (induction "work X R (f_at p)" arbitrary: p X R rule: less_induct)
  case less
  show ?case
  proof (cases "f_at p = F_idle")
    case True
    then show ?thesis by (intro exI [of _ 0] exI [of _ p]) simp
  next
    case False
    obtain q where q: "send_step 0 0 p = Some q" "\<not> stale q" using fine_buf [OF less(2,3), of 0 0] by blast
    then have b: "busy p q" using False by (intro busy.intros)
    obtain Y Q where "fine_inv q Y Q" "work Y Q (f_at q) < work X R (f_at p)"
      using busy_work [OF b less(2)] by blast
    from less(1) [OF this(2,1) q(2)] obtain m r where "(busy ^^ m) q r" "f_at r = F_idle" by blast
    then show ?thesis using b relpowp_Suc_I2 by metis
  qed
qed

text \<open>C20: In every state the finer steps reach there is a number of steps that the buffer thread, left alone,
  does not exceed before it waits again, whatever the outcomes of its locks; and with a good pointer it
  can go on until it waits. So no wake-up runs forever.\<close>

theorem wake_up_ends:
  assumes "initial s" and "length buf = 2048" and "\<forall>mv \<in> set ms. move_ok mv"
    and "fine_run ms (fine_start (buf, s)) p"
  shows "(\<exists>n. \<forall>m q. (busy ^^ m) p q \<longrightarrow> m \<le> n) \<and>
    (\<not> stale p \<longrightarrow> (\<exists>m q. (busy ^^ m) p q \<and> f_at q = F_idle))"
proof -
  obtain X R where "fine_inv p X R"
    using fine_run_inv [OF assms(4,3) fine_start_inv [OF assms(1,2)]] by blast
  then show ?thesis using busy_bounded busy_ends by blast
qed

theorem wake_up_ends_witness:
  "\<exists>p. fine_run ex_moves (fine_start (in_buffer [], ex_router0)) p \<and> f_at p \<noteq> F_idle \<and>
     (\<exists>m q. (busy ^^ m) p q \<and> f_at q = F_idle)"
proof -
  obtain p i n where p: "fine_run ex_moves (fine_start (in_buffer [], ex_router0)) p" "\<not> stale p"
    "f_at p = F_write 1 i n ex_frame64 (int (length ex_frame64))" using ex_taken by blast
  have "length (in_buffer []) = 2048" by simp
  from wake_up_ends [OF ex_router0_initial this ex_moves_ok p(1)] p show ?thesis by (metis send_at.distinct(6))
qed

end
