(* ===== verification/Bridge.thy ===== *)
theory Bridge
  imports NetUtil
begin

text \<open>
  \<open>bridge/main.c\<close>, the learning-free bridge: what is read from one device is written to the other.
  Its \<open>netutil.c\<close> repeats \<open>InitRawSocket\<close> of the router and has its own \<open>PrintEtherHeader\<close>.
\<close>

definition bridge_InitRawSocket :: "raw_env \<Rightarrow> string \<Rightarrow> bool \<Rightarrow> bool \<Rightarrow> int \<times> syscall list" where
  "bridge_InitRawSocket = InitRawSocket"

definition bridge_my_ether_ntoa_r :: "mac \<Rightarrow> nat \<Rightarrow> string" where
  "bridge_my_ether_ntoa_r hwaddr size' = snprintf size' (mac_str hwaddr)"

text \<open>The same text is printed by \<open>pcap/print.c\<close>.\<close>

definition bridge_PrintEtherHeader :: "ether_header \<Rightarrow> string" where
  "bridge_PrintEtherHeader eh =
     ''ether_header-----------------------'' @ nl @
     ''ether_dhost='' @ bridge_my_ether_ntoa_r (ether_dhost eh) 80 @ nl @
     ''ether_shost='' @ bridge_my_ether_ntoa_r (ether_shost eh) 80 @ nl @
     ''ether_type='' @ pad2 (upper_hex_str (unat (ntohs (ether_type eh)))) @ nl @
     ether_type_name (ntohs (ether_type eh)) @ nl"

section \<open>State\<close>

text \<open>\<open>b_out\<close> is the log of frames written; \<open>b_err\<close> what \<open>AnalyzePacket\<close> prints to \<open>stderr\<close>.\<close>

record bridge =
  b_soc :: "nat \<Rightarrow> int"
  b_DebugOut :: bool
  b_EndFlag :: bool
  b_out :: sent
  b_err :: string

definition bridge_DebugPrintf :: "string \<Rightarrow> bridge \<Rightarrow> bridge" where
  "bridge_DebugPrintf text s = (if b_DebugOut s then s\<lparr>b_err := b_err s @ text\<rparr> else s)"

text \<open>Nothing calls it; \<open>str\<close> is \<open>strerror\<close>.\<close>

definition bridge_DebugPerror :: "(int \<Rightarrow> string) \<Rightarrow> int \<Rightarrow> string \<Rightarrow> bridge \<Rightarrow> bridge" where
  "bridge_DebugPerror str errno msg s =
     (if b_DebugOut s then s\<lparr>b_err := b_err s @ msg @ '' : '' @ str errno @ nl\<rparr> else s)"

section \<open>The code\<close>

definition bridge_AnalyzePacket :: "nat \<Rightarrow> bytes \<Rightarrow> int \<Rightarrow> bridge \<Rightarrow> (int \<times> bridge) option" where
  "bridge_AnalyzePacket deviceNo data size' s =
     (let lest = size'
      in if lt_sizeof lest 14 then
           Some (-1, bridge_DebugPrintf (''['' @ dec_str deviceNo @ '']:lest('' @ int_str lest @
             '') < sizeof(struct ether_header)'' @ nl) s)
         else do {
           bs \<leftarrow> mread data 0 14;
           let s = bridge_DebugPrintf (''['' @ dec_str deviceNo @ '']'') s;
           let s = (if b_DebugOut s
                    then s\<lparr>b_err := b_err s @ bridge_PrintEtherHeader (dec_ether_header bs)\<rparr> else s);
           Some (0, s)
         })"

record bturn =
  bt_poll :: int
  bt_revents :: "nat \<Rightarrow> u16"
  bt_read :: "nat \<Rightarrow> int \<times> bytes"
  bt_signal :: bool

definition POLLIN :: u16 where "POLLIN = 1"
definition POLLERR :: u16 where "POLLERR = 8"

text \<open>\<open>POLLIN || POLLERR\<close> is the logical disjunction: 1.\<close>

definition bridge_mask :: u16 where
  "bridge_mask = (if POLLIN \<noteq> 0 \<or> POLLERR \<noteq> 0 then 1 else 0)"

definition bridge_recv :: "bturn \<Rightarrow> nat \<Rightarrow> bytes \<times> bridge \<Rightarrow> (bytes \<times> bridge) option" where
  "bridge_recv t i = (\<lambda>(buf, s).
     if bt_revents t i AND bridge_mask \<noteq> 0 then do {
       let (size', bs) = bt_read t i;
       (if size' \<le> 0 then Some (buf, s)
        else do {
          buf \<leftarrow> mwrite buf 0 bs;
          (r, s) \<leftarrow> bridge_AnalyzePacket i buf size' s;
          (if r \<noteq> -1 then do {
             f \<leftarrow> mread buf 0 (nat size');
             Some (buf, s\<lparr>b_out := sock_write (b_soc s (if i = 0 then 1 else 0)) f (b_out s)\<rparr>)
           } else Some (buf, s))
        })
     } else Some (buf, s))"

definition bridge_turn :: "bturn \<Rightarrow> bytes \<times> bridge \<Rightarrow> (bytes \<times> bridge) option" where
  "bridge_turn t x =
     (if bt_poll t = -1 \<or> bt_poll t = 0 then Some x
      else do { x \<leftarrow> bridge_recv t 0 x; bridge_recv t 1 x })"

definition bridge_EndSignal :: "bridge \<Rightarrow> bridge" where
  "bridge_EndSignal s = s\<lparr>b_EndFlag := True\<rparr>"

fun Bridge :: "bturn list \<Rightarrow> bytes \<times> bridge \<Rightarrow> (bytes \<times> bridge) option" where
  "Bridge [] x = Some x"
| "Bridge (t # ts) x =
     (if b_EndFlag (snd x) then Some x
      else do {
        (buf, s) \<leftarrow> bridge_turn t x;
        Bridge ts (buf, if bt_signal t then bridge_EndSignal s else s)
      })"

section \<open>What it forwards\<close>

text \<open>The frames of one turn that go to the other device, and the turns that are executed\<close>

definition bridged :: "(nat \<Rightarrow> int) \<Rightarrow> bturn \<Rightarrow> nat \<Rightarrow> sent" where
  "bridged so t i =
     (let (n, bs) = bt_read t i
      in if bt_poll t \<noteq> -1 \<and> bt_poll t \<noteq> 0 \<and> odd (unat (bt_revents t i)) \<and> 14 \<le> n
         then [(so (1 - i), bs)] else [])"

fun until_signal :: "bturn list \<Rightarrow> bturn list" where
  "until_signal [] = []"
| "until_signal (t # ts) = (if bt_signal t then [t] else t # until_signal ts)"

definition bturn_ok :: "bturn \<Rightarrow> bool" where
  "bturn_ok t \<longleftrightarrow> (\<forall>i < 2. let (n, bs) = bt_read t i in n \<le> 0 \<or> n = int (length bs) \<and> n \<le> 2048)"

lemma mask_odd: "bt_revents t i AND bridge_mask \<noteq> 0 \<longleftrightarrow> odd (unat (bt_revents t i))"
proof -
  have "bt_revents t i AND 1 \<noteq> 0 \<longleftrightarrow> bit (bt_revents t i) 0"
    using and_exp_eq_0_iff_not_bit [of "bt_revents t i" 0] by simp
  also have "\<dots> \<longleftrightarrow> bit (unat (bt_revents t i)) 0" by (simp add: bit_unsigned_iff)
  also have "\<dots> \<longleftrightarrow> odd (unat (bt_revents t i))" by (simp add: bit_0)
  finally show ?thesis by (simp add: bridge_mask_def POLLIN_def)
qed

lemma bridge_debug_fields [simp]:
  "b_soc (bridge_DebugPrintf x s) = b_soc s" "b_out (bridge_DebugPrintf x s) = b_out s"
  "b_EndFlag (bridge_DebugPrintf x s) = b_EndFlag s" "b_DebugOut (bridge_DebugPrintf x s) = b_DebugOut s"
  by (simp_all add: bridge_DebugPrintf_def)

text \<open>The step of one device: what it appends to the log\<close>

lemma bridge_recv_ok:
  assumes t: "bturn_ok t" and i: "i < 2" and buf: "length buf = 2048"
    and p: "bt_poll t \<noteq> -1" "bt_poll t \<noteq> 0"
  shows "\<exists>buf' s'. bridge_recv t i (buf, s) = Some (buf', s') \<and> length buf' = 2048 \<and>
    b_out s' = b_out s @ bridged (b_soc s) t i \<and> b_soc s' = b_soc s \<and> b_EndFlag s' = b_EndFlag s"
proof -
  obtain n bs where r: "bt_read t i = (n, bs)" by fastforce
  have ok: "n \<le> 0 \<or> n = int (length bs) \<and> n \<le> 2048" using t i r by (auto simp: bturn_ok_def)
  have o: "(if i = 0 then 1 else 0) = 1 - i" using i by simp
  show ?thesis
  proof (cases "odd (unat (bt_revents t i)) \<and> 0 < n")
    case False
    then show ?thesis using r buf by (auto simp: bridge_recv_def mask_odd bridged_def)
  next
    case True
    then have n: "n = int (length bs)" "length bs \<le> 2048" "0 < length bs" using ok by auto
    have w: "mwrite buf 0 bs = Some (bs @ drop (length bs) buf)" using n buf by (simp add: mwrite_Some)
    have sz: "lt_sizeof n 14 \<longleftrightarrow> length bs < 14" using n by (subst lt_sizeof_nonneg) auto
    show ?thesis
      using True r n buf p o
      by (cases "length bs < 14")
        (auto simp: bridge_recv_def mask_odd bridged_def w sz bridge_AnalyzePacket_def Let_def
          sock_write_def mread_Some)
  qed
qed

text \<open>One turn, then the loop\<close>

definition bridged_turn :: "(nat \<Rightarrow> int) \<Rightarrow> bturn \<Rightarrow> sent" where
  "bridged_turn so t = bridged so t 0 @ bridged so t 1"

lemma bridge_turn_ok:
  assumes t: "bturn_ok t" and buf: "length buf = 2048"
  shows "\<exists>buf' s'. bridge_turn t (buf, s) = Some (buf', s') \<and> length buf' = 2048 \<and>
    b_out s' = b_out s @ bridged_turn (b_soc s) t \<and> b_soc s' = b_soc s \<and> b_EndFlag s' = b_EndFlag s"
proof (cases "bt_poll t = -1 \<or> bt_poll t = 0")
  case True
  then have "bridged (b_soc s) t i = []" for i by (auto simp: bridged_def split: prod.splits)
  then show ?thesis using True buf by (simp add: bridge_turn_def bridged_turn_def)
next
  case False
  then obtain b1 s1 where 1: "bridge_recv t 0 (buf, s) = Some (b1, s1)" "length b1 = 2048"
      "b_out s1 = b_out s @ bridged (b_soc s) t 0" "b_soc s1 = b_soc s" "b_EndFlag s1 = b_EndFlag s"
    using bridge_recv_ok [OF t _ buf, of 0 s] by auto
  obtain b2 s2 where 2: "bridge_recv t 1 (b1, s1) = Some (b2, s2)" "length b2 = 2048"
      "b_out s2 = b_out s1 @ bridged (b_soc s1) t 1" "b_soc s2 = b_soc s1" "b_EndFlag s2 = b_EndFlag s1"
    using bridge_recv_ok [OF t _ 1(2), of 1 s1] False by auto
  show ?thesis using False 1 2 by (simp add: bridge_turn_def bridged_turn_def)
qed

lemma Bridge_ok:
  "list_all bturn_ok ts \<Longrightarrow> length buf = 2048 \<Longrightarrow> \<not> b_EndFlag s \<Longrightarrow>
   \<exists>buf' s'. Bridge ts (buf, s) = Some (buf', s') \<and> b_soc s' = b_soc s \<and>
     b_out s' = b_out s @ concat (map (bridged_turn (b_soc s)) (until_signal ts)) \<and>
     b_EndFlag s' = (\<exists>t \<in> set ts. bt_signal t)"
proof (induction ts arbitrary: buf s)
  case (Cons t ts)
  obtain b1 s1 where 1: "bridge_turn t (buf, s) = Some (b1, s1)" "length b1 = 2048"
      "b_out s1 = b_out s @ bridged_turn (b_soc s) t" "b_soc s1 = b_soc s" "b_EndFlag s1 = b_EndFlag s"
    using bridge_turn_ok [of t buf s] Cons.prems by auto
  show ?case
  proof (cases "bt_signal t")
    case True
    have "Bridge ts (b1, bridge_EndSignal s1) = Some (b1, bridge_EndSignal s1)"
      by (cases ts) (simp_all add: bridge_EndSignal_def)
    then show ?thesis using True 1 Cons.prems by (simp add: bridge_EndSignal_def)
  next
    case False
    then show ?thesis using Cons.IH [of b1 s1] 1 Cons.prems by auto
  qed
qed simp

text \<open>C34: The bridge copies every frame of at least 14 bytes that it reads from one device, unchanged
  and in the order of reading, to the other device, and writes nothing else; it stops after the turn
  in which a signal arrives. A device whose event is an error alone is not read.\<close>

theorem bridge_transparent:
  assumes "list_all bturn_ok ts" and "length buf = 2048" and "\<not> b_EndFlag s"
  shows "\<exists>buf' s'. Bridge ts (buf, s) = Some (buf', s') \<and>
    b_out s' = b_out s @ concat (map (bridged_turn (b_soc s)) (until_signal ts))"
  using Bridge_ok [OF assms] by blast

text \<open>A run: a frame from device 0, then a runt and an error event, then a frame from device 1 with
  the signal, then a turn that is not taken\<close>

definition ex_bturn :: "u16 \<Rightarrow> nat \<Rightarrow> bool \<Rightarrow> nat \<Rightarrow> bturn" where
  "ex_bturn ev dev sig n =
     \<lparr>bt_poll = 1, bt_revents = (\<lambda>i. if i = dev then ev else 0),
      bt_read = (\<lambda>_. (int n, replicate n (of_nat n))), bt_signal = sig\<rparr>"

definition ex_bridge :: bridge where
  "ex_bridge = \<lparr>b_soc = (\<lambda>i. 3 + int i), b_DebugOut = False, b_EndFlag = False, b_out = [], b_err = []\<rparr>"

theorem bridge_transparent_witness:
  "\<exists>buf s. Bridge [ex_bturn 1 0 False 60, ex_bturn 1 1 False 13, ex_bturn 8 0 False 60,
      ex_bturn 1 1 True 14, ex_bturn 1 0 False 60] (replicate 2048 0, ex_bridge) = Some (buf, s) \<and>
     b_out s = [(4, replicate 60 60), (3, replicate 14 14)]"
proof -
  have "list_all bturn_ok [ex_bturn 1 0 False 60, ex_bturn 1 1 False 13, ex_bturn 8 0 False 60,
      ex_bturn 1 1 True 14, ex_bturn 1 0 False 60]"
    by (simp add: bturn_ok_def ex_bturn_def)
  from bridge_transparent [OF this, of "replicate 2048 0" ex_bridge] show ?thesis
    by (simp add: ex_bridge_def ex_bturn_def bridged_turn_def bridged_def)
qed

section \<open>Start-up\<close>

text \<open>\<open>main\<close> up to the call of \<open>Bridge\<close>, and its \<open>DisableIpForward\<close>. The device names are those of
  \<open>Param\<close>; \<open>fwd\<close> is the content of \<open>/proc/sys/net/ipv4/ip_forward\<close> and \<open>opened\<close> whether it can be
  opened for writing.\<close>

definition bridge_DisableIpForward :: "bool \<Rightarrow> string \<Rightarrow> bridge \<Rightarrow> int \<times> string \<times> bridge" where
  "bridge_DisableIpForward opened fwd s =
     (if \<not> opened
      then (-1, fwd, bridge_DebugPrintf (''cannot write /proc/sys/net/ipv4/ip_forward'' @ nl) s)
      else (0, ''0'', s))"

definition bridge_Device :: "nat \<Rightarrow> string" where
  "bridge_Device i = (if i = 0 then ''eth1'' else ''eth2'')"

definition bridge_open :: "raw_env \<Rightarrow> nat \<Rightarrow> bridge \<Rightarrow> bool \<times> bridge" where
  "bridge_open e i s =
     (let (fd, _) = bridge_InitRawSocket e (bridge_Device i) True False;
          s = s\<lparr>b_soc := (b_soc s)(i := fd)\<rparr>
      in if fd = -1
         then (False, bridge_DebugPrintf (''InitRawSocket:error:'' @ bridge_Device i @ nl) s)
         else (True, bridge_DebugPrintf (bridge_Device i @ '' OK'' @ nl) s))"

definition bridge_main ::
  "(nat \<Rightarrow> raw_env) \<Rightarrow> bool \<Rightarrow> string \<Rightarrow> bridge \<Rightarrow> bool \<times> string \<times> bridge" where
  "bridge_main e opened fwd s =
     (let (ok, s) = bridge_open (e 0) 0 s
      in if \<not> ok then (False, fwd, s)
         else let (ok, s) = bridge_open (e 1) 1 s
         in if \<not> ok then (False, fwd, s)
            else let (_, fwd, s) = bridge_DisableIpForward opened fwd s
            in (True, fwd, bridge_DebugPrintf (''bridge start'' @ nl) s))"

text \<open>
  The rest of \<open>main\<close>: the loop, and when it has ended the two sockets are closed. The result is the
  return code, \<open>None\<close> while the loop has not ended after the turns observed, and the descriptors closed.
\<close>

definition bridge_run ::
  "(nat \<Rightarrow> raw_env) \<Rightarrow> bool \<Rightarrow> string \<Rightarrow> bturn list \<Rightarrow> bytes \<Rightarrow> bridge \<Rightarrow>
   (int option \<times> int list \<times> string \<times> bridge) option" where
  "bridge_run e opened fwd ts buf s =
     (let (ok, fwd, s) = bridge_main e opened fwd s
      in if \<not> ok then Some (Some (-1), [], fwd, s)
         else do {
           (buf, s) \<leftarrow> Bridge ts (buf, s);
           (if b_EndFlag s
            then let s = bridge_DebugPrintf (''bridge end'' @ nl) s
                 in Some (Some 0, [b_soc s 0, b_soc s 1], fwd, s)
            else Some (None, [], fwd, s))
         })"

lemma bridge_main_fields:
  assumes "bridge_main e opened fwd s = (True, fwd', t)"
  shows "b_soc t 0 = r_socket (e 0) \<and> b_soc t 1 = r_socket (e 1) \<and> b_out t = b_out s \<and>
    b_EndFlag t = b_EndFlag s \<and> fwd' = (if opened then ''0'' else fwd)"
proof -
  have fd: "fst (InitRawSocket e n p i) \<noteq> -1 \<Longrightarrow> fst (InitRawSocket e n p i) = r_socket e" for e n p i
    by (auto simp: InitRawSocket_def Let_def split: option.splits if_splits)
  show ?thesis
    using assms fd [of "e 0" "bridge_Device 0" True False] fd [of "e 1" "bridge_Device 1" True False]
    by (auto simp: bridge_main_def bridge_open_def bridge_DisableIpForward_def bridge_InitRawSocket_def
        Let_def case_prod_beta split: if_splits)
qed

text \<open>
  A run of the program: when both devices could be opened and a signal arrives in the turns
  observed, it returns 0, has switched off the forwarding of the kernel if it could, has copied the
  frames, and closes the two sockets it opened.
\<close>

theorem bridge_run_ends:
  assumes "bridge_main e opened fwd s = (True, fwd', t)" and "list_all bturn_ok ts"
    and "length buf = 2048" and "\<not> b_EndFlag s" and "\<exists>t \<in> set ts. bt_signal t"
  shows "\<exists>u. bridge_run e opened fwd ts buf s =
      Some (Some 0, [r_socket (e 0), r_socket (e 1)], if opened then ''0'' else fwd, u) \<and>
    b_out u = b_out s @ concat (map (bridged_turn (b_soc t)) (until_signal ts))"
proof -
  note f = bridge_main_fields [OF assms(1)]
  obtain buf' u where "Bridge ts (buf, t) = Some (buf', u)" "b_EndFlag u" "b_soc u = b_soc t"
    "b_out u = b_out t @ concat (map (bridged_turn (b_soc t)) (until_signal ts))"
    using Bridge_ok [OF assms(2,3), of t] f assms(4,5) by auto
  with f assms(1) show ?thesis by (simp add: bridge_run_def Let_def)
qed

end
