(* ===== verification/PcapHeaders.thy ===== *)
theory PcapHeaders
  imports Printing
begin

text \<open>
  The structures only the packet capture reads: \<open>struct ip6_hdr\<close>, \<open>icmp6_hdr\<close>, \<open>tcphdr\<close>,
  \<open>udphdr\<close> and the halves of the identifier word of \<open>struct icmp\<close>, as records with their byte
  layout, each an instance of the contract \<open>codec\<close> of theory \<open>Structs\<close>.
\<close>

section \<open>\<open>struct ip6_hdr\<close>\<close>

text \<open>\<open>struct in6_addr\<close>, by its member \<open>s6_addr32\<close>\<close>

datatype in6_addr = IN6 u32 u32 u32 u32

primrec enc_in6 :: "in6_addr \<Rightarrow> bytes" where
  "enc_in6 (IN6 a b c d) = bytes32 a @ bytes32 b @ bytes32 c @ bytes32 d"

definition in6_at :: "bytes \<Rightarrow> nat \<Rightarrow> in6_addr" where
  "in6_at bs i = IN6 (u32_at bs i) (u32_at bs (i + 4)) (u32_at bs (i + 8)) (u32_at bs (i + 12))"

lemma length_enc_in6 [simp]: "length (enc_in6 a) = 16"
  by (cases a) simp

record ip6_hdr =
  ip6_flow :: u32
  ip6_plen :: u16
  ip6_nxt :: u8
  ip6_hlim :: u8
  ip6_src :: in6_addr
  ip6_dst :: in6_addr

definition enc_ip6_hdr :: "ip6_hdr \<Rightarrow> bytes" where
  "enc_ip6_hdr h = bytes32 (ip6_flow h) @ bytes16 (ip6_plen h) @ [ip6_nxt h, ip6_hlim h] @
     enc_in6 (ip6_src h) @ enc_in6 (ip6_dst h)"

definition dec_ip6_hdr :: "bytes \<Rightarrow> ip6_hdr" where
  "dec_ip6_hdr bs =
     \<lparr>ip6_flow = u32_at bs 0, ip6_plen = u16_at bs 4, ip6_nxt = bs ! 6, ip6_hlim = bs ! 7,
      ip6_src = in6_at bs 8, ip6_dst = in6_at bs 24\<rparr>"

interpretation ip6: codec enc_ip6_hdr dec_ip6_hdr 40
proof
  show "length (enc_ip6_hdr x) = 40" for x
    by (simp add: enc_ip6_hdr_def)
  show "dec_ip6_hdr (enc_ip6_hdr x) = x" for x
    by (cases x, cases "ip6_src x", cases "ip6_dst x")
      (simp add: enc_ip6_hdr_def dec_ip6_hdr_def in6_at_def field_at bytes16_def bytes32_def)
  fix bs :: bytes assume "length bs = 40"
  then show "enc_ip6_hdr (dec_ip6_hdr bs) = bs"
    by (subst (2) list_expand [of bs 40])
      (simp_all add: enc_ip6_hdr_def dec_ip6_hdr_def in6_at_def field_at upt_rec numeral_eq_Suc)
qed

section \<open>\<open>struct icmp6_hdr\<close> and \<open>struct icmp\<close>\<close>

record icmp6_hdr =
  icmp6_type :: u8
  icmp6_code :: u8
  icmp6_cksum :: u16
  icmp6_id :: u16
  icmp6_seq :: u16

definition enc_icmp6 :: "icmp6_hdr \<Rightarrow> bytes" where
  "enc_icmp6 i = [icmp6_type i, icmp6_code i] @ bytes16 (icmp6_cksum i) @
     bytes16 (icmp6_id i) @ bytes16 (icmp6_seq i)"

definition dec_icmp6 :: "bytes \<Rightarrow> icmp6_hdr" where
  "dec_icmp6 bs =
     \<lparr>icmp6_type = bs ! 0, icmp6_code = bs ! 1, icmp6_cksum = u16_at bs 2,
      icmp6_id = u16_at bs 4, icmp6_seq = u16_at bs 6\<rparr>"

interpretation icmp6: codec enc_icmp6 dec_icmp6 8
proof
  show "length (enc_icmp6 x) = 8" for x
    by (simp add: enc_icmp6_def)
  show "dec_icmp6 (enc_icmp6 x) = x" for x
    by (cases x) (simp add: enc_icmp6_def dec_icmp6_def field_at bytes16_def)
  fix bs :: bytes assume "length bs = 8"
  then show "enc_icmp6 (dec_icmp6 bs) = bs"
    by (subst (2) list_expand [of bs 8])
      (simp_all add: enc_icmp6_def dec_icmp6_def field_at upt_rec numeral_eq_Suc)
qed

text \<open>\<open>icmp_id\<close> and \<open>icmp_seq\<close> overlay \<open>icmp_void\<close> in the union \<open>icmp_hun\<close>.\<close>

definition icmp_id :: "icmp \<Rightarrow> u16" where
  "icmp_id i = ucast (icmp_void i)"

definition icmp_seq :: "icmp \<Rightarrow> u16" where
  "icmp_seq i = ucast (drop_bit 16 (icmp_void i))"

section \<open>\<open>struct tcphdr\<close>\<close>

text \<open>The bit fields of the two bytes before the window, lowest bit first\<close>

record tcphdr =
  tcp_source :: u16
  tcp_dest :: u16
  tcp_seq :: u32
  tcp_ack_seq :: u32
  tcp_res1 :: "4 word"
  tcp_doff :: "4 word"
  tcp_fin :: "1 word"
  tcp_syn :: "1 word"
  tcp_rst :: "1 word"
  tcp_psh :: "1 word"
  tcp_ack :: "1 word"
  tcp_urg :: "1 word"
  tcp_res2 :: "2 word"
  tcp_window :: u16
  tcp_check :: u16
  tcp_urg_ptr :: u16

definition flag_at :: "nat \<Rightarrow> u8 \<Rightarrow> 1 word" where
  "flag_at n b = ucast (drop_bit n b)"

definition put_flag :: "nat \<Rightarrow> 1 word \<Rightarrow> u8" where
  "put_flag n w = push_bit n (ucast w)"

definition enc_flags :: "tcphdr \<Rightarrow> u8" where
  "enc_flags h =
     put_flag 0 (tcp_fin h) OR put_flag 1 (tcp_syn h) OR put_flag 2 (tcp_rst h) OR
     put_flag 3 (tcp_psh h) OR put_flag 4 (tcp_ack h) OR put_flag 5 (tcp_urg h) OR
     push_bit 6 (ucast (tcp_res2 h))"

definition enc_tcphdr :: "tcphdr \<Rightarrow> bytes" where
  "enc_tcphdr h =
     bytes16 (tcp_source h) @ bytes16 (tcp_dest h) @ bytes32 (tcp_seq h) @
     bytes32 (tcp_ack_seq h) @ [enc_nibbles (tcp_res1 h) (tcp_doff h), enc_flags h] @
     bytes16 (tcp_window h) @ bytes16 (tcp_check h) @ bytes16 (tcp_urg_ptr h)"

definition dec_tcphdr :: "bytes \<Rightarrow> tcphdr" where
  "dec_tcphdr bs =
     (let f = bs ! 13
      in \<lparr>tcp_source = u16_at bs 0, tcp_dest = u16_at bs 2, tcp_seq = u32_at bs 4,
          tcp_ack_seq = u32_at bs 8, tcp_res1 = lo_nibble (bs ! 12), tcp_doff = hi_nibble (bs ! 12),
          tcp_fin = flag_at 0 f, tcp_syn = flag_at 1 f, tcp_rst = flag_at 2 f,
          tcp_psh = flag_at 3 f, tcp_ack = flag_at 4 f, tcp_urg = flag_at 5 f,
          tcp_res2 = ucast (drop_bit 6 f),
          tcp_window = u16_at bs 14, tcp_check = u16_at bs 16, tcp_urg_ptr = u16_at bs 18\<rparr>)"

lemma bit_u1_high [simp]: "0 < n \<Longrightarrow> \<not> bit (w :: 1 word) n"
  using bit_imp_le_length [of w n] by auto

lemma bit_u2_high [simp]: "2 \<le> n \<Longrightarrow> \<not> bit (w :: 2 word) n"
  using bit_imp_le_length [of w n] by auto

lemma less_8_cases: "n < 8 \<Longrightarrow> n = 0 \<or> n = 1 \<or> n = 2 \<or> n = 3 \<or> n = 4 \<or> n = 5 \<or> n = 6 \<or> n = (7::nat)"
  by linarith

lemma bit_flag_at: "bit (flag_at n b) k \<longleftrightarrow> k = 0 \<and> bit b n"
  by (cases k) (auto simp: flag_at_def bit_simps)

lemma bit_put_flag: "bit (put_flag n w) k \<longleftrightarrow> k < 8 \<and> k = n \<and> bit w 0"
  by (cases "k = n") (auto simp: put_flag_def bit_simps)

lemma dec_flags [simp]:
  "flag_at 0 (enc_flags h) = tcp_fin h" "flag_at 1 (enc_flags h) = tcp_syn h"
  "flag_at 2 (enc_flags h) = tcp_rst h" "flag_at 3 (enc_flags h) = tcp_psh h"
  "flag_at 4 (enc_flags h) = tcp_ack h" "flag_at 5 (enc_flags h) = tcp_urg h"
  "ucast (drop_bit 6 (enc_flags h)) = tcp_res2 h"
  unfolding enc_flags_def
  by (rule bit_word_eqI, auto simp: bit_simps bit_flag_at bit_put_flag less_2_cases_iff
      simp del: One_nat_def)+

lemma enc_dec_flags [simp]: "enc_flags (dec_tcphdr bs) = bs ! 13"
  unfolding enc_flags_def dec_tcphdr_def Let_def
  by (rule bit_word_eqI) (auto simp: bit_simps bit_flag_at bit_put_flag dest!: less_8_cases)

interpretation tcp: codec enc_tcphdr dec_tcphdr 20
proof
  show "length (enc_tcphdr x) = 20" for x
    by (simp add: enc_tcphdr_def)
  show "dec_tcphdr (enc_tcphdr x) = x" for x
    by (cases x) (simp add: enc_tcphdr_def dec_tcphdr_def field_at bytes16_def bytes32_def Let_def
        del: One_nat_def)
  fix bs :: bytes assume "length bs = 20"
  then have l: "map (nth bs) [0..<20] = bs" using list_expand by metis
  have "enc_tcphdr (dec_tcphdr bs) = map (nth bs) [0..<20]"
    unfolding enc_tcphdr_def enc_dec_flags
    by (simp add: dec_tcphdr_def Let_def field_at upt_rec numeral_eq_Suc)
  then show "enc_tcphdr (dec_tcphdr bs) = bs" unfolding l .
qed

section \<open>\<open>struct udphdr\<close>\<close>

record udphdr =
  udp_source :: u16
  udp_dest :: u16
  udp_len :: u16
  udp_check :: u16

definition enc_udphdr :: "udphdr \<Rightarrow> bytes" where
  "enc_udphdr h = bytes16 (udp_source h) @ bytes16 (udp_dest h) @ bytes16 (udp_len h) @ bytes16 (udp_check h)"

definition dec_udphdr :: "bytes \<Rightarrow> udphdr" where
  "dec_udphdr bs =
     \<lparr>udp_source = u16_at bs 0, udp_dest = u16_at bs 2, udp_len = u16_at bs 4, udp_check = u16_at bs 6\<rparr>"

interpretation udp: codec enc_udphdr dec_udphdr 8
proof
  show "length (enc_udphdr x) = 8" for x
    by (simp add: enc_udphdr_def)
  show "dec_udphdr (enc_udphdr x) = x" for x
    by (cases x) (simp add: enc_udphdr_def dec_udphdr_def field_at bytes16_def)
  fix bs :: bytes assume "length bs = 8"
  then show "enc_udphdr (dec_udphdr bs) = bs"
    by (subst (2) list_expand [of bs 8])
      (simp_all add: enc_udphdr_def dec_udphdr_def field_at upt_rec numeral_eq_Suc)
qed

end
