(* ===== verification/PcapChecksum.thy ===== *)
theory PcapChecksum
  imports Checksum PcapHeaders
begin

text \<open>
  \<open>pcap/checksum.c\<close>. Its \<open>checksum\<close>, \<open>checksum2\<close> and \<open>checkIPchecksum\<close> repeat those of
  \<open>router/netutil.c\<close>; \<open>checkIPDATAchecksum\<close> and \<open>checkIP6DATAchecksum\<close> put a pseudo header before
  the data. The locale \<open>two_part_check\<close> is what the three checks have in common.
\<close>

section \<open>The code\<close>

definition pcap_checksum :: "bytes \<Rightarrow> int \<Rightarrow> u16 option" where
  "pcap_checksum = checksum"

definition pcap_checksum2 :: "bytes \<Rightarrow> int \<Rightarrow> bytes \<Rightarrow> int \<Rightarrow> u16 option" where
  "pcap_checksum2 = checksum2"

definition pcap_checkIPchecksum :: "bytes \<Rightarrow> bytes \<Rightarrow> int \<Rightarrow> int option" where
  "pcap_checkIPchecksum iphdr option' optionLen =
     (if optionLen = 0 then do {
        sum' \<leftarrow> pcap_checksum iphdr 20;
        Some (if sum' = 0 \<or> sum' = 0xFFFF then 1 else 0)
      } else do {
        sum' \<leftarrow> pcap_checksum2 iphdr 20 option' optionLen;
        Some (if sum' = 0 \<or> sum' = 0xFFFF then 1 else 0)
      })"

text \<open>\<open>struct pseudo_ip\<close>: 12 bytes without padding\<close>

record pseudo_ip =
  ip_src :: in_addr_t
  ip_dst :: in_addr_t
  dummy :: u8
  ip_p :: u8
  ip_len :: u16

definition enc_pseudo_ip :: "pseudo_ip \<Rightarrow> bytes" where
  "enc_pseudo_ip p = bytes32 (ip_src p) @ bytes32 (ip_dst p) @ [dummy p, ip_p p] @ bytes16 (ip_len p)"

text \<open>\<open>len\<close> is converted to 16 bits by \<open>htons\<close>.\<close>

definition pseudo_of :: "iphdr \<Rightarrow> int \<Rightarrow> pseudo_ip" where
  "pseudo_of h len =
     \<lparr>ip_src = ip_saddr h, ip_dst = ip_daddr h, dummy = 0, ip_p = ip_protocol h,
      ip_len = htons (word_of_int len)\<rparr>"

definition checkIPDATAchecksum :: "iphdr \<Rightarrow> bytes \<Rightarrow> int \<Rightarrow> int option" where
  "checkIPDATAchecksum h data len = do {
     sum' \<leftarrow> pcap_checksum2 (enc_pseudo_ip (pseudo_of h len)) 12 data len;
     Some (if sum' = 0 \<or> sum' = 0xFFFF then 1 else 0)
   }"

text \<open>
  \<open>struct pseudo_ip6_hdr\<close>: 44 bytes and four of padding, which the \<open>memset\<close> zeroes; \<open>plen\<close> is an
  \<open>unsigned long\<close> of eight bytes.
\<close>

record pseudo_ip6_hdr =
  p6_src :: in6_addr
  p6_dst :: in6_addr
  p6_plen :: u64
  p6_dmy1 :: u16
  p6_dmy2 :: u8
  p6_nxt :: u8

definition bytes64 :: "u64 \<Rightarrow> bytes" where
  "bytes64 w = bytes32 (ucast w) @ bytes32 (ucast (drop_bit 32 w))"

definition enc_pseudo_ip6 :: "pseudo_ip6_hdr \<Rightarrow> bytes" where
  "enc_pseudo_ip6 p = enc_in6 (p6_src p) @ enc_in6 (p6_dst p) @ bytes64 (p6_plen p) @
     bytes16 (p6_dmy1 p) @ [p6_dmy2 p, p6_nxt p] @ [0, 0, 0, 0]"

definition pseudo6_of :: "ip6_hdr \<Rightarrow> pseudo_ip6_hdr" where
  "pseudo6_of h =
     \<lparr>p6_src = ip6_src h, p6_dst = ip6_dst h, p6_plen = ucast (ip6_plen h), p6_dmy1 = 0,
      p6_dmy2 = 0, p6_nxt = ip6_nxt h\<rparr>"

definition checkIP6DATAchecksum :: "ip6_hdr \<Rightarrow> bytes \<Rightarrow> int \<Rightarrow> int option" where
  "checkIP6DATAchecksum h data len = do {
     sum' \<leftarrow> pcap_checksum2 (enc_pseudo_ip6 (pseudo6_of h)) 48 data len;
     Some (if sum' = 0 \<or> sum' = 0xFFFF then 1 else 0)
   }"

lemma pcap_checkIPchecksum_eq: "pcap_checkIPchecksum = checkIPchecksum"
  by (intro ext) (simp add: pcap_checkIPchecksum_def checkIPchecksum_def pcap_checksum_def pcap_checksum2_def)

section \<open>A check over two objects\<close>

text \<open>
  \<open>check x data len\<close> sums the \<open>n\<close> bytes \<open>pre x len\<close> and then \<open>len\<close> bytes of \<open>data\<close>, and accepts
  when the sum is zero in one's complement.
\<close>

locale two_part_check =
  fixes check :: "'h \<Rightarrow> bytes \<Rightarrow> int \<Rightarrow> int option" and pre :: "'h \<Rightarrow> int \<Rightarrow> bytes" and n :: nat
  assumes check_eq: "check x data len = do {
      s \<leftarrow> checksum2 (pre x len) (int n) data len;
      Some (if s = 0 \<or> s = 0xFFFF then 1 else 0) }"
    and length_pre: "length (pre x len) = n"
    and even_pre: "even n"
begin

lemma accept_iff:
  assumes "m \<le> length data"
  shows "check x data (int m) =
    Some (if (wsum (pre x (int m)) + wsum (take m data)) mod 65535 = 0 then 1 else 0)"
proof -
  let ?w = "wsum (pre x (int m) @ take m data)" and ?s = "of_nat (65535 - oc (wsum (pre x (int m) @ take m data))) :: u16"
  have c: "checksum2 (pre x (int m)) (int n) data (int m) = Some ?s"
    using checksum2_eq [of n "pre x (int m)" m data] length_pre even_pre assms by simp
  have u: "unat ?s = 65535 - oc ?w" by (rule unat_of_nat_oc)
  have "?s = 0 \<or> ?s = 0xFFFF \<longleftrightarrow> oc ?w = 65535 \<or> oc ?w = 0"
    using u oc_le [of ?w] unat_eq_zero [of ?s] unat_eq_65535 [of ?s] by linarith
  also have "\<dots> \<longleftrightarrow> ?w mod 65535 = 0" by (auto simp: oc_65535_iff)
  finally show ?thesis
    using c by (simp add: check_eq wsum_append length_pre even_pre del: of_nat_diff)
qed

lemma nonpos:
  assumes "len \<le> 0"
  shows "check x data len = Some (if wsum (pre x len) mod 65535 = 0 then 1 else 0)"
proof -
  have "checksum2 (pre x len) (int n) data len = checksum2 (pre x len) (int n) [] (int 0)"
    using checksum2_nonpos [of n "pre x len"] length_pre even_pre assms by simp
  also have "\<dots> = Some (of_nat (65535 - oc (wsum (pre x len))))"
    using checksum2_eq [of n "pre x len" 0 "[]"] length_pre even_pre by simp
  finally have c: "checksum2 (pre x len) (int n) data len = Some (of_nat (65535 - oc (wsum (pre x len))))" .
  let ?w = "wsum (pre x len)" and ?s = "of_nat (65535 - oc (wsum (pre x len))) :: u16"
  have "unat ?s = 65535 - oc ?w" by (rule unat_of_nat_oc)
  then have "?s = 0 \<or> ?s = 0xFFFF \<longleftrightarrow> oc ?w = 65535 \<or> oc ?w = 0"
    using oc_le [of ?w] unat_eq_zero [of ?s] unat_eq_65535 [of ?s] by linarith
  also have "\<dots> \<longleftrightarrow> ?w mod 65535 = 0" by (auto simp: oc_65535_iff)
  finally show ?thesis using c by (simp add: check_eq del: of_nat_diff)
qed

lemma overread: "int (length data) < len \<Longrightarrow> check x data len = None"
  using checksum2_None [of n "pre x len" data "nat len"] length_pre even_pre by (simp add: check_eq)

end

lemma length_bytes64 [simp]: "length (bytes64 w) = 8"
  by (simp add: bytes64_def)

interpretation ip_data: two_part_check checkIPDATAchecksum "\<lambda>h len. enc_pseudo_ip (pseudo_of h len)" 12
  by unfold_locales (simp_all add: checkIPDATAchecksum_def pcap_checksum2_def enc_pseudo_ip_def)

interpretation ip6_data: two_part_check checkIP6DATAchecksum "\<lambda>h len. enc_pseudo_ip6 (pseudo6_of h)" 48
  by unfold_locales (simp_all add: checkIP6DATAchecksum_def pcap_checksum2_def enc_pseudo_ip6_def)

interpretation ip_hdr: two_part_check "\<lambda>h. pcap_checkIPchecksum (enc_iphdr h)" "\<lambda>h len. enc_iphdr h" 20
proof
  fix h data len
  show "pcap_checkIPchecksum (enc_iphdr h) data len = do {
      s \<leftarrow> checksum2 (enc_iphdr h) (int 20) data len;
      Some (if s = 0 \<or> s = 0xFFFF then 1 else 0) }"
    using checksum2_nonpos [of 20 "enc_iphdr h" 0 data]
    by (simp add: pcap_checkIPchecksum_def pcap_checksum_def pcap_checksum2_def)
qed simp_all

section \<open>Properties\<close>

text \<open>The pseudo headers of RFC 793 and RFC 8200, as sums of 16 bit words in network order\<close>

definition pseudo_sum :: "in_addr_t \<Rightarrow> in_addr_t \<Rightarrow> u8 \<Rightarrow> nat \<Rightarrow> nat" where
  "pseudo_sum src dst proto len =
     bsum (bytes32 src) + bsum (bytes32 dst) + unat proto + len"

definition pseudo6_sum :: "in6_addr \<Rightarrow> in6_addr \<Rightarrow> nat \<Rightarrow> u8 \<Rightarrow> nat" where
  "pseudo6_sum src dst len nxt = bsum (enc_in6 src) + bsum (enc_in6 dst) + len + unat nxt"

lemma bsum_append: "even (length xs) \<Longrightarrow> bsum (xs @ ys) = bsum xs + bsum ys"
  by (induction xs rule: bsum.induct) auto

lemma bsum_bytes16: "bsum (bytes16 w) = unat (htons w)"
proof -
  have "unat w = unat (ucast w :: u8) + 256 * unat (ucast (drop_bit 8 w) :: u8)"
    using unat_le16 [of "ucast w" "ucast (drop_bit 8 w)"] by simp
  then show ?thesis by (simp add: bytes16_def unat_htons)
qed

lemma bsum_pseudo: "len < 65536 \<Longrightarrow>
    bsum (enc_pseudo_ip (pseudo_of h (int len))) = pseudo_sum (ip_saddr h) (ip_daddr h) (ip_protocol h) len"
  by (simp add: enc_pseudo_ip_def pseudo_of_def pseudo_sum_def bsum_append bsum_bytes16 unat_of_nat)

lemma bytes64_u16: "bytes64 (ucast (w :: u16)) = bytes16 w @ [0, 0, 0, 0, 0, 0]"
proof -
  have "(ucast (ucast (ucast w :: u64) :: u32) :: u8) = ucast w"
    "(ucast (drop_bit 8 (ucast (ucast w :: u64) :: u32)) :: u8) = ucast (drop_bit 8 w)"
    "(ucast (drop_bit 16 (ucast (ucast w :: u64) :: u32)) :: u8) = 0"
    "(ucast (drop_bit 24 (ucast (ucast w :: u64) :: u32)) :: u8) = 0"
    "(ucast (drop_bit 32 (ucast w :: u64)) :: u32) = 0"
    by (rule bit_word_eqI, simp add: bit_simps)+
  then show ?thesis by (simp add: bytes64_def bytes32_def bytes16_def)
qed

lemma bsum_pseudo6: "bsum (enc_pseudo_ip6 (pseudo6_of h)) =
    pseudo6_sum (ip6_src h) (ip6_dst h) (unat (ntohs (ip6_plen h))) (ip6_nxt h)"
proof -
  have z: "bytes16 0 = [0, 0]" by (simp add: bytes16_def)
  show ?thesis
    by (simp add: enc_pseudo_ip6_def pseudo6_of_def pseudo6_sum_def bsum_append bytes64_u16
        bsum_bytes16 z)
qed

lemma bytes32_0 [simp]: "bytes32 0 = [0, 0, 0, 0]"
  by (simp add: bytes32_def)

lemma wsum_bsum_zero: "wsum bs mod 65535 = 0 \<longleftrightarrow> bsum bs mod 65535 = 0"
  unfolding bsum_wsum_mod by (rule times256_mod [symmetric])

lemma two_parts_zero:
  "even (length xs) \<Longrightarrow> (wsum xs + wsum ys) mod 65535 = 0 \<longleftrightarrow> (bsum xs + bsum ys) mod 65535 = 0"
  using wsum_bsum_zero [of "xs @ ys"] by (simp add: wsum_append bsum_append)

lemma checkIPDATAchecksum_iff:
  assumes "len \<le> length data" and "len < 65536"
  shows "checkIPDATAchecksum h data (int len) = Some
    (if (pseudo_sum (ip_saddr h) (ip_daddr h) (ip_protocol h) len + bsum (take len data)) mod 65535 = 0
     then 1 else 0)"
  unfolding ip_data.accept_iff [OF assms(1)]
  using two_parts_zero [of "enc_pseudo_ip (pseudo_of h (int len))" "take len data"] assms(2)
  by (simp add: ip_data.length_pre bsum_pseudo)

lemma checkIP6DATAchecksum_iff:
  assumes "len \<le> length data"
  shows "checkIP6DATAchecksum h data (int len) = Some
    (if (pseudo6_sum (ip6_src h) (ip6_dst h) (unat (ntohs (ip6_plen h))) (ip6_nxt h) +
         bsum (take len data)) mod 65535 = 0 then 1 else 0)"
  unfolding ip6_data.accept_iff [OF assms]
  using two_parts_zero [of "enc_pseudo_ip6 (pseudo6_of h)" "take len data"]
  by (simp add: ip6_data.length_pre bsum_pseudo6)

text \<open>C37: For a length within the data, \<open>checkIPDATAchecksum\<close> and \<open>checkIP6DATAchecksum\<close> accept
  exactly the segments whose one's complement sum together with the pseudo header of RFC 793 and
  RFC 8200 (addresses, protocol, length) is zero; the layout of the pseudo header structures,
  with their eight byte length field and the padding, does not disturb the sum.\<close>

theorem transport_checks_correct:
  assumes "len \<le> length data" and "len < 65536"
  shows "checkIPDATAchecksum h data (int len) = Some
      (if (pseudo_sum (ip_saddr h) (ip_daddr h) (ip_protocol h) len + bsum (take len data)) mod 65535 = 0
       then 1 else 0) \<and>
    checkIP6DATAchecksum (h6\<lparr>ip6_plen := htons (of_nat len)\<rparr>) data (int len) = Some
      (if (pseudo6_sum (ip6_src h6) (ip6_dst h6) len (ip6_nxt h6) + bsum (take len data)) mod 65535 = 0
       then 1 else 0)"
  using checkIPDATAchecksum_iff [OF assms, of h]
    checkIP6DATAchecksum_iff [OF assms(1), of "h6\<lparr>ip6_plen := htons (of_nat len)\<rparr>"] assms(2)
  by (simp add: unat_of_nat)

text \<open>A UDP datagram of 8 bytes from 10.0.0.1 to 10.0.0.2\<close>

definition ex_iphdr :: iphdr where
  "ex_iphdr = \<lparr>ip_ihl = 5, ip_version = 4, ip_tos = 0, ip_tot_len = htons 28, ip_id = 0,
     ip_frag_off = 0, ip_ttl = 64, ip_protocol = 17, ip_check = 0,
     ip_saddr = le32 10 0 0 1, ip_daddr = le32 10 0 0 2\<rparr>"

definition ex_udp :: bytes where
  "ex_udp = [0, 53, 0, 53, 0, 8, 0xEB, 0x71]"

definition ex_ip6 :: ip6_hdr where
  "ex_ip6 = \<lparr>ip6_flow = 0, ip6_plen = 0, ip6_nxt = 17, ip6_hlim = 1, ip6_src = IN6 0 0 0 0, ip6_dst = IN6 0 0 0 0\<rparr>"

theorem transport_checks_correct_witness:
  "checkIPDATAchecksum ex_iphdr ex_udp 8 = Some 1 \<and>
   checkIP6DATAchecksum (ex_ip6\<lparr>ip6_plen := htons 8\<rparr>) ex_udp 8 = Some 0"
  using transport_checks_correct [of 8 ex_udp ex_iphdr ex_ip6]
  by (simp add: ex_iphdr_def ex_udp_def ex_ip6_def pseudo_sum_def pseudo6_sum_def)

end
