(* ===== verification/PcapPrint.thy ===== *)
theory PcapPrint
  imports PcapHeaders NetUtil
begin

text \<open>
  \<open>pcap/print.c\<close>: the text of each header. Every function returns what it writes to \<open>fp\<close>, or
  \<open>None\<close> if it reads outside an object. The address functions are in theory \<open>Printing\<close>.
\<close>

text \<open>\<open>%u\<close> and \<open>%x\<close> of an unsigned field\<close>

definition udec :: "'a::len word \<Rightarrow> string" where
  "udec w = dec_str (unat w)"

definition xhex :: "'a::len word \<Rightarrow> string" where
  "xhex w = hex_str (unat w)"

text \<open>\<open>table[i]\<close>\<close>

definition lookup :: "string list \<Rightarrow> nat \<Rightarrow> string option" where
  "lookup tab i = (if i < length tab then Some (tab ! i) else None)"

section \<open>Ethernet and ARP\<close>

definition pcap_my_ether_ntoa_r :: "mac \<Rightarrow> nat \<Rightarrow> string" where
  "pcap_my_ether_ntoa_r hwaddr size' = snprintf size' (mac_str hwaddr)"

definition pcap_PrintEtherHeader :: "ether_header \<Rightarrow> string" where
  "pcap_PrintEtherHeader eh =
     ''ether_header-----------------------'' @ nl @
     ''ether_dhost='' @ pcap_my_ether_ntoa_r (ether_dhost eh) 80 @ nl @
     ''ether_shost='' @ pcap_my_ether_ntoa_r (ether_shost eh) 80 @ nl @
     ''ether_type='' @ pad2 (upper_hex_str (unat (ntohs (ether_type eh)))) @ nl @
     ether_type_name (ntohs (ether_type eh)) @ nl"

definition hrd :: "string list" where
  "hrd = [''From KA9Q: NET/ROM pseudo'', ''Ethernet 10/100Mbps.'', ''Experimental Ethernet.'',
     ''AX.25 Level 2'', ''PROnet token ring.'', ''Chaosnet.'', ''IEEE 802.2 Ethernet/TR/TB.'',
     ''ARCnet'', ''APPLEtalk.'', ''undefine'', ''undefine'', ''undefine'', ''undefine'',
     ''undefine'', ''undefine'', ''Frame Relay DLCI.'', ''undefine'', ''undefine'', ''undefine'',
     ''ATM.'', ''undefine'', ''undefine'', ''undefine'', ''Metricom STRIP (new IANA id).'']"

definition arp_ops :: "string list" where
  "arp_ops = [''undefine'', ''ARP request'', ''ARP reply'', ''RARP request'', ''RARP reply'',
     ''undefine'', ''undefine'', ''undefine'', ''InARP request'', ''InARP reply'', ''(ATM)ARP NAK.'']"

definition PrintArp :: "ether_arp \<Rightarrow> string option" where
  "PrintArp arp = do {
     h \<leftarrow> (if unat (ntohs (arp_hrd arp)) \<le> 23
           then map_option (\<lambda>s. ''('' @ s @ ''), '') (lookup hrd (unat (ntohs (arp_hrd arp))))
           else Some ''(undefined), '');
     p \<leftarrow> Some (if ntohs (arp_pro arp) = ETHERTYPE_IP then ''(IP)''
               else if ntohs (arp_pro arp) = ETHERTYPE_ARP then ''(ARP)''
               else if ntohs (arp_pro arp) = ETH_P_IPV6 then ''(IPv6)'' else ''(unknown)'');
     q \<leftarrow> (if unat (ntohs (arp_op arp)) \<le> 10
           then map_option (\<lambda>s. ''('' @ s @ '')'') (lookup arp_ops (unat (ntohs (arp_op arp))))
           else Some ''(undefine)'');
     Some (''arp--------------------------------'' @ nl @
       ''arp_hrd='' @ udec (ntohs (arp_hrd arp)) @ nl @ h @
       ''arp_pro='' @ udec (ntohs (arp_pro arp)) @ nl @ p @ nl @
       ''arp_hln='' @ udec (arp_hln arp) @ nl @
       ''arp_pln='' @ udec (arp_pln arp) @ nl @
       ''arp_op='' @ udec (ntohs (arp_op arp)) @ nl @ q @ nl @
       ''arp_sha'' @ pcap_my_ether_ntoa_r (arp_sha arp) 80 @ nl @
       ''arp_spa'' @ arp_ip2str (arp_spa arp) 80 @ nl @
       ''arp_tha'' @ pcap_my_ether_ntoa_r (arp_tha arp) 80 @ nl @
       ''arp_tpa'' @ arp_ip2str (arp_tpa arp) 80 @ nl)
   }"

section \<open>IP\<close>

definition Proto :: "string list" where
  "Proto = [''undifined'', ''ICMP'', ''IGMP'', ''undifined'', ''IPIP'', ''undifined'', ''TCP'',
     ''undifined'', ''EGP'', ''undifined'', ''undifined'', ''undifined'', ''PUP'', ''undifined'',
     ''undifined'', ''undifined'', ''undifined'', ''UDP'']"

definition proto_name :: "u8 \<Rightarrow> string option" where
  "proto_name p = (if unat p \<le> 17
     then map_option (\<lambda>s. ''('' @ s @ ''), '') (lookup Proto (unat p)) else Some ''(undifined), '')"

text \<open>The loop over the option bytes: a colon before every byte but the first\<close>

definition option_text :: "bytes \<Rightarrow> string" where
  "option_text bs = join (CHR '':'') (map (\<lambda>b. pad2 (xhex b)) bs)"

text \<open>Both addresses are printed from \<open>saddr\<close>, as in the code. \<open>buf\<close> is the caller's array.\<close>

definition PrintIpHeader :: "iphdr \<Rightarrow> bytes \<Rightarrow> int \<Rightarrow> string \<Rightarrow> string option" where
  "PrintIpHeader h option' optionLen buf = do {
     p \<leftarrow> proto_name (ip_protocol h);
     opts \<leftarrow> (if optionLen > 0
              then map_option (\<lambda>bs. ''option:'' @ option_text bs) (mread option' 0 (nat optionLen))
              else Some []);
     Some (''ip---------------------------------'' @ nl @
       ''version='' @ udec (ip_version h) @ '', '' @
       ''ihl='' @ udec (ip_ihl h) @ '', '' @
       ''tos='' @ xhex (ip_tos h) @ '', '' @
       ''tot_len='' @ udec (ntohs (ip_tot_len h)) @ '', '' @
       ''id='' @ udec (ntohs (ip_id h)) @ '', '' @
       ''frag_off='' @ xhex (drop_bit 13 (ntohs (ip_frag_off h)) AND 0x07) @ '', '' @
         udec (ntohs (ip_frag_off h) AND 0x1FFF) @ '', '' @
       ''ttl='' @ udec (ip_ttl h) @ '', '' @
       ''protocol='' @ udec (ip_protocol h) @ '', '' @ p @
       ''check='' @ xhex (ip_check h) @ nl @
       ''saddr='' @ ip_ip2str (ip_saddr h) buf 80 @ '', '' @
       ''daddr='' @ ip_ip2str (ip_saddr h) buf 80 @ '', '' @ opts)
   }"

subsection \<open>\<open>inet_ntop(AF_INET6, ...)\<close>\<close>

text \<open>
  The C library's text of an IPv6 address: the eight words in hexadecimal, the first longest run of
  at least two zero words written \<open>::\<close>, and the last four bytes in dotted form after six zero
  words, or five and the word \<open>ffff\<close>. It has at most 45 characters, so it fits the buffer of 80.
\<close>

primrec in6_words :: "in6_addr \<Rightarrow> u16 list" where
  "in6_words (IN6 a b c d) =
     concat (map (\<lambda>w. [htons (ucast w), htons (ucast (drop_bit 16 w))]) [a, b, c, d])"

definition zero_run :: "u16 list \<Rightarrow> nat \<Rightarrow> nat" where
  "zero_run ws i = length (takeWhile (\<lambda>w. w = 0) (drop i ws))"

text \<open>Start and length of the run that is left out; \<open>None\<close> when no run has two words\<close>

definition best_run :: "u16 list \<Rightarrow> (nat \<times> nat) option" where
  "best_run ws =
     fold (\<lambda>i best. let l = zero_run ws i in
             if 2 \<le> l \<and> (case best of None \<Rightarrow> True | Some (_, m) \<Rightarrow> m < l) then Some (i, l) else best)
       [0..<length ws] None"

primrec dotted_tail :: "in6_addr \<Rightarrow> string" where
  "dotted_tail (IN6 a b c d) =
     dotted (IP4 (ucast d) (ucast (drop_bit 8 d)) (ucast (drop_bit 16 d)) (ucast (drop_bit 24 d)))"

fun ntop6_words :: "in6_addr \<Rightarrow> (nat \<times> nat) option \<Rightarrow> nat \<Rightarrow> u16 list \<Rightarrow> string" where
  "ntop6_words a best i [] =
     (case best of Some (b, l) \<Rightarrow> if b + l = 8 then '':'' else [] | None \<Rightarrow> [])"
| "ntop6_words a best i (w # ws) =
     (let inside = (case best of Some (b, l) \<Rightarrow> b \<le> i \<and> i < b + l | None \<Rightarrow> False);
          colon = (if i \<noteq> 0 then '':'' else []);
          v4 = (i = 6 \<and> (best = Some (0, 6) \<or> best = Some (0, 5) \<and> in6_words a ! 5 = 0xFFFF))
      in if inside then
           (if map_option fst best = Some i then '':'' else []) @ ntop6_words a best (i + 1) ws
         else if v4 then colon @ dotted_tail a
         else colon @ xhex w @ ntop6_words a best (i + 1) ws)"

definition inet_ntop6 :: "in6_addr \<Rightarrow> string" where
  "inet_ntop6 a = ntop6_words a (best_run (in6_words a)) 0 (in6_words a)"

definition PrintIp6Header :: "ip6_hdr \<Rightarrow> string option" where
  "PrintIp6Header h = do {
     p \<leftarrow> proto_name (ip6_nxt h);
     Some (''ip6--------------------------------'' @ nl @
       ''ip6_flow='' @ xhex (ip6_flow h) @ '', '' @
       ''ip6_plen='' @ udec (ntohs (ip6_plen h)) @ '', '' @
       ''ip6_nxt='' @ udec (ip6_nxt h) @ '', '' @ p @
       ''ip6_hlim='' @ udec (ip6_hlim h) @ '', '' @
       ''ip6_src='' @ inet_ntop6 (ip6_src h) @ nl @
       ''ip6_dst='' @ inet_ntop6 (ip6_dst h) @ nl)
   }"

section \<open>ICMP\<close>

text \<open>The source has no comma after \<open>"Information Request"\<close>: the table has 18 entries.\<close>

definition icmp_types :: "string list" where
  "icmp_types = [''Echo Reply'', ''undifined'', ''undifined'', ''Destination Unreachable'',
     ''Source Quench'', ''Redirect'', ''undifined'', ''undifined'', ''Echo Request'',
     ''Router Adverisment'', ''Router Selection'', ''Time Exceeded for Datagram'',
     ''Parameter Problem on Datagram'', ''Timestamp Request'', ''Timestamp Reply'',
     ''Information Request'' @ ''Information Reply'', ''Address Mask Request'', ''Address Mask Reply'']"

definition PrintIcmp :: "icmp \<Rightarrow> string option" where
  "PrintIcmp i = do {
     t \<leftarrow> (if unat (icmp_type i) \<le> 18
           then map_option (\<lambda>s. ''('' @ s @ ''), '') (lookup icmp_types (unat (icmp_type i)))
           else Some ''(undifined), '');
     Some (''icmp-------------------------------'' @ nl @
       ''icmp_type='' @ udec (icmp_type i) @ '', '' @ t @
       ''icmp_code='' @ udec (icmp_code i) @ '', '' @
       ''icmp_cksum='' @ udec (ntohs (icmp_cksum i)) @ nl @
       (if icmp_type i = 0 \<or> icmp_type i = 8
        then ''icmp_id='' @ udec (ntohs (icmp_id i)) @ '', '' @
             ''icmp_seq='' @ udec (ntohs (icmp_seq i)) @ '', ''
        else []))
   }"

text \<open>The chain of comparisons, in the order of the code\<close>

definition icmp6_name :: "u8 \<Rightarrow> string" where
  "icmp6_name t =
     (if t \<le> 1 then ''(Destionation Unreachable), '' else if t \<le> 1 then ''(undifined), ''
      else if t \<le> 2 then ''(Packet too Big), '' else if t \<le> 3 then ''(Time Exceeded), ''
      else if t \<le> 4 then ''(Parameter Problem), '' else if t \<le> 128 then ''(Echo Request), ''
      else if t \<le> 128 then ''(Echo Reply), '' else ''(undifined), '')"

definition PrintIcmp6 :: "icmp6_hdr \<Rightarrow> string" where
  "PrintIcmp6 i =
     ''icmp6------------------------------'' @ nl @
     ''icmp6_type='' @ udec (icmp6_type i) @ '', '' @ icmp6_name (icmp6_type i) @
     ''icmp6_code='' @ udec (icmp6_code i) @ '', '' @
     ''icmp6_cksum='' @ udec (ntohs (icmp6_cksum i)) @ nl @
     (if icmp6_type i = 128 \<or> icmp6_type i = 129
      then ''icmp6_id='' @ udec (ntohs (icmp6_id i)) @ '', '' @
           ''icmp6_seq='' @ udec (ntohs (icmp6_seq i)) @ '', ''
      else [])"

section \<open>TCP and UDP\<close>

text \<open>\<open>ntohs\<close> of a 32 bit field: the argument is converted to 16 bits first.\<close>

definition PrintTcp :: "tcphdr \<Rightarrow> string" where
  "PrintTcp t =
     ''tcp--------------------------------'' @ nl @
     ''source='' @ udec (ntohs (tcp_source t)) @ '', '' @
     ''dest='' @ udec (ntohs (tcp_dest t)) @ nl @
     ''seq='' @ udec (ntohs (ucast (tcp_seq t))) @ nl @
     ''ack_seq='' @ udec (ntohs (ucast (tcp_ack_seq t))) @ nl @
     ''doff='' @ udec (tcp_doff t) @ '', '' @
     ''urg='' @ udec (tcp_urg t) @ '', '' @
     ''ack='' @ udec (tcp_ack t) @ '', '' @
     ''psh='' @ udec (tcp_psh t) @ '', '' @
     ''rst='' @ udec (tcp_rst t) @ '', '' @
     ''syn='' @ udec (tcp_syn t) @ '', '' @
     ''fin='' @ udec (tcp_fin t) @ '', '' @
     ''th_win='' @ udec (ntohs (tcp_window t)) @ nl @
     ''th_sum='' @ udec (ntohs (tcp_check t)) @ '', '' @
     ''th_urp='' @ udec (ntohs (tcp_urg_ptr t)) @ nl"

definition PrintUdp :: "udphdr \<Rightarrow> string" where
  "PrintUdp u =
     ''udp--------------------------------'' @ nl @
     ''source='' @ udec (ntohs (udp_source u)) @ '', '' @
     ''dest='' @ udec (ntohs (udp_dest u)) @ nl @
     ''len='' @ udec (udp_len u) @ '', '' @
     ''check='' @ udec (ntohs (udp_check u)) @ nl"

section \<open>Which headers can be printed\<close>

lemma lookup_Some: "i < length tab \<Longrightarrow> lookup tab i = Some (tab ! i)"
  by (simp add: lookup_def)

lemma table_lengths [simp]:
  "length hrd = 24" "length arp_ops = 11" "length Proto = 18" "length icmp_types = 18"
  by (simp_all add: hrd_def arp_ops_def Proto_def icmp_types_def)

lemma proto_name_Some: obtains s where "proto_name p = Some s"
proof
  show "proto_name p = Some (if unat p \<le> 17 then ''('' @ Proto ! unat p @ ''), '' else ''(undifined), '')"
    by (simp add: proto_name_def lookup_def)
qed

lemma PrintArp_Some: "\<exists>s. PrintArp arp = Some s"
  by (simp add: PrintArp_def lookup_def Let_def)

lemma PrintIpHeader_Some:
  assumes "nat optionLen \<le> length opt"
  shows "\<exists>s. PrintIpHeader h opt optionLen buf = Some s"
proof -
  obtain p where p: "proto_name (ip_protocol h) = Some p" by (rule proto_name_Some)
  have o: "mread opt 0 (nat optionLen) = Some (take (nat optionLen) opt)"
    using assms by (simp add: mread_Some)
  show ?thesis unfolding PrintIpHeader_def p o by simp
qed

lemma PrintIp6Header_Some: "\<exists>s. PrintIp6Header h = Some s"
proof -
  obtain p where p: "proto_name (ip6_nxt h) = Some p" by (rule proto_name_Some)
  show ?thesis unfolding PrintIp6Header_def p by simp
qed

lemma PrintIcmp_Some_iff: "(\<exists>s. PrintIcmp i = Some s) \<longleftrightarrow> icmp_type i \<noteq> 18"
proof -
  have "unat (icmp_type i) = 18 \<longleftrightarrow> icmp_type i = 18" by (simp add: word_unat_eq_iff)
  then show ?thesis by (auto simp: PrintIcmp_def lookup_def)
qed

end
