(* ===== verification/PcapAnalyze.thy ===== *)
theory PcapAnalyze
  imports PcapChecksum PcapPrint
begin

text \<open>
  \<open>pcap/analyze.c\<close> and the capture loop of \<open>pcap/pcap.c\<close>. A packet pointer is an offset into the
  receive buffer, an access outside of it is \<open>None\<close>. A function returns its return code and what
  it writes to the two streams, in order.
\<close>

datatype printed = Stdout string | Stderr string | Perror string

type_synonym analysis = "(int \<times> printed list) option"

text \<open>\<^verbatim>\<open>fprintf(stderr, "lest(%d) < sizeof(...)\n", lest)\<close>\<close>

definition too_short :: "int \<Rightarrow> string \<Rightarrow> printed" where
  "too_short lest s = Stderr (''lest('' @ int_str lest @ '') < sizeof(struct '' @ s @ '')'' @ nl)"

text \<open>What a call appends to the output so far\<close>

definition after :: "printed list \<Rightarrow> analysis \<Rightarrow> analysis" where
  "after out a = map_option (\<lambda>(r, out'). (r, out @ out')) a"

text \<open>The return code of the inner analysis is dropped.\<close>

definition ignoring :: "analysis \<Rightarrow> analysis" where
  "ignoring a = map_option (\<lambda>(_, out). (0, out)) a"

section \<open>The inner protocols\<close>

definition AnalyzeArp :: "bytes \<Rightarrow> nat \<Rightarrow> int \<Rightarrow> analysis" where
  "AnalyzeArp buf ptr lest =
     (if lt_sizeof lest 28 then Some (-1, [too_short lest ''ether_arp''])
      else do {
        bs \<leftarrow> mread buf ptr 28;
        t \<leftarrow> PrintArp (dec_ether_arp bs);
        Some (0, [Stdout t])
      })"

text \<open>There is no \<open>return\<close> after the message; \<open>PrintIcmp\<close> reads the first eight bytes.\<close>

definition AnalyzeIcmp :: "bytes \<Rightarrow> nat \<Rightarrow> int \<Rightarrow> analysis" where
  "AnalyzeIcmp buf ptr lest = do {
     bs \<leftarrow> mread buf ptr 8;
     t \<leftarrow> PrintIcmp (dec_icmp bs);
     Some (0, (if lt_sizeof lest sizeof_icmp then [too_short lest ''icmp''] else []) @ [Stdout t])
   }"

definition AnalyzeIcmp6 :: "bytes \<Rightarrow> nat \<Rightarrow> int \<Rightarrow> analysis" where
  "AnalyzeIcmp6 buf ptr lest =
     (if lt_sizeof lest 8 then Some (-1, [too_short lest ''icmp6_hdr''])
      else do { bs \<leftarrow> mread buf ptr 8; Some (0, [Stdout (PrintIcmp6 (dec_icmp6 bs))]) })"

definition AnalyzeTcp :: "bytes \<Rightarrow> nat \<Rightarrow> int \<Rightarrow> analysis" where
  "AnalyzeTcp buf ptr lest =
     (if lt_sizeof lest 20 then Some (-1, [too_short lest ''tcphdr''])
      else do { bs \<leftarrow> mread buf ptr 20; Some (0, [Stdout (PrintTcp (dec_tcphdr bs))]) })"

definition AnalyzeUdp :: "bytes \<Rightarrow> nat \<Rightarrow> int \<Rightarrow> analysis" where
  "AnalyzeUdp buf ptr lest =
     (if lt_sizeof lest 8 then Some (-1, [too_short lest ''udphdr''])
      else do { bs \<leftarrow> mread buf ptr 8; Some (0, [Stdout (PrintUdp (dec_udphdr bs))]) })"

section \<open>\<open>AnalyzeIp\<close>\<close>

definition IPPROTO_ICMP :: u8 where "IPPROTO_ICMP = 1"
definition IPPROTO_TCP :: u8 where "IPPROTO_TCP = 6"
definition IPPROTO_UDP :: u8 where "IPPROTO_UDP = 17"
definition IPPROTO_ICMPV6 :: u8 where "IPPROTO_ICMPV6 = 58"

lemmas ipprotos = IPPROTO_ICMP_def IPPROTO_TCP_def IPPROTO_UDP_def IPPROTO_ICMPV6_def

text \<open>\<open>len = ntohs(iphdr->tot_len) - iphdr->ihl * 4\<close>\<close>

definition data_len :: "iphdr \<Rightarrow> int" where
  "data_len h = int (unat (ntohs (ip_tot_len h))) - 4 * int (unat (ip_ihl h))"

text \<open>The part after the header was printed: \<open>ptr\<close> is behind the options.\<close>

definition AnalyzeIp_data :: "bytes \<Rightarrow> iphdr \<Rightarrow> nat \<Rightarrow> int \<Rightarrow> analysis" where
  "AnalyzeIp_data buf h ptr lest =
     (if ip_protocol h = IPPROTO_ICMP then do {
        s \<leftarrow> pcap_checksum (drop ptr buf) (data_len h);
        (if s \<noteq> 0 \<and> s \<noteq> 0xFFFF then Some (-1, [Stderr (''bad icmp checksum'' @ nl)])
         else ignoring (AnalyzeIcmp buf ptr lest))
      } else if ip_protocol h = IPPROTO_TCP then do {
        ok \<leftarrow> checkIPDATAchecksum h (drop ptr buf) (data_len h);
        (if ok = 0 then Some (-1, [Stderr (''bad tcp checksum'' @ nl)])
         else ignoring (AnalyzeTcp buf ptr lest))
      } else if ip_protocol h = IPPROTO_UDP then do {
        c \<leftarrow> mread buf (ptr + 6) 2;
        bad \<leftarrow> (if u16_at c 0 \<noteq> 0
                then map_option (\<lambda>ok. ok = 0) (pcap_checkIPchecksum (enc_iphdr h) (drop ptr buf) (data_len h))
                else Some False);
        (if bad then Some (-1, [Stderr (''bad udp checksum'' @ nl)])
         else ignoring (AnalyzeUdp buf ptr lest))
      } else Some (0, []))"

text \<open>
  Without options (\<open>optionLen <= 0\<close>) the code passes \<open>option\<close> uninitialised and neither callee
  uses it: \<open>[]\<close> here.
\<close>

definition AnalyzeIp :: "bytes \<Rightarrow> nat \<Rightarrow> int \<Rightarrow> analysis" where
  "AnalyzeIp buf ptr size' =
     (let lest = size'
      in if lt_sizeof lest 20 then Some (-1, [too_short lest ''iphdr''])
         else do {
           bs \<leftarrow> mread buf ptr 20;
           let h = dec_iphdr bs;
           let ptr = ptr + 20;
           let lest = lest - 20;
           let optionLen = option_len (ip_ihl h);
           (if optionLen > 0 \<and> optionLen \<ge> 1500
            then Some (-1, [Stderr (''IP optionLen('' @ int_str optionLen @ ''): too big'' @ nl)])
            else do {
              let option' = (if optionLen > 0 then drop ptr buf else []);
              let ptr = (if optionLen > 0 then ptr + nat optionLen else ptr);
              let lest = (if optionLen > 0 then lest - optionLen else lest);
              ok \<leftarrow> pcap_checkIPchecksum bs option' optionLen;
              (if ok = 0 then Some (-1, [Stderr (''bad ip checksum'' @ nl)])
               else do {
                 t \<leftarrow> PrintIpHeader h option' optionLen [];
                 after [Stdout t] (AnalyzeIp_data buf h ptr lest)
               })
            })
         })"

section \<open>\<open>AnalyzeIpv6\<close>\<close>

text \<open>No function of the program calls it.\<close>

definition AnalyzeIpv6_data :: "bytes \<Rightarrow> ip6_hdr \<Rightarrow> nat \<Rightarrow> int \<Rightarrow> analysis" where
  "AnalyzeIpv6_data buf h ptr lest =
     (let len = int (unat (ntohs (ip6_plen h)))
      in if ip6_nxt h = IPPROTO_ICMPV6 then do {
           ok \<leftarrow> checkIP6DATAchecksum h (drop ptr buf) len;
           (if ok = 0 then Some (-1, [Stderr (''bad icmp6 checksum'' @ nl)])
            else ignoring (AnalyzeIcmp6 buf ptr lest))
         } else if ip6_nxt h = IPPROTO_TCP then do {
           ok \<leftarrow> checkIP6DATAchecksum h (drop ptr buf) len;
           (if ok = 0 then Some (-1, [Stderr (''bad tcp6 checksum'' @ nl)])
            else ignoring (AnalyzeTcp buf ptr lest))
         } else if ip6_nxt h = IPPROTO_UDP then do {
           ok \<leftarrow> checkIP6DATAchecksum h (drop ptr buf) len;
           (if ok = 0 then Some (-1, [Stderr (''bad udp6 checksum'' @ nl)])
            else ignoring (AnalyzeUdp buf ptr lest))
         } else Some (0, []))"

definition AnalyzeIpv6 :: "bytes \<Rightarrow> nat \<Rightarrow> int \<Rightarrow> analysis" where
  "AnalyzeIpv6 buf ptr lest =
     (if lt_sizeof lest 40 then Some (-1, [too_short lest ''ip6_hdr''])
      else do {
        bs \<leftarrow> mread buf ptr 40;
        let h = dec_ip6_hdr bs;
        t \<leftarrow> PrintIp6Header h;
        after [Stdout t] (AnalyzeIpv6_data buf h (ptr + 40) (lest - 40))
      })"

section \<open>\<open>AnalyzePacket\<close> and the capture loop\<close>

definition pcap_AnalyzePacket :: "bytes \<Rightarrow> int \<Rightarrow> analysis" where
  "pcap_AnalyzePacket buf size' =
     (let lest = size'
      in if lt_sizeof lest 14 then Some (-1, [too_short lest ''ether_header''])
         else do {
           bs \<leftarrow> mread buf 0 14;
           let eh = dec_ether_header bs;
           let lest = lest - 14;
           let head = [Stderr (''Packet['' @ int_str size' @ ''bytes]'' @ nl), Stdout (pcap_PrintEtherHeader eh)];
           (if ntohs (ether_type eh) = ETHERTYPE_ARP then ignoring (after head (AnalyzeArp buf 14 lest))
            else if ntohs (ether_type eh) = ETHERTYPE_IP then ignoring (after head (AnalyzeIp buf 14 lest))
            else if ntohs (ether_type eh) = ETH_P_IPV6 then ignoring (after head (AnalyzeIp buf 14 lest))
            else Some (0, []))
         })"

text \<open>The loop of \<open>main\<close> over the results of the first calls of \<open>read\<close>; it has no exit.\<close>

fun capture :: "(int \<times> bytes) list \<Rightarrow> bytes \<Rightarrow> (bytes \<times> printed list) option" where
  "capture [] buf = Some (buf, [])"
| "capture ((size', bs) # rs) buf =
     (if size' \<le> 0
      then map_option (\<lambda>(b, out). (b, Perror ''read'' # out)) (capture rs buf)
      else do {
        buf \<leftarrow> mwrite buf 0 bs;
        (_, out) \<leftarrow> pcap_AnalyzePacket buf size';
        (buf, out') \<leftarrow> capture rs buf;
        Some (buf, out @ out')
      })"

text \<open>\<open>main\<close>: the return code, if it returns, and the output\<close>

definition pcap_InitRawSocket :: "raw_env \<Rightarrow> string \<Rightarrow> bool \<Rightarrow> bool \<Rightarrow> int \<times> syscall list" where
  "pcap_InitRawSocket = InitRawSocket"

definition pcap_main ::
  "string list \<Rightarrow> raw_env \<Rightarrow> (int \<times> bytes) list \<Rightarrow> bytes \<Rightarrow> (int option \<times> printed list) option" where
  "pcap_main argv e rs buf =
     (case argv of
        _ # dev # _ \<Rightarrow>
          (if fst (pcap_InitRawSocket e dev False False) = -1
           then Some (Some (-1), [Stderr (''InitRawSocket:error:'' @ dev @ nl)])
           else map_option (\<lambda>(_, out). (None, out)) (capture rs buf))
      | _ \<Rightarrow> Some (Some 1, [Stderr (''pcap device-name'' @ nl)]))"

end
