(* ===== verification/PcapProps.thy ===== *)
theory PcapProps
  imports PcapAnalyze
begin

text \<open>
  What \<open>pcap\<close> reports: the headers of the packets whose checksums are right, without reading
  outside its receive buffer if the announced lengths allow it, and the frames for which it does
  something else.
\<close>

section \<open>Bounds\<close>

lemma checksum_nonpos: "len \<le> 0 \<Longrightarrow> checksum data len = Some 0xFFFF"
proof -
  assume len: "len \<le> 0"
  have "checksum data len = checksum data 0"
    using len by (simp add: checksum_def sum_loop_neg add_odd_def)
  also have "\<dots> = Some 0xFFFF" using checksum_eq [of 0 data] by (simp add: oc_def)
  finally show ?thesis .
qed

lemma checksum_total:
  assumes "len \<le> int (length data)"
  obtains s where "checksum data len = Some s"
proof (cases "len \<le> 0")
  case True
  with checksum_nonpos show ?thesis using that by blast
next
  case False
  then show ?thesis using checksum_eq [of "nat len" data] assms that by simp
qed

context two_part_check
begin

lemma total:
  assumes "len \<le> int (length data)"
  obtains b where "check x data len = Some b"
proof (cases "len \<le> 0")
  case True
  with nonpos show ?thesis using that by blast
next
  case False
  then show ?thesis using accept_iff [of "nat len" data x] assms that by simp
qed

end

text \<open>Where the data of an IP packet starts in the buffer\<close>

definition ip_hdr_of :: "bytes \<Rightarrow> iphdr" where
  "ip_hdr_of buf = dec_iphdr (take 20 (drop 14 buf))"

definition data_at :: "bytes \<Rightarrow> nat" where
  "data_at buf = 34 + nat (option_len (ip_ihl (ip_hdr_of buf)))"

definition announced_ok :: "bytes \<Rightarrow> bool" where
  "announced_ok buf \<longleftrightarrow>
     int (data_at buf) + data_len (ip_hdr_of buf) \<le> int (length buf) \<and>
     \<not> (ip_protocol (ip_hdr_of buf) = IPPROTO_ICMP \<and> buf ! data_at buf = 18)"

lemma data_at_le: "data_at buf \<le> 74"
  using option_len_bounds [of "ip_ihl (ip_hdr_of buf)"] by (simp add: data_at_def)

lemma AnalyzeIcmp_eq:
  assumes "ptr + 8 \<le> length buf"
  shows "AnalyzeIcmp buf ptr lest = do {
     t \<leftarrow> PrintIcmp (dec_icmp (take 8 (drop ptr buf)));
     Some (0, (if lt_sizeof lest sizeof_icmp then [too_short lest ''icmp''] else []) @ [Stdout t]) }"
  unfolding AnalyzeIcmp_def mread_Some [OF assms] by simp

lemma dec_icmp_type: "ptr + 8 \<le> length buf \<Longrightarrow> icmp_type (dec_icmp (take 8 (drop ptr buf))) = buf ! ptr"
  by (simp add: dec_icmp_def)

lemma AnalyzeIcmp_Some:
  assumes "ptr + 8 \<le> length buf" and "buf ! ptr \<noteq> 18"
  obtains t where "PrintIcmp (dec_icmp (take 8 (drop ptr buf))) = Some t"
    and "AnalyzeIcmp buf ptr lest =
      Some (0, (if lt_sizeof lest sizeof_icmp then [too_short lest ''icmp''] else []) @ [Stdout t])"
proof -
  obtain t where t: "PrintIcmp (dec_icmp (take 8 (drop ptr buf))) = Some t"
    using PrintIcmp_Some_iff [of "dec_icmp (take 8 (drop ptr buf))"] assms dec_icmp_type by auto
  then have "AnalyzeIcmp buf ptr lest =
      Some (0, (if lt_sizeof lest sizeof_icmp then [too_short lest ''icmp''] else []) @ [Stdout t])"
    unfolding AnalyzeIcmp_eq [OF assms(1)] by simp
  with t show ?thesis by (rule that)
qed

lemma AnalyzeTcp_Some: "ptr + 20 \<le> length buf \<Longrightarrow> \<exists>r o'. AnalyzeTcp buf ptr lest = Some (r, o')"
  by (auto simp: AnalyzeTcp_def mread_Some)

lemma AnalyzeUdp_Some: "ptr + 8 \<le> length buf \<Longrightarrow> \<exists>r o'. AnalyzeUdp buf ptr lest = Some (r, o')"
  by (auto simp: AnalyzeUdp_def mread_Some)

lemma AnalyzeIp_data_Some:
  assumes l: "ptr + 20 \<le> length buf" and e: "int ptr + data_len h \<le> int (length buf)"
    and t: "ip_protocol h = IPPROTO_ICMP \<Longrightarrow> buf ! ptr \<noteq> 18"
  shows "\<exists>r o'. AnalyzeIp_data buf h ptr lest = Some (r, o')"
proof -
  have d: "data_len h \<le> int (length (drop ptr buf))" using l e by simp
  obtain s where s: "checksum (drop ptr buf) (data_len h) = Some s" using checksum_total [OF d] .
  obtain b where b: "checkIPDATAchecksum h (drop ptr buf) (data_len h) = Some b" using ip_data.total [OF d] .
  obtain c where c: "pcap_checkIPchecksum (enc_iphdr h) (drop ptr buf) (data_len h) = Some c"
    using ip_hdr.total [OF d] .
  have m: "mread buf (ptr + 6) 2 = Some (take 2 (drop (ptr + 6) buf))" using l by (simp add: mread_Some)
  consider "ip_protocol h = IPPROTO_ICMP" | "ip_protocol h = IPPROTO_TCP" | "ip_protocol h = IPPROTO_UDP"
    | "ip_protocol h \<notin> {IPPROTO_ICMP, IPPROTO_TCP, IPPROTO_UDP}" by blast
  then show ?thesis
  proof cases
    case 1
    with t have "buf ! ptr \<noteq> 18" by simp
    then obtain u where "AnalyzeIcmp buf ptr lest = Some (0, u)"
      using l by (elim AnalyzeIcmp_Some [rotated]) auto
    then show ?thesis using 1 s by (simp add: AnalyzeIp_data_def pcap_checksum_def ignoring_def)
  next
    case 2
    then show ?thesis using AnalyzeTcp_Some [OF l, of lest] b
      by (auto simp: AnalyzeIp_data_def ipprotos ignoring_def)
  next
    case 3
    then show ?thesis using AnalyzeUdp_Some [of ptr buf lest] l c m
      by (auto simp: AnalyzeIp_data_def ipprotos ignoring_def)
  qed (auto simp: AnalyzeIp_data_def)
qed

text \<open>The analysis of an IP packet at offset 14, up to the data\<close>

definition ip_opts :: "bytes \<Rightarrow> bytes" where
  "ip_opts buf = take (nat (option_len (ip_ihl (ip_hdr_of buf)))) (drop 34 buf)"

definition ip_ok :: "bytes \<Rightarrow> bool" where
  "ip_ok buf \<longleftrightarrow> wsum (take 20 (drop 14 buf) @ ip_opts buf) mod 65535 = 0"

definition ip_text :: "bytes \<Rightarrow> string" where
  "ip_text buf = the (PrintIpHeader (ip_hdr_of buf)
     (if option_len (ip_ihl (ip_hdr_of buf)) > 0 then drop 34 buf else [])
     (option_len (ip_ihl (ip_hdr_of buf))) [])"

definition ip_lest :: "bytes \<Rightarrow> int \<Rightarrow> int" where
  "ip_lest buf n = n - 34 - int (nat (option_len (ip_ihl (ip_hdr_of buf))))"

lemma AnalyzeIp_eq:
  assumes l: "74 \<le> length buf" and n: "34 \<le> n" "n < 2 ^ 31"
  shows "AnalyzeIp buf 14 (n - 14) =
    (if ip_ok buf
     then after [Stdout (ip_text buf)] (AnalyzeIp_data buf (ip_hdr_of buf) (data_at buf) (ip_lest buf n))
     else Some (-1, [Stderr (''bad ip checksum'' @ nl)]))"
proof -
  let ?h = "ip_hdr_of buf" and ?o = "option_len (ip_ihl (ip_hdr_of buf))"
    and ?opt = "if option_len (ip_ihl (ip_hdr_of buf)) > 0 then drop 34 buf else []"
  have o: "?o \<le> 40" by (rule option_len_bounds)
  then have "nat ?o \<le> 40" by simp
  moreover have "40 \<le> length buf - 34" using l by simp
  ultimately have no: "nat ?o \<le> length buf - 34" by (rule le_trans)
  have m: "mread buf 14 20 = Some (take 20 (drop 14 buf))" using l by (simp add: mread_Some)
  have s: "\<not> lt_sizeof (n - 14) 20" using n by (subst lt_sizeof_nonneg) auto
  have c: "pcap_checkIPchecksum (take 20 (drop 14 buf)) ?opt ?o = Some (if ip_ok buf then 1 else 0)"
  proof -
    have "nat ?o \<le> length ?opt" "take (nat ?o) ?opt = ip_opts buf" "length (take 20 (drop 14 buf)) = 20"
      using l no by (simp_all add: ip_opts_def del: nat_le_iff)
    then show ?thesis
      using checkIPchecksum_iff [of "take 20 (drop 14 buf)" ?o ?opt]
      by (simp only: pcap_checkIPchecksum_eq ip_ok_def)
  qed
  have p: "PrintIpHeader ?h ?opt ?o [] = Some (ip_text buf)"
    using PrintIpHeader_Some [of ?o ?opt ?h "[]"] l no by (auto simp: ip_text_def simp del: nat_le_iff)
  have k: "\<not> (?o > 0 \<and> 1500 \<le> ?o)" using o by simp
  have e: "dec_iphdr (take 20 (drop 14 buf)) = ?h" by (simp only: ip_hdr_of_def)
  show ?thesis
  proof (cases "0 < ?o")
    case True
    then show ?thesis
      unfolding AnalyzeIp_def Let_def using s k c p
      by (auto simp: m e data_at_def ip_lest_def)
  next
    case False
    then show ?thesis
      unfolding AnalyzeIp_def Let_def using s k c p
      by (auto simp: m e data_at_def ip_lest_def)
  qed
qed

lemma after_Some_iff: "(\<exists>r o'. after out a = Some (r, o')) \<longleftrightarrow> (\<exists>r o'. a = Some (r, o'))"
  by (cases a) (auto simp: after_def)

lemma ignoring_Some_iff: "(\<exists>r o'. ignoring a = Some (r, o')) \<longleftrightarrow> (\<exists>r o'. a = Some (r, o'))"
  by (cases a) (auto simp: ignoring_def)

lemma AnalyzeIp_short:
  "0 \<le> m \<Longrightarrow> m < 20 \<Longrightarrow> AnalyzeIp buf 14 m = Some (-1, [too_short m ''iphdr''])"
  by (simp add: AnalyzeIp_def)

lemma AnalyzeIp_Some:
  assumes l: "94 \<le> length buf" and n: "14 \<le> n" "n < 2 ^ 31" and a: "announced_ok buf"
  shows "\<exists>r o'. AnalyzeIp buf 14 (n - 14) = Some (r, o')"
proof (cases "n < 34")
  case True
  then show ?thesis using AnalyzeIp_short [of "n - 14" buf] n by simp
next
  case False
  have "\<exists>r o'. AnalyzeIp_data buf (ip_hdr_of buf) (data_at buf) (ip_lest buf n) = Some (r, o')"
    using a l data_at_le [of buf] by (intro AnalyzeIp_data_Some) (auto simp: announced_ok_def)
  then show ?thesis
    using AnalyzeIp_eq [of buf n] False n l by (auto simp: after_def)
qed

lemma AnalyzePacket_Some:
  assumes l: "94 \<le> length buf" and n: "0 \<le> n" "n < 2 ^ 31" and a: "announced_ok buf"
  shows "\<exists>r o'. pcap_AnalyzePacket buf n = Some (r, o')"
proof (cases "n < 14")
  case True
  then show ?thesis using n by (simp add: pcap_AnalyzePacket_def)
next
  case False
  let ?eh = "dec_ether_header (take 14 buf)"
  let ?head = "[Stderr (''Packet['' @ int_str n @ ''bytes]'' @ nl), Stdout (pcap_PrintEtherHeader ?eh)]"
  have m: "mread buf 0 14 = Some (take 14 buf)" using l by (simp add: mread_Some)
  have s: "\<not> lt_sizeof n 14" using n False by simp
  obtain t where t: "PrintArp (dec_ether_arp (take 28 (drop 14 buf))) = Some t"
    using PrintArp_Some by blast
  have arp: "\<exists>r o'. ignoring (after ?head (AnalyzeArp buf 14 (n - 14))) = Some (r, o')"
    unfolding ignoring_Some_iff after_Some_iff AnalyzeArp_def using l by (simp add: mread_Some t)
  have ip: "\<exists>r o'. ignoring (after ?head (AnalyzeIp buf 14 (n - 14))) = Some (r, o')"
    unfolding ignoring_Some_iff after_Some_iff using AnalyzeIp_Some [OF l _ n(2) a] False by simp
  show ?thesis
    unfolding pcap_AnalyzePacket_def Let_def using s arp ip
    by (simp add: m del: append.simps split del: if_split) (simp split: if_split)
qed

section \<open>The capture loop\<close>

text \<open>The results of \<open>read\<close> over the buffer they are stored in: each frame fits the buffer, and the
  length its IP header announces does not lead out of it.\<close>

fun reads_ok :: "(int \<times> bytes) list \<Rightarrow> bytes \<Rightarrow> bool" where
  "reads_ok [] buf \<longleftrightarrow> True"
| "reads_ok ((n, bs) # rs) buf \<longleftrightarrow>
     (if n \<le> 0 then reads_ok rs buf
      else n = int (length bs) \<and> length bs \<le> length buf \<and>
        announced_ok (bs @ drop (length bs) buf) \<and> reads_ok rs (bs @ drop (length bs) buf))"

text \<open>C35: The capture loop never reads or writes outside an object as long as every frame fits the
  65535 bytes of its buffer, the total length in the frame's IP header stays inside the buffer,
  and no ICMP message has type 18.\<close>

theorem capture_safe:
  assumes "reads_ok rs buf" and "length buf = 65535"
  shows "\<exists>buf' out. capture rs buf = Some (buf', out) \<and> length buf' = 65535"
  using assms
proof (induction rs buf rule: reads_ok.induct)
  case (2 n bs rs buf)
  show ?case
  proof (cases "n \<le> 0")
    case True
    then show ?thesis using 2 by auto
  next
    case False
    let ?b = "bs @ drop (length bs) buf"
    have ok: "n = int (length bs)" "length bs \<le> 65535" "announced_ok ?b" "reads_ok rs ?b"
      using 2(3,4) False by auto
    have l: "length ?b = 65535" using ok(2) 2(4) by simp
    have w: "mwrite buf 0 bs = Some ?b" using ok(2) 2(4) by (simp add: mwrite_Some)
    obtain r o' where "pcap_AnalyzePacket ?b n = Some (r, o')"
      using AnalyzePacket_Some [of ?b n] l ok(1-3) by auto
    then show ?thesis using 2(2) [OF False ok(4) l] False w by auto
  qed
qed simp

text \<open>A frame with a UDP datagram from 10.0.0.1 to 10.0.0.2 and correct checksums\<close>

definition ex_udp_frame :: bytes where
  "ex_udp_frame = enc_ether_header \<lparr>ether_dhost = MAC 2 0 0 0 0 1, ether_shost = MAC 2 0 0 0 0 2,
      ether_type = htons ETHERTYPE_IP\<rparr> @
    enc_iphdr (ex_iphdr\<lparr>ip_check := 0xCF66\<rparr>) @ ex_udp"

lemma ex_udp_frame_eval: "ex_udp_frame = [2, 0, 0, 0, 0, 1, 2, 0, 0, 0, 0, 2, 8, 0,
    0x45, 0, 0, 28, 0, 0, 0, 0, 64, 17, 0x66, 0xCF, 10, 0, 0, 1, 10, 0, 0, 2,
    0, 53, 0, 53, 0, 8, 0xEB, 0x71]"
  by (simp add: ex_udp_frame_def enc_ether_header_def enc_iphdr_def ex_iphdr_def ex_udp_def
      bytes16_def enc_nibbles_def ether_consts htons_def)

definition ex_buf :: bytes where
  "ex_buf = ex_udp_frame @ replicate 65493 0"

lemma ex_ip_hdr: "ip_hdr_of (ex_udp_frame @ rest) = ex_iphdr\<lparr>ip_check := 0xCF66\<rparr>"
proof -
  have "take 20 (drop 14 (ex_udp_frame @ rest)) = enc_iphdr (ex_iphdr\<lparr>ip_check := 0xCF66\<rparr>)"
    by (simp add: ex_udp_frame_def ex_udp_def)
  then show ?thesis by (simp add: ip_hdr_of_def)
qed

lemma ex_data_at: "data_at (ex_udp_frame @ rest) = 34" "data_len (ip_hdr_of (ex_udp_frame @ rest)) = 8"
  by (simp_all add: data_at_def data_len_def ex_ip_hdr option_len_eq ex_iphdr_def)

lemma length_ex_udp_frame [simp]: "length ex_udp_frame = 42"
  by (simp add: ex_udp_frame_eval)

lemma ex_announced: "announced_ok (ex_udp_frame @ rest)"
  unfolding announced_ok_def ex_data_at
  by (simp add: ex_ip_hdr ex_iphdr_def ipprotos)

theorem capture_safe_witness:
  "\<exists>buf' out. capture [(42, ex_udp_frame), (-1, []), (42, ex_udp_frame)] (replicate 65535 0) = Some (buf', out) \<and>
     length buf' = 65535"
proof -
  have "reads_ok [(42, ex_udp_frame), (-1, []), (42, ex_udp_frame)] (replicate 65535 0)"
    by (simp add: ex_announced)
  from capture_safe [OF this] show ?thesis by simp
qed

section \<open>What is reported for an IP packet\<close>

definition ip_head :: "bytes \<Rightarrow> int \<Rightarrow> printed list" where
  "ip_head buf n =
     [Stderr (''Packet['' @ int_str n @ ''bytes]'' @ nl),
      Stdout (pcap_PrintEtherHeader (dec_ether_header (take 14 buf))), Stdout (ip_text buf)]"

definition ip_frame :: "bytes \<Rightarrow> int \<Rightarrow> bool" where
  "ip_frame buf n \<longleftrightarrow> length buf = 65535 \<and> int (data_at buf) \<le> n \<and> n \<le> 65535 \<and>
     ntohs (ether_type (dec_ether_header (take 14 buf))) = ETHERTYPE_IP \<and>
     bsum (take 20 (drop 14 buf) @ ip_opts buf) mod 65535 = 0 \<and>
     0 \<le> data_len (ip_hdr_of buf) \<and> int (data_at buf) + data_len (ip_hdr_of buf) \<le> 65535"

definition ip_data :: "bytes \<Rightarrow> bytes" where
  "ip_data buf = take (nat (data_len (ip_hdr_of buf))) (drop (data_at buf) buf)"

lemma AnalyzePacket_ip_frame:
  assumes f: "ip_frame buf n"
    and d: "AnalyzeIp_data buf (ip_hdr_of buf) (data_at buf) (n - int (data_at buf)) = Some (r, o')"
  shows "pcap_AnalyzePacket buf n = Some (0, ip_head buf n @ o')"
proof -
  let ?eh = "dec_ether_header (take 14 buf)"
  have "34 \<le> int (data_at buf)" by (simp add: data_at_def)
  then have n: "34 \<le> n" "n < 2 ^ 31" "length buf = 65535" using f by (simp_all add: ip_frame_def)
  have ok: "ip_ok buf" using f by (simp add: ip_frame_def ip_ok_def wsum_bsum_zero)
  have l: "ip_lest buf n = n - int (data_at buf)" by (simp add: ip_lest_def data_at_def)
  have a: "AnalyzeIp buf 14 (n - 14) = Some (r, Stdout (ip_text buf) # o')"
    using AnalyzeIp_eq [of buf n] n ok d by (simp add: l after_def)
  have m: "mread buf 0 14 = Some (take 14 buf)" using n by (simp add: mread_Some)
  have s: "\<not> lt_sizeof n 14" using n by simp
  have t: "ntohs (ether_type ?eh) = ETHERTYPE_IP" "ETHERTYPE_IP \<noteq> ETHERTYPE_ARP"
    using f by (simp_all add: ip_frame_def ether_consts)
  show ?thesis
    unfolding pcap_AnalyzePacket_def Let_def using s t a
    by (simp add: m ip_head_def ignoring_def after_def)
qed

lemma data_len_less: "data_len h < 65536"
proof -
  have "unat (ntohs (ip_tot_len h)) < 65536" by simp
  then show ?thesis unfolding data_len_def by linarith
qed

lemma pseudo_check:
  assumes "ip_frame buf n"
  shows "checkIPDATAchecksum (ip_hdr_of buf) (drop (data_at buf) buf) (data_len (ip_hdr_of buf)) = Some
    (if (pseudo_sum (ip_saddr (ip_hdr_of buf)) (ip_daddr (ip_hdr_of buf)) (ip_protocol (ip_hdr_of buf))
           (length (ip_data buf)) + bsum (ip_data buf)) mod 65535 = 0 then 1 else 0)"
proof -
  let ?len = "nat (data_len (ip_hdr_of buf))"
  have l: "?len \<le> length (drop (data_at buf) buf)" "?len < 65536" "int ?len = data_len (ip_hdr_of buf)"
    using assms data_len_less [of "ip_hdr_of buf"] by (auto simp: ip_frame_def)
  then have "length (ip_data buf) = ?len" by (simp add: ip_data_def)
  then show ?thesis
    using checkIPDATAchecksum_iff [of ?len "drop (data_at buf) buf" "ip_hdr_of buf"] l
    by (simp add: ip_data_def)
qed

text \<open>C36: For an IPv4 frame with a correct header that carries a TCP segment, \<open>pcap\<close> prints the size,
  the Ethernet and the IP header, and then the TCP header if the segment's checksum over the
  pseudo header of RFC 793 is right and the header was received, and an error otherwise.\<close>

theorem tcp_frame_report:
  assumes "ip_frame buf n" and "ip_protocol (ip_hdr_of buf) = IPPROTO_TCP"
  shows "pcap_AnalyzePacket buf n = Some (0, ip_head buf n @
    [if (pseudo_sum (ip_saddr (ip_hdr_of buf)) (ip_daddr (ip_hdr_of buf)) IPPROTO_TCP
           (length (ip_data buf)) + bsum (ip_data buf)) mod 65535 \<noteq> 0
     then Stderr (''bad tcp checksum'' @ nl)
     else if n - int (data_at buf) < 20 then too_short (n - int (data_at buf)) ''tcphdr''
     else Stdout (PrintTcp (dec_tcphdr (take 20 (drop (data_at buf) buf))))])"
proof -
  have b: "length buf = 65535" "int (data_at buf) \<le> n" "n \<le> 65535"
    using assms(1) by (simp_all add: ip_frame_def)
  have t: "AnalyzeTcp buf (data_at buf) (n - int (data_at buf)) =
    Some (if n - int (data_at buf) < 20 then -1 else 0,
      [if n - int (data_at buf) < 20 then too_short (n - int (data_at buf)) ''tcphdr''
       else Stdout (PrintTcp (dec_tcphdr (take 20 (drop (data_at buf) buf))))])"
    using b data_at_le [of buf] by (simp add: AnalyzeTcp_def mread_Some)
  show ?thesis
    by (rule AnalyzePacket_ip_frame [OF assms(1), where r = "if (pseudo_sum (ip_saddr (ip_hdr_of buf))
          (ip_daddr (ip_hdr_of buf)) IPPROTO_TCP (length (ip_data buf)) + bsum (ip_data buf)) mod 65535 \<noteq> 0
          then -1 else 0"])
      (simp add: AnalyzeIp_data_def pseudo_check [OF assms(1)] assms(2) t ignoring_def IPPROTO_ICMP_def
        IPPROTO_TCP_def)
qed

text \<open>A SYN segment on the same path\<close>

definition ex_tcp_frame :: bytes where
  "ex_tcp_frame = take 16 ex_udp_frame @ [0, 40] @ take 5 (drop 18 ex_udp_frame) @ [6, 0x66, 0xCE] @
     take 8 (drop 26 ex_udp_frame) @
     [0, 99, 0, 80, 0, 0, 0, 1, 0, 0, 0, 0, 0x50, 2, 4, 0, 0x97, 0x2C, 0, 0]"

lemma ex_tcp_frame_eval: "ex_tcp_frame = [2, 0, 0, 0, 0, 1, 2, 0, 0, 0, 0, 2, 8, 0,
    0x45, 0, 0, 40, 0, 0, 0, 0, 64, 6, 0x66, 0xCE, 10, 0, 0, 1, 10, 0, 0, 2,
    0, 99, 0, 80, 0, 0, 0, 1, 0, 0, 0, 0, 0x50, 2, 4, 0, 0x97, 0x2C, 0, 0]"
  by (simp add: ex_tcp_frame_def ex_udp_frame_eval)

lemma ex_tcp_hdr: "ip_hdr_of (ex_tcp_frame @ rest) =
    ex_iphdr\<lparr>ip_tot_len := htons 40, ip_protocol := 6, ip_check := 0xCE66\<rparr>"
  by (simp add: ip_hdr_of_def ex_tcp_frame_eval dec_iphdr_def field_at ex_iphdr_def lo_nibble_def
      hi_nibble_def le16_def htons_def)

lemma ex_tcp_at: "data_at (ex_tcp_frame @ rest) = 34" "data_len (ip_hdr_of (ex_tcp_frame @ rest)) = 20"
  by (simp_all add: data_at_def data_len_def ex_tcp_hdr option_len_eq ex_iphdr_def)

lemma ex_tcp_ok: "ip_frame (ex_tcp_frame @ replicate 65481 0) 54"
proof -
  have "length ex_tcp_frame = 54" by (simp add: ex_tcp_frame_eval)
  moreover have "ip_opts (ex_tcp_frame @ replicate 65481 0) = []"
    by (simp add: ip_opts_def ex_tcp_hdr option_len_eq ex_iphdr_def)
  moreover have "ether_type (dec_ether_header (take 14 (ex_tcp_frame @ replicate 65481 0))) = htons ETHERTYPE_IP"
    by (simp add: ex_tcp_frame_eval dec_ether_header_def field_at ether_consts le16_def htons_def)
  moreover have "bsum (take 20 (drop 14 (ex_tcp_frame @ replicate 65481 0))) mod 65535 = 0"
    by (simp add: ex_tcp_frame_eval)
  ultimately show ?thesis by (simp add: ip_frame_def ex_tcp_at)
qed

theorem tcp_frame_report_witness:
  "pcap_AnalyzePacket (ex_tcp_frame @ replicate 65481 0) 54 = Some (0,
     ip_head (ex_tcp_frame @ replicate 65481 0) 54 @
     [Stdout (PrintTcp (dec_tcphdr (take 20 (drop 34 ex_tcp_frame))))])"
proof -
  have "ip_protocol (ip_hdr_of (ex_tcp_frame @ replicate 65481 0)) = IPPROTO_TCP"
    by (simp add: ex_tcp_hdr ipprotos)
  note r = tcp_frame_report [OF ex_tcp_ok this]
  have d: "ip_data (ex_tcp_frame @ replicate 65481 0) = drop 34 ex_tcp_frame"
    "take 20 (drop 34 (ex_tcp_frame @ replicate 65481 0)) = drop 34 ex_tcp_frame"
    unfolding ip_data_def ex_tcp_at by (simp_all add: ex_tcp_frame_eval)
  have "(pseudo_sum (le32 10 0 0 1) (le32 10 0 0 2) 6 20 + bsum (drop 34 ex_tcp_frame)) mod 65535 = 0"
    by (simp add: pseudo_sum_def ex_tcp_frame_eval)
  moreover have "length (drop 34 ex_tcp_frame) = 20" by (simp add: ex_tcp_frame_eval)
  ultimately show ?thesis
    unfolding r ex_tcp_at(1) d by (simp add: ex_tcp_hdr ex_iphdr_def IPPROTO_TCP_def)
qed

section \<open>Where the report is wrong\<close>

subsection \<open>UDP\<close>

lemma enc_ip_hdr_of: "34 \<le> length buf \<Longrightarrow> enc_iphdr (ip_hdr_of buf) = take 20 (drop 14 buf)"
  by (simp add: ip_hdr_of_def ip.enc_dec)

lemma header_check_on_data:
  assumes f: "ip_frame buf n" and o: "ip_ihl (ip_hdr_of buf) = 5"
  shows "pcap_checkIPchecksum (enc_iphdr (ip_hdr_of buf)) (drop (data_at buf) buf) (data_len (ip_hdr_of buf)) =
    Some (if bsum (ip_data buf) mod 65535 = 0 then 1 else 0)"
proof -
  let ?len = "nat (data_len (ip_hdr_of buf))" and ?h = "take 20 (drop 14 buf)"
  have l: "?len \<le> length (drop (data_at buf) buf)" "int ?len = data_len (ip_hdr_of buf)"
      "length buf = 65535" using f by (auto simp: ip_frame_def)
  have e: "enc_iphdr (ip_hdr_of buf) = ?h" using l(3) by (simp add: enc_ip_hdr_of)
  have "ip_opts buf = []" by (simp add: ip_opts_def option_len_eq o)
  then have h: "65535 dvd bsum ?h" using f by (simp add: ip_frame_def mod_eq_0_iff_dvd)
  have "(wsum ?h + wsum (ip_data buf)) mod 65535 = 0 \<longleftrightarrow> 65535 dvd bsum ?h + bsum (ip_data buf)"
    using two_parts_zero [of ?h "ip_data buf"] l(3) by (simp add: mod_eq_0_iff_dvd)
  also have "\<dots> \<longleftrightarrow> 65535 dvd bsum (ip_data buf)" using h by (rule dvd_add_right_iff)
  finally show ?thesis
    using ip_hdr.accept_iff [OF l(1), of "ip_hdr_of buf"] unfolding l(2) e
    by (simp add: ip_data_def mod_eq_0_iff_dvd)
qed

text \<open>\<open>AnalyzeIp\<close> checks a UDP datagram with \<open>checkIPchecksum\<close>, which sums the IP header in place
  of the pseudo header: a datagram with a correct checksum is reported as bad unless its
  pseudo header sums to zero.\<close>

theorem udp_frame_report:
  assumes "ip_frame buf n" and "ip_protocol (ip_hdr_of buf) = IPPROTO_UDP" and "ip_ihl (ip_hdr_of buf) = 5"
    and "u16_at (take 2 (drop (data_at buf + 6) buf)) 0 \<noteq> 0" and "int (data_at buf) + 8 \<le> n"
    and "(pseudo_sum (ip_saddr (ip_hdr_of buf)) (ip_daddr (ip_hdr_of buf)) IPPROTO_UDP
      (length (ip_data buf)) + bsum (ip_data buf)) mod 65535 = 0"
  shows "pcap_AnalyzePacket buf n = Some (0, ip_head buf n @
    [if pseudo_sum (ip_saddr (ip_hdr_of buf)) (ip_daddr (ip_hdr_of buf)) IPPROTO_UDP
        (length (ip_data buf)) mod 65535 \<noteq> 0
     then Stderr (''bad udp checksum'' @ nl)
     else Stdout (PrintUdp (dec_udphdr (take 8 (drop (data_at buf) buf))))])"
proof -
  let ?p = "pseudo_sum (ip_saddr (ip_hdr_of buf)) (ip_daddr (ip_hdr_of buf)) IPPROTO_UDP (length (ip_data buf))"
  have b: "length buf = 65535" "n \<le> 65535" using assms(1) by (simp_all add: ip_frame_def)
  have "bsum (ip_data buf) mod 65535 = 0 \<longleftrightarrow> ?p mod 65535 = 0"
    using assms(6) dvd_add_left_iff [of 65535 "bsum (ip_data buf)" ?p]
      dvd_add_right_iff [of 65535 ?p "bsum (ip_data buf)"]
    by (auto simp: mod_eq_0_iff_dvd)
  then have c: "pcap_checkIPchecksum (enc_iphdr (ip_hdr_of buf)) (drop (data_at buf) buf)
      (data_len (ip_hdr_of buf)) = Some (if ?p mod 65535 = 0 then 1 else 0)"
    using header_check_on_data [OF assms(1,3)] by simp
  have m: "mread buf (data_at buf + 6) 2 = Some (take 2 (drop (data_at buf + 6) buf))"
    using b data_at_le [of buf] by (simp add: mread_Some)
  have t: "AnalyzeUdp buf (data_at buf) (n - int (data_at buf)) =
      Some (0, [Stdout (PrintUdp (dec_udphdr (take 8 (drop (data_at buf) buf))))])"
    using b assms(5) data_at_le [of buf] by (simp add: AnalyzeUdp_def mread_Some)
  show ?thesis
    by (rule AnalyzePacket_ip_frame [OF assms(1), where r = "if ?p mod 65535 \<noteq> 0 then -1 else 0"])
      (simp add: AnalyzeIp_data_def c m assms(2,4) t ignoring_def IPPROTO_ICMP_def IPPROTO_TCP_def
        IPPROTO_UDP_def)
qed

lemma ex_udp_ok: "ip_frame (ex_udp_frame @ replicate 65493 0) 42"
proof -
  have "ip_opts (ex_udp_frame @ replicate 65493 0) = []"
    by (simp add: ip_opts_def ex_ip_hdr option_len_eq ex_iphdr_def)
  moreover have "ether_type (dec_ether_header (take 14 (ex_udp_frame @ replicate 65493 0))) = htons ETHERTYPE_IP"
    by (simp add: ex_udp_frame_eval dec_ether_header_def field_at ether_consts le16_def htons_def)
  moreover have "bsum (take 20 (drop 14 (ex_udp_frame @ replicate 65493 0))) mod 65535 = 0"
    by (simp add: ex_udp_frame_eval)
  ultimately show ?thesis by (simp add: ip_frame_def ex_data_at)
qed

theorem udp_frame_report_witness:
  "pcap_AnalyzePacket (ex_udp_frame @ replicate 65493 0) 42 = Some (0,
     ip_head (ex_udp_frame @ replicate 65493 0) 42 @ [Stderr (''bad udp checksum'' @ nl)])"
proof -
  let ?b = "ex_udp_frame @ replicate 65493 0"
  have h: "ip_protocol (ip_hdr_of ?b) = IPPROTO_UDP" "ip_ihl (ip_hdr_of ?b) = 5"
    by (simp_all add: ex_ip_hdr ex_iphdr_def ipprotos)
  have c: "u16_at (take 2 (drop (data_at ?b + 6) ?b)) 0 \<noteq> 0"
    unfolding ex_data_at(1) by (simp add: ex_udp_frame_eval u16_at_def le16_def)
  have d: "ip_data ?b = drop 34 ex_udp_frame"
    unfolding ip_data_def ex_data_at by (simp add: ex_udp_frame_eval)
  have a: "ip_saddr (ip_hdr_of ?b) = le32 10 0 0 1" "ip_daddr (ip_hdr_of ?b) = le32 10 0 0 2"
    by (simp_all add: ex_ip_hdr ex_iphdr_def)
  have p: "pseudo_sum (le32 10 0 0 1) (le32 10 0 0 2) IPPROTO_UDP (length (drop 34 ex_udp_frame)) = 5148"
    by (simp add: pseudo_sum_def IPPROTO_UDP_def)
  have s: "bsum (drop 34 ex_udp_frame) = 60387" by (simp add: ex_udp_frame_eval)
  have "(pseudo_sum (ip_saddr (ip_hdr_of ?b)) (ip_daddr (ip_hdr_of ?b)) IPPROTO_UDP (length (ip_data ?b)) +
      bsum (ip_data ?b)) mod 65535 = 0"
    unfolding a d p s by simp
  from udp_frame_report [OF ex_udp_ok h c _ this] show ?thesis
    unfolding a d p ex_data_at(1) by simp
qed

subsection \<open>ICMP\<close>

text \<open>C38: \<open>AnalyzeIcmp\<close> reads beyond the table of the type names exactly for type 18, which its
  guard admits although the table has 18 entries. For every other type it prints the header,
  also of a message it has just reported as too short.\<close>

theorem icmp_type_18:
  assumes "ptr + 8 \<le> length buf"
  shows "(AnalyzeIcmp buf ptr lest = None \<longleftrightarrow> buf ! ptr = 18) \<and>
    (buf ! ptr = 18 \<or> (\<exists>t. AnalyzeIcmp buf ptr lest = Some (0,
       (if lt_sizeof lest sizeof_icmp then [too_short lest ''icmp''] else []) @ [Stdout t])))"
proof (cases "buf ! ptr = 18")
  case True
  then have "PrintIcmp (dec_icmp (take 8 (drop ptr buf))) = None"
    using PrintIcmp_Some_iff [of "dec_icmp (take 8 (drop ptr buf))"] dec_icmp_type [OF assms]
    by (metis not_Some_eq)
  then show ?thesis using True by (simp add: AnalyzeIcmp_eq [OF assms])
next
  case False
  then obtain t where "AnalyzeIcmp buf ptr lest =
      Some (0, (if lt_sizeof lest sizeof_icmp then [too_short lest ''icmp''] else []) @ [Stdout t])"
    using AnalyzeIcmp_Some [OF assms] by metis
  then show ?thesis using False by auto
qed

theorem icmp_type_18_witness: "AnalyzeIcmp [18, 0, 0, 0, 0, 0, 0, 0] 0 28 = None"
  using icmp_type_18 [of 0 "[18, 0, 0, 0, 0, 0, 0, 0]" 28] by simp

text \<open>An ICMP message in a packet whose announced length does not exceed its header is printed
  without verification: the loop of \<open>checksum\<close> runs zero times for a length that is not positive,
  and \<open>0xFFFF\<close> counts as correct.\<close>

theorem icmp_unverified:
  assumes "ip_protocol h = IPPROTO_ICMP" and "data_len h \<le> 0" and "ptr + 8 \<le> length buf"
    and "buf ! ptr \<noteq> 18"
  shows "\<exists>t out. AnalyzeIp_data buf h ptr lest = Some (0, out @ [Stdout t])"
proof -
  obtain t where "AnalyzeIcmp buf ptr lest =
      Some (0, (if lt_sizeof lest sizeof_icmp then [too_short lest ''icmp''] else []) @ [Stdout t])"
    using AnalyzeIcmp_Some [OF assms(3,4)] by metis
  then show ?thesis
    using assms(1,2) by (auto simp: AnalyzeIp_data_def pcap_checksum_def checksum_nonpos ignoring_def)
qed

theorem icmp_unverified_witness:
  "\<exists>t out. AnalyzeIp_data (replicate 8 7) (ex_iphdr\<lparr>ip_protocol := 1, ip_tot_len := 0\<rparr>) 0 8 =
    Some (0, out @ [Stdout t])"
  by (rule icmp_unverified) (simp_all add: ex_iphdr_def data_len_def IPPROTO_ICMP_def htons_def)

subsection \<open>IPv6\<close>

definition no_ip6 :: "printed list \<Rightarrow> bool" where
  "no_ip6 out \<longleftrightarrow> list_all (\<lambda>x. case x of Stdout t \<Rightarrow> take 3 t \<noteq> ''ip6'' \<and> take 5 t \<noteq> ''icmp6'' | _ \<Rightarrow> True) out"

lemma no_ip6_append [simp]: "no_ip6 (xs @ ys) \<longleftrightarrow> no_ip6 xs \<and> no_ip6 ys"
  by (simp add: no_ip6_def)

lemma no_ip6_simps [simp]:
  "no_ip6 []" "no_ip6 (Stderr t # out) \<longleftrightarrow> no_ip6 out"
  "no_ip6 (Stdout t # out) \<longleftrightarrow> take 3 t \<noteq> ''ip6'' \<and> take 5 t \<noteq> ''icmp6'' \<and> no_ip6 out"
  "no_ip6 (too_short l x # out) \<longleftrightarrow> no_ip6 out"
  by (simp_all add: no_ip6_def too_short_def)

text \<open>The texts that are printed, by their first three characters\<close>

definition not_ip6 :: "string \<Rightarrow> bool" where
  "not_ip6 t \<longleftrightarrow> take 3 t \<noteq> ''ip6'' \<and> take 5 t \<noteq> ''icmp6''"

lemma not_ip6_Cons:
  "x \<noteq> CHR ''i'' \<Longrightarrow> not_ip6 (x # t)"
  "not_ip6 (CHR ''i'' # CHR ''p'' # CHR ''-'' # t)"
  "not_ip6 (CHR ''i'' # CHR ''c'' # CHR ''m'' # CHR ''p'' # CHR ''-'' # t)"
  by (simp_all add: not_ip6_def)

lemma printed_not_ip6 [simp]:
  "not_ip6 (pcap_PrintEtherHeader eh)" "not_ip6 (PrintTcp t)" "not_ip6 (PrintUdp u)"
  "PrintArp a = Some s \<Longrightarrow> not_ip6 s" "PrintIpHeader h opt ol buf = Some s \<Longrightarrow> not_ip6 s"
  "PrintIcmp i = Some s \<Longrightarrow> not_ip6 s"
  by (auto simp: pcap_PrintEtherHeader_def PrintTcp_def PrintUdp_def PrintArp_def PrintIpHeader_def
      PrintIcmp_def bind_eq_Some_conv not_ip6_Cons)

lemma no_ip6_Stdout [simp]: "no_ip6 (Stdout t # out) \<longleftrightarrow> not_ip6 t \<and> no_ip6 out"
  by (simp add: not_ip6_def)

lemma inner_no_ip6:
  "AnalyzeArp buf ptr lest = Some (r, out) \<Longrightarrow> no_ip6 out"
  "AnalyzeIcmp buf ptr lest = Some (r, out) \<Longrightarrow> no_ip6 out"
  "AnalyzeTcp buf ptr lest = Some (r, out) \<Longrightarrow> no_ip6 out"
  "AnalyzeUdp buf ptr lest = Some (r, out) \<Longrightarrow> no_ip6 out"
  by (auto simp: AnalyzeArp_def AnalyzeIcmp_def AnalyzeTcp_def AnalyzeUdp_def bind_eq_Some_conv
      simp del: no_ip6_simps(3) split: if_splits)

lemma ignoring_SomeD: "ignoring a = Some (r, out) \<Longrightarrow> \<exists>r'. a = Some (r', out)"
  by (auto simp: ignoring_def)

lemma after_SomeD: "after out a = Some (r, out') \<Longrightarrow> \<exists>o'. a = Some (r, o') \<and> out' = out @ o'"
  by (auto simp: after_def)

lemma AnalyzeIp_data_no_ip6: "AnalyzeIp_data buf h ptr lest = Some (r, out) \<Longrightarrow> no_ip6 out"
  by (auto simp: AnalyzeIp_data_def bind_eq_Some_conv split: if_splits
      dest!: ignoring_SomeD dest: inner_no_ip6)

lemma AnalyzeIp_no_ip6: "AnalyzeIp buf ptr n = Some (r, out) \<Longrightarrow> no_ip6 out"
  by (auto simp: AnalyzeIp_def Let_def bind_eq_Some_conv simp del: no_ip6_simps(3) split: if_splits
      dest!: after_SomeD dest: AnalyzeIp_data_no_ip6)

text \<open>No frame makes \<open>AnalyzePacket\<close> print an IPv6 or ICMPv6 header: frames of type IPv6 go to
  \<open>AnalyzeIp\<close>, so \<open>AnalyzeIpv6\<close> with its printing is never reached.\<close>

theorem ipv6_never_printed:
  assumes "pcap_AnalyzePacket buf n = Some (r, out)" and "Stdout t \<in> set out"
  shows "take 3 t \<noteq> ''ip6'' \<and> take 5 t \<noteq> ''icmp6''"
proof -
  have "no_ip6 out"
    using assms(1)
    by (auto simp: pcap_AnalyzePacket_def Let_def bind_eq_Some_conv simp del: no_ip6_simps(3)
        split: if_splits dest!: ignoring_SomeD after_SomeD dest: inner_no_ip6 AnalyzeIp_no_ip6)
  then show ?thesis using assms(2) by (force simp: no_ip6_def list_all_iff)
qed

text \<open>The same 60 bytes of zeros as an IPv6 packet: no IPv6 header is printed\<close>

theorem ipv6_never_printed_witness:
  "take 3 (pcap_PrintEtherHeader \<lparr>ether_dhost = MAC 0 0 0 0 0 0, ether_shost = MAC 0 0 0 0 0 0,
     ether_type = htons ETH_P_IPV6\<rparr>) \<noteq> ''ip6''"
proof -
  let ?eh = "\<lparr>ether_dhost = MAC 0 0 0 0 0 0, ether_shost = MAC 0 0 0 0 0 0, ether_type = htons ETH_P_IPV6\<rparr>"
  have n: "\<not> lt_sizeof 16 14" "lt_sizeof 2 20" by simp_all
  have t: "ETH_P_IPV6 \<noteq> ETHERTYPE_ARP" "ETH_P_IPV6 \<noteq> ETHERTYPE_IP"
    by (simp_all add: ETH_P_IPV6_def ether_consts)
  have "pcap_AnalyzePacket (enc_ether_header ?eh @ [0x60, 0]) 16 = Some (0,
      [Stderr (''Packet['' @ int_str 16 @ ''bytes]'' @ nl), Stdout (pcap_PrintEtherHeader ?eh),
       too_short 2 ''iphdr''])"
    unfolding pcap_AnalyzePacket_def AnalyzeIp_def Let_def
    by (simp add: n t mread_Some ignoring_def after_def)
  from ipv6_never_printed [OF this, of "pcap_PrintEtherHeader ?eh"] show ?thesis by simp
qed

subsection \<open>Fields\<close>

text \<open>The text of an IP header does not depend on the destination address: the source address is
  printed twice. The text of a TCP header does not depend on the low halves (in network order)
  of the sequence and acknowledgement numbers.\<close>

theorem printed_fields_lost:
  "PrintIpHeader (h\<lparr>ip_daddr := a\<rparr>) opt ol buf = PrintIpHeader h opt ol buf \<and>
   PrintTcp (t\<lparr>tcp_seq := tcp_seq t AND 0xFFFF, tcp_ack_seq := tcp_ack_seq t AND 0xFFFF\<rparr>) = PrintTcp t"
proof -
  have "(ucast (w AND 0xFFFF) :: u16) = ucast w" for w :: u32
    unfolding mask16 by (rule bit_word_eqI) (auto simp: bit_simps)
  then show ?thesis by (simp add: PrintIpHeader_def PrintTcp_def)
qed

end
