(* ===== verification/Ltest.thy ===== *)
theory Ltest
  imports PcapAnalyze
begin

text \<open>
  \<open>ltest/ltest.c\<close>: print the Ethernet header of every frame received on a device. It contains the
  \<open>InitRawSocket\<close> and \<open>my_ether_ntoa_r\<close> of the other programs; its text of the header is its own.
\<close>

definition ltest_InitRawSocket :: "raw_env \<Rightarrow> string \<Rightarrow> bool \<Rightarrow> bool \<Rightarrow> int \<times> syscall list" where
  "ltest_InitRawSocket = InitRawSocket"

definition ltest_my_ether_ntoa_r :: "mac \<Rightarrow> nat \<Rightarrow> string" where
  "ltest_my_ether_ntoa_r hwaddr size' = snprintf size' (mac_str hwaddr)"

definition ltest_PrintEtherHeader :: "ether_header \<Rightarrow> string" where
  "ltest_PrintEtherHeader eh =
     ''ether_header------------------------------------------'' @ nl @
     ''ether_dhost = '' @ ltest_my_ether_ntoa_r (ether_dhost eh) 80 @ nl @
     ''ether_shost = '' @ ltest_my_ether_ntoa_r (ether_shost eh) 80 @ nl @
     ''ether_type = '' @ pad2 (upper_hex_str (unat (ntohs (ether_type eh)))) @
     ether_type_name (ntohs (ether_type eh)) @ nl"

text \<open>One turn of the loop: \<open>size\<close> is compared as a \<open>size_t\<close>, and positive here.\<close>

definition ltest_read :: "bytes \<Rightarrow> int \<Rightarrow> bytes \<Rightarrow> (bytes \<times> printed) option" where
  "ltest_read buf size' bs =
     (if size' \<le> 0 then Some (buf, Perror ''read'')
      else do {
        buf \<leftarrow> mwrite buf 0 bs;
        (if \<not> lt_sizeof size' 14 then do {
           hd' \<leftarrow> mread buf 0 14;
           Some (buf, Stdout (ltest_PrintEtherHeader (dec_ether_header hd')))
         } else Some (buf, Stderr (''read size('' @ int_str size' @ '') < 14'' @ nl)))
      })"

fun ltest_loop :: "(int \<times> bytes) list \<Rightarrow> bytes \<Rightarrow> (bytes \<times> printed list) option" where
  "ltest_loop [] buf = Some (buf, [])"
| "ltest_loop ((size', bs) # rs) buf = do {
     (buf, t) \<leftarrow> ltest_read buf size' bs;
     (buf, out) \<leftarrow> ltest_loop rs buf;
     Some (buf, t # out)
   }"

definition ltest_main ::
  "string list \<Rightarrow> raw_env \<Rightarrow> (int \<times> bytes) list \<Rightarrow> bytes \<Rightarrow> (int option \<times> printed list) option" where
  "ltest_main argv e rs buf =
     (case argv of
        _ # dev # _ \<Rightarrow>
          (if fst (ltest_InitRawSocket e dev False False) = -1
           then Some (Some (-1), [Stderr (''InitRawSocket:error:'' @ dev @ nl)])
           else map_option (\<lambda>(_, out). (None, out)) (ltest_loop rs buf))
      | _ \<Rightarrow> Some (Some 1, [Stderr (''ltest device-name'' @ nl)]))"

section \<open>Properties\<close>

text \<open>What is printed for one result of \<open>read\<close>, from the frame alone\<close>

definition line :: "int \<times> bytes \<Rightarrow> printed" where
  "line r = (if fst r \<le> 0 then Perror ''read''
     else if fst r < 14 then Stderr (''read size('' @ int_str (fst r) @ '') < 14'' @ nl)
     else Stdout (ltest_PrintEtherHeader (dec_ether_header (take 14 (snd r)))))"

lemma ltest_read_line:
  assumes "n \<le> 0 \<or> n = int (length bs) \<and> length bs \<le> length buf" and "length buf < 2 ^ 31"
  shows "\<exists>buf'. ltest_read buf n bs = Some (buf', line (n, bs)) \<and> length buf' = length buf"
proof (cases "n \<le> 0")
  case True
  then show ?thesis by (simp add: ltest_read_def line_def)
next
  case False
  with assms have n: "n = int (length bs)" "length bs \<le> length buf" by auto
  have s: "lt_sizeof (int (length bs)) 14 \<longleftrightarrow> length bs < 14" using n assms(2) by (subst lt_sizeof_nonneg) auto
  show ?thesis
    using n False by (auto simp: ltest_read_def line_def mwrite_Some mread_Some s)
qed

text \<open>C39: \<open>ltest\<close> prints, for every frame of at least 14 bytes, its Ethernet header, and for every
  shorter frame and every failed \<open>read\<close> a message, one for each and in the order received; what
  is printed depends on the frame only, not on what an earlier one left in the buffer.\<close>

theorem ltest_prints_frames:
  assumes "list_all (\<lambda>(n, bs). n \<le> 0 \<or> n = int (length bs) \<and> length bs \<le> 2048) rs"
    and "length buf = 2048"
  shows "map_option snd (ltest_loop rs buf) = Some (map line rs)"
  using assms
proof (induction rs arbitrary: buf)
  case (Cons r rs)
  obtain n bs where r: "r = (n, bs)" by fastforce
  obtain b where "ltest_read buf n bs = Some (b, line (n, bs))" "length b = 2048"
    using ltest_read_line [of n bs buf] Cons.prems r by auto
  then show ?case using Cons.IH [of b] Cons.prems r by auto
qed simp

theorem ltest_prints_frames_witness:
  "map_option snd (ltest_loop [(20, replicate 20 1), (-1, []), (13, replicate 13 2)] (replicate 2048 0)) =
     Some [Stdout (ltest_PrintEtherHeader \<lparr>ether_dhost = MAC 1 1 1 1 1 1, ether_shost = MAC 1 1 1 1 1 1,
       ether_type = 0x101\<rparr>), Perror ''read'', Stderr (''read size(13) < 14'' @ nl)]"
proof -
  have i: "int_str 13 = ''13''" by (simp add: int_str_def dec_str.simps digit_def)
  show ?thesis
    using ltest_prints_frames [of "[(20, replicate 20 1), (-1, []), (13, replicate 13 2)]" "replicate 2048 0"]
    by (simp add: line_def i dec_ether_header_def field_at le16_def numeral_eq_Suc)
qed

end
