(* ===== verification/Spec2Isabelle.thy ===== *)
theory Spec2Isabelle
  imports RouterProps RouterSignals Races RacesReq RacesTraffic RacesEnd Bridge PcapProps Ltest
begin

text \<open>
  A model of the four programs of the repository, in C for Linux on x86-64: the software router
  (\<open>src/router\<close>), the bridge (\<open>src/bridge\<close>), the packet printer (\<open>src/pcap\<close>) and the link test
  (\<open>src/ltest\<close>).

  The programs and their parts.

  The router has two Ethernet devices and two threads. The receive loop (\<open>Router\<close>, \<open>main.c\<close>) reads
  a frame and passes it to \<open>AnalyzePacket\<close>, which learns MAC addresses from ARP packets, answers
  packets whose time to live ends with an ICMP message, and forwards the others to the next hop on
  the other device. The MAC address of the next hop comes from the table in \<open>ip2mac.c\<close>. While it is
  unknown the frame waits in the queue of its table entry (\<open>sendBuf.c\<close>) and an ARP request is
  broadcast; the reply posts a request to the queue \<open>SendReq\<close>, and the buffer thread
  (\<open>BufferSend\<close>) sends the waiting frames. The bridge copies frames between two devices, \<open>pcap\<close>
  prints the headers of the frames it receives, \<open>ltest\<close> the Ethernet header only.

  Theories and the code they model.

  \<^item> \<open>Prelude\<close>: C integers as words, little-endian loads and stores, bounds-checked memory.
  \<^item> \<open>Structs\<close>, \<open>PcapHeaders\<close>: the structures laid over packet buffers, one record each with its
    bytes; the locale \<open>codec\<close> is their contract.
  \<^item> \<open>Checksum\<close>: \<open>checksum\<close>, \<open>checksum2\<close>, \<open>checkIPchecksum\<close> of \<open>router/netutil.c\<close>; the locale
    \<open>inet_cksum\<close> is what their clients use.
  \<^item> \<open>DList\<close>: the heap and the doubly linked queues that \<open>sendBuf.c\<close> and \<open>ip2mac.c\<close> share; the
    locales \<open>fifo\<close> and \<open>fifo_clear\<close>.
  \<^item> \<open>SendBuf\<close>: \<open>router/sendBuf.c\<close>. \<open>Arp\<close>: \<open>SendArpRequestB\<close>. \<open>Ip2Mac\<close>: \<open>router/ip2mac.c\<close> and the
    global state (record \<open>router\<close>). \<open>RouterMain\<close>: \<open>SendIcmpTimeExceeded\<close>, \<open>AnalyzePacket\<close>,
    \<open>Router\<close>. \<open>RouterBoot\<close>: the set-up in \<open>main\<close>.
  \<^item> \<open>Ip2MacInv\<close>, \<open>Forward\<close>, \<open>BufferInv\<close>, \<open>PacketSpec\<close>: the invariant of the router's state, the
    rewriting of a frame, what each operation does to the abstract state (a list of frames per table
    entry and a list of requests), and the decision \<open>AnalyzePacket\<close> carries out (\<open>classify\<close>).
  \<^item> \<open>Resolver\<close>: the table as a cache of MAC addresses, the locale \<open>resolver\<close>.
  \<^item> \<open>RouterSystem\<close>: the interleaving of received frames, wake-ups of the buffer thread and signals
    as a step relation, its reachable states and their invariants. \<open>Races\<close>: the unlocked tests of
    \<open>GetSendData\<close> and \<open>AnalyzePacket\<close> as steps of their own. \<open>RacesReq\<close>: that of
    \<open>GetSendReqData\<close>, and the wait of the buffer thread. \<open>RacesSend\<close>: the buffer thread in
    single steps, with its pointer into the table, between which frames are received;
    \<open>RacesTraffic\<close>: what is written then; \<open>RacesEnd\<close>: its loops end. \<open>RouterProcess\<close>: the process of \<open>main\<close>
    with the program counters of its two threads, from their creation to the end of \<open>main\<close>.
  \<^item> \<open>RouterSpec\<close>: an abstract router without tables, queues, heaps and clocks: what was announced to
    it, the frames it holds back and what it has sent; the locale \<open>simulation\<close>.
    \<open>RouterRefine\<close>: the model refines it. \<open>RouterOrder\<close>: the order of the frames for a next hop.
    \<open>RouterStale\<close>: a request that names a reused table entry. \<open>RouterWhole\<close>: the process of \<open>main\<close>
    against the specification. \<open>RouterSignals\<close>: the end of \<open>main\<close> with the calls of \<open>signal\<close>,
    and signals at any time. \<open>RouterDebug\<close>: the messages of \<open>DebugPrintf\<close> and \<open>DebugPerror\<close>, beside
    the operations that print them.
  \<^item> \<open>RouterMemory\<close>: the pointers of the heap and the arrays of the tables in reachable states.
  \<^item> \<open>Printing\<close>, \<open>NetUtil\<close>: text output, \<open>InitRawSocket\<close>, \<open>GetDeviceInfo\<close>, \<open>PrintEtherHeader\<close>.
  \<^item> \<open>Bridge\<close>: \<open>src/bridge\<close>. \<open>Ltest\<close>: \<open>src/ltest\<close>. \<open>PcapChecksum\<close> (locale \<open>two_part_check\<close>),
    \<open>PcapPrint\<close>, \<open>PcapAnalyze\<close>: the files of \<open>src/pcap\<close>.
  \<^item> \<open>Examples\<close>, \<open>RouterProps\<close>, \<open>PcapProps\<close>: concrete frames and states, and the properties of the
    whole programs; the properties of single components are at the end of their theories.

  What is shown.

  For the router: no step of any interleaving of frames, wake-ups and signals is undefined; the
  tables, queues, counters and requests stay consistent; a frame is forwarded with exactly the
  changes routing requires, or queued and sent in order when its next hop is resolved; a
  resolved entry has no waiting frames after a wake-up; cached MAC addresses were received and
  are kept for their time; every pointer reached from a queue is well typed and no node is
  shared; an array grows, and may move, only when it is full; the loops run and stop, and after
  a signal the whole process ends within 7 steps of its threads, which then have left the
  sockets \<open>main\<close> closes. Every run is a run of the abstract router on the same
  events, with the same bytes written, so that all traffic is accounted for: a frame sent was
  received, at most as often as it was received, for the next hop it goes to, in order, and with
  a MAC address that was announced for it, or the null address in the one case
  \<open>RouterStale\<close> exhibits. A signal ends the process without the handler only before
  \<open>Router\<close>. The debug output changes nothing else. For the steps finer than that:
  the queue of an entry is first in, first out beside concurrent appends, and the requests are
  taken once and in order, but the unlocked tests admit a null dereference, a queue that no
  wake-up empties and a request that only a time-out serves. When frames are received between
  the steps of the buffer thread, all steps stay defined unless the array of a table grows under
  its pointer, its loops end, and the traffic stays accounted for, but a frame in hand can be overtaken and can
  go to another neighbour. For the bridge: it is transparent
  for frames of 14 bytes and more. For \<open>pcap\<close>: the checksums are those of the RFCs,
  the capture loop stays in its buffer under stated conditions, and what is printed for TCP and
  UDP. The errors found are stated as theorems beside the properties they limit.

  Conventions.

  \<^item> A definition carries the name of the C function, with the program's name before it where two
    programs use the same name. Undefined behaviour (an access outside an object, a null, freed or
    dangling pointer) is \<open>None\<close>; return codes are ordinary values.
  \<^item> What a library or system call returns is an argument: \<open>os\<close>, \<open>send_env\<close>, \<open>raw_env\<close>, \<open>dev_env\<close>,
    a lock's status, the result of \<open>read\<close>. What is written to sockets and streams is a log in the
    state or the result.
  \<^item> The endless loops take a list with one element per turn: the list bounds what is observed and
    is of arbitrary length, so no theorem depends on a bound. The pointer loops are
    \<open>partial_function (option)\<close>, whose results are proved to be \<open>Some\<close> under the invariant.
  \<^item> An address returned by \<open>malloc\<close> is new; a block is freed at most once and never reused.
  \<^item> In \<open>RouterSystem\<close> a step is one call of \<open>AnalyzePacket\<close>, one wake-up or one signal; in
    \<open>RouterProcess\<close> the tests of \<open>EndFlag\<close>, \<open>poll\<close> and joining are steps as well. The bound 7 is the
    longest way out: \<open>poll\<close>, two devices, the test and the join, beside one emptying of the requests
    and one test of the buffer thread. In \<open>RacesSend\<close> the calls of \<open>AnalyzePacket\<close>,
    \<open>GetSendReqData\<close> and \<open>GetSendData\<close> are steps, and the writing of a frame.

  Not modelled: signals before the buffer thread is created; interleavings inside the
  calls that use the table, which the two threads use without a lock (in C any concurrent write there is
  undefined); the build files and scripts.
\<close>

end
